theory Spec2Isabelle
  imports Main "HOL-Library.AList"
begin

section \<open>Data model of \<open>powerline/lib/config.py\<close>\<close>

text \<open>
  Paths and keys are Python strings. A Python function object (a callback or a condition
  function) is identified by its identity, a natural number. What a function does when it
  is called is not part of the loader: it is read from the environment \<open>env\<close> below.
\<close>

type_synonym path = string
type_synonym key = string
type_synonym fn = nat

text \<open>An exception carries its message, the \<open>str(e)\<close> of the source.\<close>

datatype exn = Exn string

text \<open>
  \<open>self.pl\<close> is either \<open>None\<close> or a logger. A logger is the list of the entries it
  has received through \<open>pl.exception(msg, prefix=..., *args)\<close>.
\<close>

record log_entry =
  entry_prefix :: string
  entry_msg :: string
  entry_args :: "string list"

text \<open>
  The calls the loader makes to functions it was given, in the order it makes them:
  \<open>function(path)\<close> of line 121, \<open>condition_function(key)\<close> of line 128,
  \<open>function(path)\<close> of line 134 (with the key and the pair it was made for), and
  \<open>self._load(path)\<close> of lines 109 and 140.
\<close>

datatype event =
    Notify fn path
  | CondCall fn key
  | Found key fn fn path
  | LoadCall path

text \<open>
  Modelled from the spec: the Detector (\<open>powerline.lib.file_watcher\<close>, whose source
  is not included). It exposes \<open>watch(path)\<close>, an idempotent registration, and
  \<open>check(path) -> bool\<close>: has \<open>path\<close> changed since the last check, consuming that
  change. \<open>touch\<close> is the file system marking paths as changed.
\<close>

record detector =
  watching :: "path set"
  changed :: "path set"

definition watch :: "path \<Rightarrow> detector \<Rightarrow> detector" where
  "watch p d = d\<lparr>watching := insert p (watching d)\<rparr>"

definition check :: "path \<Rightarrow> detector \<Rightarrow> bool \<times> detector" where
  "check p d = (p \<in> changed d, d\<lparr>changed := changed d - {p}\<rparr>)"

definition touch :: "path set \<Rightarrow> detector \<Rightarrow> detector" where
  "touch ps d = d\<lparr>changed := changed d \<union> ps\<rparr>"

text \<open>
  The world outside the loader during one cycle of the worker loop: what each condition
  function does when called with a key (raise, or return \<open>None\<close> or a string), what each
  callback does when called with a path (return, or raise), what the loader
  \<open>self._load\<close> does on a path (raise, or return a value), which files change before
  the cycle, and how long the body of the cycle takes. Within one cycle a function is read
  as a function of its arguments; from one cycle to the next the environment may differ.
  The functions called do not call back into the loader. The methods of the loader and
  the cycles of the worker loop run one after the other, as under \<open>self.lock\<close>.
\<close>

datatype cond_result = CondRaises string | CondReturns "string option"

record 'v env =
  cond :: "fn \<Rightarrow> key \<Rightarrow> cond_result"
  callback :: "fn \<Rightarrow> path \<Rightarrow> string option"
  loader :: "path \<Rightarrow> string + 'v"
  modified :: "path set"
  duration :: nat

text \<open>
  The fields of \<open>ConfigLoader\<close>. The two \<open>defaultdict(set)\<close> are association lists
  in iteration order, a set being the list of its elements in iteration order.
  \<open>shutdown_event\<close> is a \<open>threading.Event\<close> that another thread sets: here the time at
  which it gets set, if ever, together with the clock. \<open>trace\<close> records the calls made.
\<close>

record 'v config_loader =
  clock :: nat
  shutdown_at :: "nat option"
  watcher :: detector
  pl :: "log_entry list option"
  interval :: "nat option"
  watched :: "(path \<times> fn list) list"
  missing :: "(key \<times> (fn \<times> fn) list) list"
  loaded :: "path \<rightharpoonup> 'v"
  trace :: "event list"

definition init :: "detector \<Rightarrow> 'v config_loader" where
  "init w = \<lparr>clock = 0, shutdown_at = None, watcher = w, pl = None, interval = None,
     watched = [], missing = [], loaded = Map.empty, trace = []\<rparr>"

definition set_pl :: "log_entry list option \<Rightarrow> 'v config_loader \<Rightarrow> 'v config_loader" where
  "set_pl l s = s\<lparr>pl := l\<rparr>"

definition set_interval :: "nat option \<Rightarrow> 'v config_loader \<Rightarrow> 'v config_loader" where
  "set_interval i s = s\<lparr>interval := i\<rparr>"

subsection \<open>Sets as lists, dictionaries as association lists\<close>

definition set_add :: "'a \<Rightarrow> 'a list \<Rightarrow> 'a list" where
  "set_add x xs = (if x \<in> set xs then xs else xs @ [x])"

definition functions_of :: "('k \<times> 'a list) list \<Rightarrow> 'k \<Rightarrow> 'a list" where
  "functions_of al k = (case map_of al k of None \<Rightarrow> [] | Some fs \<Rightarrow> fs)"

subsection \<open>Registration\<close>

definition register :: "fn \<Rightarrow> path \<Rightarrow> 'v config_loader \<Rightarrow> 'v config_loader" where
  "register function p s =
     s\<lparr>watched := AList.map_default p [function] (set_add function) (watched s),
       watcher := watch p (watcher s)\<rparr>"

definition register_missing :: "fn \<Rightarrow> fn \<Rightarrow> key \<Rightarrow> 'v config_loader \<Rightarrow> 'v config_loader" where
  "register_missing condition_function function k s =
     s\<lparr>missing := AList.map_default k [(condition_function, function)]
                    (set_add (condition_function, function)) (missing s)\<rparr>"

text \<open>
  \<open>unregister_functions\<close> walks a snapshot of the items. \<open>functions\<close> is the set object
  stored in the dictionary, so \<open>functions -= removed_functions\<close> changes the entry of
  \<open>path\<close> in place.
\<close>

fun unregister_functions_loop ::
  "fn set \<Rightarrow> (path \<times> fn list) list \<Rightarrow> 'v config_loader \<Rightarrow> 'v config_loader" where
  "unregister_functions_loop removed [] s = s"
| "unregister_functions_loop removed ((p, _) # items) s =
     (let s1 = s\<lparr>watched := AList.map_entry p (filter (\<lambda>f. f \<notin> removed)) (watched s)\<rparr>
      in unregister_functions_loop removed items
           (if functions_of (watched s1) p = []
            then s1\<lparr>watched := AList.delete p (watched s1), loaded := (loaded s1)(p := None)\<rparr>
            else s1))"

definition unregister_functions :: "fn set \<Rightarrow> 'v config_loader \<Rightarrow> 'v config_loader" where
  "unregister_functions removed s = unregister_functions_loop removed (watched s) s"

fun unregister_missing_loop ::
  "(fn \<times> fn) set \<Rightarrow> (key \<times> (fn \<times> fn) list) list \<Rightarrow> 'v config_loader \<Rightarrow> 'v config_loader" where
  "unregister_missing_loop removed [] s = s"
| "unregister_missing_loop removed ((k, _) # items) s =
     (let s1 = s\<lparr>missing := AList.map_entry k (filter (\<lambda>f. f \<notin> removed)) (missing s)\<rparr>
      in unregister_missing_loop removed items
           (if functions_of (missing s1) k = []
            then s1\<lparr>missing := AList.delete k (missing s1)\<rparr>
            else s1))"

definition unregister_missing :: "(fn \<times> fn) set \<Rightarrow> 'v config_loader \<Rightarrow> 'v config_loader" where
  "unregister_missing removed s = unregister_missing_loop removed (missing s) s"

subsection \<open>Synchronous load\<close>

text \<open>
  \<open>load\<close> returns the cached value if \<open>self.loaded[path]\<close> exists; on \<open>KeyError\<close> it
  calls \<open>self._load(path)\<close>, whose exception propagates, and stores the result only if
  an interval is set.
\<close>

definition load :: "'v env \<Rightarrow> path \<Rightarrow> 'v config_loader \<Rightarrow> (exn + 'v) \<times> 'v config_loader" where
  "load e p s =
     (case loaded s p of
        Some v \<Rightarrow> (Inr v, s)
      | None \<Rightarrow>
          (let s1 = s\<lparr>trace := trace s @ [LoadCall p]\<rparr> in
           case loader e p of
             Inl m \<Rightarrow> (Inl (Exn m), s1)
           | Inr r \<Rightarrow> (Inr r, if interval s1 \<noteq> None then s1\<lparr>loaded := (loaded s1)(p \<mapsto> r)\<rparr> else s1)))"

subsection \<open>The error-reporting hook\<close>

text \<open>
  \<open>exception(msg, *args)\<close> is only called from an \<open>except\<close> block; \<open>x\<close> is the
  exception being handled there, which the bare \<open>raise\<close> raises again.
\<close>

definition exception ::
  "string \<Rightarrow> string list \<Rightarrow> exn \<Rightarrow> 'v config_loader \<Rightarrow> (exn \<times> 'v config_loader) + 'v config_loader" where
  "exception m as x s =
     (case pl s of
        Some entries \<Rightarrow>
          Inr (s\<lparr>pl := Some (entries @ [\<lparr>entry_prefix = ''config_loader'', entry_msg = m, entry_args = as\<rparr>])\<rparr>)
      | None \<Rightarrow> Inl (x, s))"

subsection \<open>The worker loop\<close>

text \<open>
  \<open>threading.Event\<close>: \<open>is_set()\<close> holds from the moment the event is set;
  \<open>wait(timeout)\<close> returns at once if the event is set, and otherwise when it gets set
  or when the timeout has passed, whichever comes first.
\<close>

definition is_set :: "'v config_loader \<Rightarrow> bool" where
  "is_set s = (case shutdown_at s of None \<Rightarrow> False | Some t \<Rightarrow> t \<le> clock s)"

definition wait :: "nat \<Rightarrow> 'v config_loader \<Rightarrow> 'v config_loader" where
  "wait timeout s =
     (case shutdown_at s of
        None \<Rightarrow> s\<lparr>clock := clock s + timeout\<rparr>
      | Some t \<Rightarrow> if t \<le> clock s then s else s\<lparr>clock := min t (clock s + timeout)\<rparr>)"

text \<open>
  Lines 118 to 122: for one path, the inner loop over its functions. The watcher is
  asked once for every function.
\<close>

fun run_watched_functions ::
  "'v env \<Rightarrow> path \<Rightarrow> fn list \<Rightarrow> path list \<Rightarrow> 'v config_loader
     \<Rightarrow> (exn \<times> 'v config_loader) + (path list \<times> 'v config_loader)" where
  "run_watched_functions e p [] toload s = Inr (toload, s)"
| "run_watched_functions e p (function # functions) toload s =
     (case check p (watcher s) of
        (is_modified, w) \<Rightarrow>
          (let s1 = s\<lparr>watcher := w\<rparr> in
           if is_modified then
             (let s2 = s1\<lparr>trace := trace s1 @ [Notify function p]\<rparr> in
              case callback e function p of
                Some m \<Rightarrow> Inl (Exn m, s2)
              | None \<Rightarrow> run_watched_functions e p functions (toload @ [p]) s2)
           else run_watched_functions e p functions toload s1))"

fun run_watched ::
  "'v env \<Rightarrow> (path \<times> fn list) list \<Rightarrow> path list \<Rightarrow> 'v config_loader
     \<Rightarrow> (exn \<times> 'v config_loader) + (path list \<times> 'v config_loader)" where
  "run_watched e [] toload s = Inr (toload, s)"
| "run_watched e ((p, functions) # items) toload s =
     (case run_watched_functions e p functions toload s of
        Inl r \<Rightarrow> Inl r
      | Inr (toload1, s1) \<Rightarrow> run_watched e items toload1 s1)"

text \<open>
  Lines 126 to 135: for one key, the loop over a snapshot of its pairs.
  \<open>functions.remove\<close> changes the set stored under the key.
\<close>

fun run_missing_functions ::
  "'v env \<Rightarrow> key \<Rightarrow> (fn \<times> fn) list \<Rightarrow> path list \<Rightarrow> 'v config_loader
     \<Rightarrow> (exn \<times> 'v config_loader) + (path list \<times> 'v config_loader)" where
  "run_missing_functions e k [] toload s = Inr (toload, s)"
| "run_missing_functions e k ((condition_function, function) # rest) toload s =
     (let s1 = s\<lparr>trace := trace s @ [CondCall condition_function k]\<rparr> in
      case cond e condition_function k of
        CondRaises m \<Rightarrow>
          (case exception ''Error while running condition function for key {0}: {1}''
                  [k, m] (Exn m) s1 of
             Inl r \<Rightarrow> Inl r
           | Inr s2 \<Rightarrow> run_missing_functions e k rest toload s2)
      | CondReturns None \<Rightarrow> run_missing_functions e k rest toload s1
      | CondReturns (Some p) \<Rightarrow>
          if p = [] then run_missing_functions e k rest toload s1
          else
            (let s2 = s1\<lparr>trace := trace s1 @ [Found k condition_function function p]\<rparr> in
             case callback e function p of
               Some m \<Rightarrow> Inl (Exn m, s2)
             | None \<Rightarrow>
                 run_missing_functions e k rest (toload @ [p])
                   (s2\<lparr>missing := AList.map_entry k (removeAll (condition_function, function))
                                    (missing s2)\<rparr>)))"

text \<open>Lines 124 to 137: the loop over a snapshot of the items of \<open>self.missing\<close>.\<close>

fun run_missing ::
  "'v env \<Rightarrow> (key \<times> (fn \<times> fn) list) list \<Rightarrow> path list \<Rightarrow> 'v config_loader
     \<Rightarrow> (exn \<times> 'v config_loader) + (path list \<times> 'v config_loader)" where
  "run_missing e [] toload s = Inr (toload, s)"
| "run_missing e ((k, _) # items) toload s =
     (case run_missing_functions e k (functions_of (missing s) k) toload s of
        Inl r \<Rightarrow> Inl r
      | Inr (toload1, s1) \<Rightarrow>
          run_missing e items toload1
            (if functions_of (missing s1) k = []
             then s1\<lparr>missing := AList.delete k (missing s1)\<rparr>
             else s1))"

text \<open>Lines 138 to 142: the reload of every recorded path.\<close>

fun run_toload ::
  "'v env \<Rightarrow> path list \<Rightarrow> 'v config_loader \<Rightarrow> (exn \<times> 'v config_loader) + 'v config_loader" where
  "run_toload e [] s = Inr s"
| "run_toload e (p # toload) s =
     (let s1 = s\<lparr>trace := trace s @ [LoadCall p]\<rparr> in
      case loader e p of
        Inr r \<Rightarrow> run_toload e toload (s1\<lparr>loaded := (loaded s1)(p \<mapsto> r)\<rparr>)
      | Inl m \<Rightarrow>
          (case exception ''Error while loading {0}: {1}'' [p, m] (Exn m) s1 of
             Inl r \<Rightarrow> Inl r
           | Inr s2 \<Rightarrow> run_toload e toload s2))"

text \<open>
  Lines 116 to 142, the body of the \<open>while\<close> loop without the final wait. The files
  that changed since the last cycle are known to the watcher when the cycle starts.
\<close>

definition run_body :: "'v env \<Rightarrow> 'v config_loader \<Rightarrow> (exn \<times> 'v config_loader) + 'v config_loader" where
  "run_body e s =
     (let s0 = s\<lparr>watcher := touch (modified e) (watcher s)\<rparr> in
      case run_watched e (watched s0) [] s0 of
        Inl r \<Rightarrow> Inl r
      | Inr (toload1, s1) \<Rightarrow>
          (case run_missing e (missing s1) toload1 s1 of
             Inl r \<Rightarrow> Inl r
           | Inr (toload2, s2) \<Rightarrow>
               (case run_toload e toload2 s2 of
                  Inl r \<Rightarrow> Inl r
                | Inr s3 \<Rightarrow> Inr (s3\<lparr>clock := clock s3 + duration e\<rparr>))))"

text \<open>
  \<open>run\<close>: one environment per cycle. \<open>Stopped\<close> is the loop left through its
  condition, \<open>Raised\<close> an exception leaving \<open>run\<close>, \<open>Running\<close> the loop about to
  start a cycle for which no environment is left.
\<close>

datatype 'v outcome =
    Stopped "'v config_loader"
  | Raised exn "'v config_loader"
  | Running "'v config_loader"

fun run :: "'v env list \<Rightarrow> 'v config_loader \<Rightarrow> 'v outcome" where
  "run [] s =
     (case interval s of
        None \<Rightarrow> Stopped s
      | Some i \<Rightarrow> if is_set s then Stopped s else Running s)"
| "run (e # es) s =
     (case interval s of
        None \<Rightarrow> Stopped s
      | Some i \<Rightarrow>
          if is_set s then Stopped s
          else
            (case run_body e s of
               Inl (x, s1) \<Rightarrow> Raised x s1
             | Inr s1 \<Rightarrow> run es (wait i s1)))"


section \<open>Notions used in the statements\<close>

subsection \<open>Representation invariant and the invariant of the registries\<close>

text \<open>
  \<open>wf\<close>: the association lists are dictionaries (no key twice) and the lists in them
  are sets (no element twice). \<open>no_empty_entry\<close>: no stored set is empty.
  \<open>pairs_distinct\<close> and \<open>pairs_nonempty\<close> say the same of \<open>self.missing\<close>
  through the lookup.
\<close>

definition wf :: "'v config_loader \<Rightarrow> bool" where
  "wf s \<longleftrightarrow>
     distinct (map fst (watched s)) \<and> distinct (map fst (missing s)) \<and>
     (\<forall>(p, fs) \<in> set (watched s). distinct fs) \<and>
     (\<forall>(k, ps) \<in> set (missing s). distinct ps)"

definition no_empty_entry :: "'v config_loader \<Rightarrow> bool" where
  "no_empty_entry s \<longleftrightarrow>
     (\<forall>(p, fs) \<in> set (watched s). fs \<noteq> []) \<and> (\<forall>(k, ps) \<in> set (missing s). ps \<noteq> [])"

definition pairs_distinct :: "(key \<times> (fn \<times> fn) list) list \<Rightarrow> bool" where
  "pairs_distinct al \<longleftrightarrow> (\<forall>k ps. map_of al k = Some ps \<longrightarrow> distinct ps)"

definition pairs_nonempty :: "(key \<times> (fn \<times> fn) list) list \<Rightarrow> bool" where
  "pairs_nonempty al \<longleftrightarrow> (\<forall>k ps. map_of al k = Some ps \<longrightarrow> ps \<noteq> [])"

subsection \<open>What one pair, one key and one path contribute to a cycle\<close>

text \<open>
  For a pair \<open>(condition_function, function)\<close> stored under a key: whether the condition
  function returns a non-empty path (\<open>resolves\<close>), the calls made for the pair, the
  entries logged for it, the paths recorded for it, and whether its callback, if called,
  returns. \<open>remaining\<close> are the pairs of a key that stay after a cycle.
\<close>

fun falsy :: "cond_result \<Rightarrow> bool" where
  "falsy (CondReturns None) = True"
| "falsy (CondReturns (Some p)) = (p = [])"
| "falsy (CondRaises m) = False"

fun resolves :: "'v env \<Rightarrow> key \<Rightarrow> fn \<times> fn \<Rightarrow> bool" where
  "resolves e k (c, f) =
     (case cond e c k of CondReturns (Some p) \<Rightarrow> p \<noteq> [] | _ \<Rightarrow> False)"

definition remaining :: "'v env \<Rightarrow> key \<Rightarrow> (fn \<times> fn) list \<Rightarrow> (fn \<times> fn) list" where
  "remaining e k ps = filter (\<lambda>pr. \<not> resolves e k pr) ps"

fun pair_events :: "'v env \<Rightarrow> key \<Rightarrow> fn \<times> fn \<Rightarrow> event list" where
  "pair_events e k (c, f) =
     CondCall c k #
     (case cond e c k of
        CondReturns (Some p) \<Rightarrow> if p = [] then [] else [Found k c f p]
      | _ \<Rightarrow> [])"

fun pair_errors :: "'v env \<Rightarrow> key \<Rightarrow> fn \<times> fn \<Rightarrow> log_entry list" where
  "pair_errors e k (c, f) =
     (case cond e c k of
        CondRaises m \<Rightarrow>
          [\<lparr>entry_prefix = ''config_loader'',
            entry_msg = ''Error while running condition function for key {0}: {1}'',
            entry_args = [k, m]\<rparr>]
      | _ \<Rightarrow> [])"

definition cond_error :: "key \<Rightarrow> string \<Rightarrow> log_entry" where
  "cond_error k m =
     \<lparr>entry_prefix = ''config_loader'',
      entry_msg = ''Error while running condition function for key {0}: {1}'',
      entry_args = [k, m]\<rparr>"

fun pair_paths :: "'v env \<Rightarrow> key \<Rightarrow> fn \<times> fn \<Rightarrow> path list" where
  "pair_paths e k (c, f) =
     (case cond e c k of
        CondReturns (Some p) \<Rightarrow> if p = [] then [] else [p]
      | _ \<Rightarrow> [])"

fun pair_returns :: "'v env \<Rightarrow> key \<Rightarrow> fn \<times> fn \<Rightarrow> bool" where
  "pair_returns e k (c, f) =
     (case cond e c k of
        CondReturns (Some p) \<Rightarrow> p = [] \<or> callback e f p = None
      | _ \<Rightarrow> True)"

definition key_events :: "'v env \<Rightarrow> 'v config_loader \<Rightarrow> key \<Rightarrow> event list" where
  "key_events e s k = concat (map (pair_events e k) (functions_of (missing s) k))"

definition key_errors :: "'v env \<Rightarrow> 'v config_loader \<Rightarrow> key \<Rightarrow> log_entry list" where
  "key_errors e s k = concat (map (pair_errors e k) (functions_of (missing s) k))"

definition key_paths :: "'v env \<Rightarrow> 'v config_loader \<Rightarrow> key \<Rightarrow> path list" where
  "key_paths e s k = concat (map (pair_paths e k) (functions_of (missing s) k))"

fun load_errors :: "'v env \<Rightarrow> path \<Rightarrow> log_entry list" where
  "load_errors e p =
     (case loader e p of
        Inl m \<Rightarrow>
          [\<lparr>entry_prefix = ''config_loader'', entry_msg = ''Error while loading {0}: {1}'',
            entry_args = [p, m]\<rparr>]
      | Inr v \<Rightarrow> [])"

definition pop_if_empty :: "key \<Rightarrow> 'v config_loader \<Rightarrow> 'v config_loader" where
  "pop_if_empty k s =
     (if functions_of (missing s) k = [] then s\<lparr>missing := AList.delete k (missing s)\<rparr> else s)"

subsection \<open>Reading traces and results\<close>

text \<open>
  \<open>found k c f\<close> keeps the calls of line 134 made for the pair \<open>(c, f)\<close> of key
  \<open>k\<close>; \<open>found_by\<close> is the call a cycle makes for a pending pair, if any.
  \<open>raised\<close> turns what the loader does into what \<open>load\<close> returns or raises.
\<close>

fun is_notify :: "event \<Rightarrow> bool" where
  "is_notify (Notify f p) = True"
| "is_notify _ = False"

fun is_found :: "key \<Rightarrow> fn \<Rightarrow> fn \<Rightarrow> event \<Rightarrow> bool" where
  "is_found k c f (Found k' c' f' p) = (k' = k \<and> c' = c \<and> f' = f)"
| "is_found k c f _ = False"

definition found :: "key \<Rightarrow> fn \<Rightarrow> fn \<Rightarrow> event list \<Rightarrow> event list" where
  "found k c f evs = filter (is_found k c f) evs"

definition found_by :: "'v env \<Rightarrow> key \<Rightarrow> fn \<Rightarrow> fn \<Rightarrow> event list" where
  "found_by e k c f =
     (case cond e c k of
        CondReturns (Some p) \<Rightarrow> if p = [] then [] else [Found k c f p]
      | _ \<Rightarrow> [])"

definition raised :: "string + 'v \<Rightarrow> exn + 'v" where
  "raised r = (case r of Inl m \<Rightarrow> Inl (Exn m) | Inr v \<Rightarrow> Inr v)"

fun outcome_state :: "'v outcome \<Rightarrow> 'v config_loader" where
  "outcome_state (Stopped s) = s"
| "outcome_state (Raised x s) = s"
| "outcome_state (Running s) = s"

subsection \<open>A loader with a logger and the same loader with none\<close>

text \<open>
  The state in which a phase, a cycle or \<open>run\<close> ends, whether it returned or raised,
  and a change of the state carried through a result.
\<close>

fun result_state1 ::
  "(exn \<times> 'v config_loader) + (path list \<times> 'v config_loader) \<Rightarrow> 'v config_loader" where
  "result_state1 (Inl (x, t)) = t"
| "result_state1 (Inr (ts, t)) = t"

fun result_state :: "(exn \<times> 'v config_loader) + 'v config_loader \<Rightarrow> 'v config_loader" where
  "result_state (Inl (x, t)) = t"
| "result_state (Inr t) = t"

fun map_state1 ::
  "('v config_loader \<Rightarrow> 'v config_loader) \<Rightarrow>
   (exn \<times> 'v config_loader) + (path list \<times> 'v config_loader) \<Rightarrow>
   (exn \<times> 'v config_loader) + (path list \<times> 'v config_loader)" where
  "map_state1 g (Inl (x, t)) = Inl (x, g t)"
| "map_state1 g (Inr (ts, t)) = Inr (ts, g t)"

fun map_state ::
  "('v config_loader \<Rightarrow> 'v config_loader) \<Rightarrow>
   (exn \<times> 'v config_loader) + 'v config_loader \<Rightarrow>
   (exn \<times> 'v config_loader) + 'v config_loader" where
  "map_state g (Inl (x, t)) = Inl (x, g t)"
| "map_state g (Inr t) = Inr (g t)"

fun map_outcome ::
  "('v config_loader \<Rightarrow> 'v config_loader) \<Rightarrow> 'v outcome \<Rightarrow> 'v outcome" where
  "map_outcome g (Stopped s) = Stopped (g s)"
| "map_outcome g (Raised x s) = Raised x (g s)"
| "map_outcome g (Running s) = Running (g s)"

text \<open>
  The record \<open>exception\<close> passes to the logger at line 142, as \<open>cond_error\<close> is the one
  of line 130.
\<close>

definition load_error :: "path \<Rightarrow> string \<Rightarrow> log_entry" where
  "load_error p m =
     \<lparr>entry_prefix = ''config_loader'', entry_msg = ''Error while loading {0}: {1}'',
      entry_args = [p, m]\<rparr>"

text \<open>
  The call of \<open>exception\<close> that follows an event of the trace, if any: the entry it passes
  to the logger and the exception being handled. A call of a condition function that
  raises is followed by the handler of line 129, a call of \<open>_load\<close> that raises by the
  one of line 141; a callback is called outside any \<open>try\<close>.
\<close>

fun hook_call :: "'v env \<Rightarrow> event \<Rightarrow> (log_entry \<times> exn) option" where
  "hook_call e (CondCall c k) =
     (case cond e c k of
        CondRaises m \<Rightarrow> Some (cond_error k m, Exn m)
      | CondReturns v \<Rightarrow> None)"
| "hook_call e (LoadCall p) =
     (case loader e p of Inl m \<Rightarrow> Some (load_error p m, Exn m) | Inr v \<Rightarrow> None)"
| "hook_call e (Notify f p) = None"
| "hook_call e (Found k c f p) = None"

subsection \<open>A cycle in which a condition function raises\<close>

text \<open>
  The environment in which the condition function \<open>c\<close>, where it raises for the key \<open>k\<close>,
  returns \<open>None\<close> instead: the cycle as it would be had the pair been passed over without
  an error. Everything else is as in \<open>e\<close>.
\<close>

definition hush :: "fn \<Rightarrow> key \<Rightarrow> 'v env \<Rightarrow> 'v env" where
  "hush c k e =
     e\<lparr>cond := (\<lambda>c' k'.
          if c' = c \<and> k' = k then
            (case cond e c k of CondRaises m \<Rightarrow> CondReturns None | CondReturns v \<Rightarrow> CondReturns v)
          else cond e c' k')\<rparr>"

text \<open>
  The events of a cycle and the entries its logger received agree when the error of every
  call of a condition function that raised is among the entries and every \<open>Found\<close> event
  records what the condition function returned.
\<close>

definition accounted :: "'v env \<Rightarrow> event list \<Rightarrow> log_entry list \<Rightarrow> bool" where
  "accounted e evs ents \<longleftrightarrow>
     (\<forall>c k m. CondCall c k \<in> set evs \<and> cond e c k = CondRaises m \<longrightarrow>
        cond_error k m \<in> set ents) \<and>
     (\<forall>k c f p. Found k c f p \<in> set evs \<longrightarrow> cond e c k = CondReturns (Some p))"

text \<open>
  A path has an origin among the events of a cycle when a callback was notified of its
  change or a condition function found it.
\<close>

definition origin :: "event list \<Rightarrow> path \<Rightarrow> bool" where
  "origin evs p \<longleftrightarrow> (\<exists>f. Notify f p \<in> set evs) \<or> (\<exists>k c f. Found k c f p \<in> set evs)"

section \<open>Sample states and environments\<close>

text \<open>
  States built with the operations of the loader from \<open>init\<close>, and environments, on
  which the theorems below are instantiated.
\<close>

definition d0 :: detector where
  "d0 = \<lparr>watching = {}, changed = {}\<rparr>"

definition env_const :: "nat \<Rightarrow> nat env" where
  "env_const v = \<lparr>cond = (\<lambda>c k. CondReturns None), callback = (\<lambda>f p. None),
     loader = (\<lambda>p. Inr v), modified = {}, duration = 0\<rparr>"

definition env_bad_a :: "nat env" where
  "env_bad_a = \<lparr>cond = (\<lambda>c k. CondReturns None), callback = (\<lambda>f p. None),
     loader = (\<lambda>p. if p = ''a.json'' then Inl ''bad json'' else Inr 5),
     modified = {''a.json'', ''b.json''}, duration = 2\<rparr>"

definition env_slow :: "nat env" where
  "env_slow = \<lparr>cond = (\<lambda>c k. CondReturns None), callback = (\<lambda>f p. None),
     loader = (\<lambda>p. Inr 5), modified = {}, duration = 2\<rparr>"

definition env_cond_raises :: "nat env" where
  "env_cond_raises = \<lparr>cond = (\<lambda>c k. if c = 3 then CondRaises ''boom'' else CondReturns None),
     callback = (\<lambda>f p. None), loader = (\<lambda>p. Inr 5), modified = {}, duration = 2\<rparr>"

definition env_found :: "nat env" where
  "env_found =
     \<lparr>cond = (\<lambda>c k. if c = 3 then CondReturns (Some ''/etc/found.json'') else CondReturns None),
      callback = (\<lambda>f p. None), loader = (\<lambda>p. Inr 5), modified = {''a.json''}, duration = 2\<rparr>"

definition env_found_idle :: "nat env" where
  "env_found_idle =
     \<lparr>cond = (\<lambda>c k. if c = 3 then CondReturns (Some ''/etc/found.json'') else CondReturns None),
      callback = (\<lambda>f p. None), loader = (\<lambda>p. Inr 5), modified = {}, duration = 2\<rparr>"

definition env_theme_changed :: "nat env" where
  "env_theme_changed =
     \<lparr>cond = (\<lambda>c k. CondReturns None), callback = (\<lambda>f p. None), loader = (\<lambda>p. Inr 5),
      modified = {''theme.json''}, duration = 2\<rparr>"

definition cached_then_disabled :: "nat config_loader" where
  "cached_then_disabled =
     set_interval None (snd (load (env_const 1) ''theme.json'' (set_interval (Some 10) (init d0))))"

definition registered_and_cached :: "nat config_loader" where
  "registered_and_cached =
     snd (load (env_const 1) ''theme.json''
            (register 7 ''theme.json'' (set_interval (Some 10) (init d0))))"

definition two_paths_two_keys :: "nat config_loader" where
  "two_paths_two_keys =
     snd (load (env_const 1) ''b.json''
       (snd (load (env_const 1) ''a.json''
         (register_missing 5 6 ''m'' (register_missing 3 4 ''k''
           (register 2 ''b.json'' (register 1 ''a.json''
             (set_interval (Some 10) (init d0)))))))))"

definition two_keys_logged :: "nat config_loader" where
  "two_keys_logged = set_pl (Some []) two_paths_two_keys"

definition two_watched :: "nat config_loader" where
  "two_watched =
     register 2 ''b.json'' (register 1 ''a.json'' (set_interval (Some 10) (init d0)))"

definition two_watched_logged :: "nat config_loader" where
  "two_watched_logged =
     set_pl (Some []) (snd (load (env_const 0) ''a.json'' two_watched))"

definition stopping_at_5 :: "nat config_loader" where
  "stopping_at_5 = (set_interval (Some 10) (init d0))\<lparr>shutdown_at := Some 5\<rparr>"

definition pending_no_sink :: "nat config_loader" where
  "pending_no_sink =
     register_missing 3 4 ''colorscheme'' (register 1 ''a.json'' (set_interval (Some 10) (init d0)))"

definition with_interval :: "nat config_loader" where
  "with_interval = set_interval (Some 10) (init d0)"

definition three_cycles :: "nat outcome" where
  "three_cycles =
     run ([env_const 0] @ env_found_idle # [env_found_idle])
       (register_missing 3 4 ''colorscheme'' with_interval)"

definition two_callbacks :: "nat config_loader" where
  "two_callbacks =
     register 2 ''theme.json'' (register 1 ''theme.json''
       (set_pl (Some []) (set_interval (Some 10) (init d0))))"

definition after_idle_cycle :: "nat config_loader" where
  "after_idle_cycle =
     outcome_state (run [env_const 0] (register_missing 3 4 ''colorscheme'' with_interval))"

definition after_found_cycle :: "nat config_loader" where
  "after_found_cycle = projr (run_body env_found_idle after_idle_cycle)"

definition env_cb_raises :: "nat env" where
  "env_cb_raises =
     \<lparr>cond = (\<lambda>c k. if c = 3 then CondReturns (Some ''/etc/found.json'') else CondReturns None),
      callback = (\<lambda>f p. if f = 4 then Some ''cb failed'' else None),
      loader = (\<lambda>p. Inr 5), modified = {}, duration = 2\<rparr>"

definition env_cond_cb_raise :: "nat env" where
  "env_cond_cb_raise =
     \<lparr>cond = (\<lambda>c k. if c = 3 then CondRaises ''boom''
                     else if c = 5 then CondReturns (Some ''/etc/found.json'')
                     else CondReturns None),
      callback = (\<lambda>f p. if f = 6 then Some ''cb failed'' else None),
      loader = (\<lambda>p. Inr 5), modified = {}, duration = 2\<rparr>"

definition pending_logged :: "nat config_loader" where
  "pending_logged =
     register_missing 3 4 ''colorscheme'' (set_pl (Some []) (set_interval (Some 10) (init d0)))"

definition after_cb_raised :: "nat config_loader" where
  "after_cb_raised = snd (projl (run_body env_cb_raises pending_logged))"

section \<open>Unregistration\<close>

lemma unregister_functions_loop_frame:
  "missing (unregister_functions_loop R items s) = missing s \<and>
   watcher (unregister_functions_loop R items s) = watcher s \<and>
   pl (unregister_functions_loop R items s) = pl s \<and>
   interval (unregister_functions_loop R items s) = interval s \<and>
   trace (unregister_functions_loop R items s) = trace s \<and>
   clock (unregister_functions_loop R items s) = clock s \<and>
   shutdown_at (unregister_functions_loop R items s) = shutdown_at s"
  by (induction R items s rule: unregister_functions_loop.induct) (simp_all add: Let_def)

lemma unregister_functions_loop_watched:
  "distinct (map fst items) \<Longrightarrow>
   map_of (watched (unregister_functions_loop R items s)) p =
     (if p \<in> fst ` set items
      then (case map_of (watched s) p of
              None \<Rightarrow> None
            | Some fs \<Rightarrow> if filter (\<lambda>f. f \<notin> R) fs = [] then None else Some (filter (\<lambda>f. f \<notin> R) fs))
      else map_of (watched s) p)"
proof (induction R items s rule: unregister_functions_loop.induct)
  case (1 removed s)
  then show ?case by simp
next
  case (2 removed q uu items s)
  then show ?case
    by (auto simp: Let_def functions_of_def map_of_map_entry delete_conv' image_iff split: option.splits)
qed

lemma unregister_functions_loop_loaded:
  "distinct (map fst items) \<Longrightarrow>
   loaded (unregister_functions_loop R items s) p =
     (if p \<in> fst ` set items \<and> filter (\<lambda>f. f \<notin> R) (functions_of (watched s) p) = []
      then None else loaded s p)"
proof (induction R items s rule: unregister_functions_loop.induct)
  case (1 removed s)
  then show ?case by simp
next
  case (2 removed q uu items s)
  then show ?case
    by (auto simp: Let_def functions_of_def map_of_map_entry delete_conv' image_iff split: option.splits)
qed

lemma unregister_functions_loop_distinct:
  "distinct (map fst (watched s)) \<Longrightarrow> distinct (map fst (watched (unregister_functions_loop R items s)))"
  by (induction R items s rule: unregister_functions_loop.induct)
     (simp_all add: Let_def distinct_map_entry distinct_delete)

lemma unregister_missing_loop_frame:
  "watched (unregister_missing_loop R items s) = watched s \<and>
   loaded (unregister_missing_loop R items s) = loaded s \<and>
   watcher (unregister_missing_loop R items s) = watcher s \<and>
   pl (unregister_missing_loop R items s) = pl s \<and>
   interval (unregister_missing_loop R items s) = interval s \<and>
   trace (unregister_missing_loop R items s) = trace s \<and>
   clock (unregister_missing_loop R items s) = clock s \<and>
   shutdown_at (unregister_missing_loop R items s) = shutdown_at s"
  by (induction R items s rule: unregister_missing_loop.induct) (simp_all add: Let_def)

lemma unregister_missing_loop_missing:
  "distinct (map fst items) \<Longrightarrow>
   map_of (missing (unregister_missing_loop R items s)) k =
     (if k \<in> fst ` set items
      then (case map_of (missing s) k of
              None \<Rightarrow> None
            | Some ps \<Rightarrow> if filter (\<lambda>f. f \<notin> R) ps = [] then None else Some (filter (\<lambda>f. f \<notin> R) ps))
      else map_of (missing s) k)"
proof (induction R items s rule: unregister_missing_loop.induct)
  case (1 removed s)
  then show ?case by simp
next
  case (2 removed q uu items s)
  then show ?case
    by (auto simp: Let_def functions_of_def map_of_map_entry delete_conv' image_iff split: option.splits)
qed

lemma unregister_missing_loop_distinct:
  "distinct (map fst (missing s)) \<Longrightarrow> distinct (map fst (missing (unregister_missing_loop R items s)))"
  by (induction R items s rule: unregister_missing_loop.induct)
     (simp_all add: Let_def distinct_map_entry distinct_delete)

lemma filter_disjoint_id: "set fs \<inter> S = {} \<Longrightarrow> filter (\<lambda>f. f \<notin> S) fs = fs"
  by (induction fs) auto

lemma filter_subset_Nil: "set fs \<subseteq> S \<Longrightarrow> filter (\<lambda>f. f \<notin> S) fs = []"
  by (induction fs) auto

text \<open>
  C5: once \<open>unregister_functions\<close> has removed every callback registered for a path
  \<open>p\<close>, \<open>self.watched\<close> has no entry for \<open>p\<close> and \<open>self.loaded\<close> has none
  either, so the next \<open>load(p)\<close> calls the loader and returns what it returns (or raises
  what it raises); the watcher, and with it the \<open>watch(p)\<close> registration, is left as
  it was.
\<close>

theorem unregister_last_callback:
  assumes "distinct (map fst (watched s))"
    and "map_of (watched s) p = Some fs"
    and "set fs \<subseteq> removed"
  shows "p \<notin> fst ` set (watched (unregister_functions removed s)) \<and>
         loaded (unregister_functions removed s) p = None \<and>
         fst (load e p (unregister_functions removed s)) = raised (loader e p) \<and>
         trace (snd (load e p (unregister_functions removed s))) =
           trace (unregister_functions removed s) @ [LoadCall p] \<and>
         watcher (unregister_functions removed s) = watcher s"
proof -
  let ?s = "unregister_functions removed s"
  have key: "p \<in> fst ` set (watched s)"
    using assms(2) by (metis map_of_eq_None_iff option.distinct(1))
  have "map_of (watched ?s) p = None"
    using assms key
    by (simp add: unregister_functions_def unregister_functions_loop_watched filter_subset_Nil)
  then have a: "p \<notin> fst ` set (watched ?s)"
    by (simp add: map_of_eq_None_iff)
  have b: "loaded ?s p = None"
    using assms key
    by (simp add: unregister_functions_def unregister_functions_loop_loaded functions_of_def
        filter_subset_Nil)
  have c: "fst (load e p ?s) = raised (loader e p)"
    using b by (simp add: load_def raised_def Let_def split: sum.splits)
  have d: "trace (snd (load e p ?s)) = trace ?s @ [LoadCall p]"
    using b by (simp add: load_def Let_def split: sum.splits)
  have f: "watcher ?s = watcher s"
    by (simp add: unregister_functions_def unregister_functions_loop_frame)
  from a b c d f show ?thesis by blast
qed

lemma registered_and_cached_eq:
  "registered_and_cached =
     \<lparr>clock = 0, shutdown_at = None, watcher = \<lparr>watching = {''theme.json''}, changed = {}\<rparr>,
      pl = None, interval = Some 10, watched = [(''theme.json'', [7])], missing = [],
      loaded = [''theme.json'' \<mapsto> 1], trace = [LoadCall ''theme.json'']\<rparr>"
  by (simp add: registered_and_cached_def load_def register_def set_interval_def init_def
      env_const_def d0_def watch_def)

theorem unregister_last_callback_witness:
  "distinct (map fst (watched registered_and_cached)) \<and>
   map_of (watched registered_and_cached) ''theme.json'' = Some [7] \<and>
   set [7] \<subseteq> {7::nat} \<and>
   loaded registered_and_cached ''theme.json'' = Some 1 \<and>
   ''theme.json'' \<notin> fst ` set (watched (unregister_functions {7} registered_and_cached)) \<and>
   loaded (unregister_functions {7} registered_and_cached) ''theme.json'' = None \<and>
   fst (load (env_const 2) ''theme.json'' (unregister_functions {7} registered_and_cached)) = Inr 2 \<and>
   trace (snd (load (env_const 2) ''theme.json'' (unregister_functions {7} registered_and_cached))) =
     [LoadCall ''theme.json'', LoadCall ''theme.json''] \<and>
   ''theme.json'' \<in> watching (watcher (unregister_functions {7} registered_and_cached))"
proof -
  have h1: "distinct (map fst (watched registered_and_cached))"
    by (simp add: registered_and_cached_eq)
  have h2: "map_of (watched registered_and_cached) ''theme.json'' = Some [7]"
    by (simp add: registered_and_cached_eq)
  have h3: "set [7] \<subseteq> {7::nat}" by simp
  have h4: "loaded registered_and_cached ''theme.json'' = Some 1"
    by (simp add: registered_and_cached_eq)
  have t: "trace (unregister_functions {7} registered_and_cached) = [LoadCall ''theme.json'']"
    by (simp add: unregister_functions_def unregister_functions_loop_frame)
       (simp add: registered_and_cached_eq)
  show ?thesis
    using unregister_last_callback [OF h1 h2 h3, of "env_const 2"] h1 h2 h4 t
    by (simp add: raised_def env_const_def registered_and_cached_eq)
qed

lemma two_paths_two_keys_eq:
  "two_paths_two_keys =
     \<lparr>clock = 0, shutdown_at = None,
      watcher = \<lparr>watching = {''b.json'', ''a.json''}, changed = {}\<rparr>,
      pl = None, interval = Some 10,
      watched = [(''a.json'', [1]), (''b.json'', [2])],
      missing = [(''k'', [(3, 4)]), (''m'', [(5, 6)])],
      loaded = [''a.json'' \<mapsto> 1, ''b.json'' \<mapsto> 1],
      trace = [LoadCall ''a.json'', LoadCall ''b.json'']\<rparr>"
  by (simp add: two_paths_two_keys_def load_def register_def register_missing_def
      set_interval_def init_def env_const_def d0_def watch_def)

text \<open>
  C10: \<open>unregister_functions(S)\<close> leaves the callbacks and the cached value of every
  registered path whose callbacks are disjoint from \<open>S\<close> as they were, and does not
  touch \<open>self.missing\<close>; \<open>unregister_missing(T)\<close> leaves the pairs of every key
  whose pairs are disjoint from \<open>T\<close> as they were, and does not touch \<open>self.watched\<close>
  or \<open>self.loaded\<close>.
\<close>

theorem unregister_frame:
  assumes "distinct (map fst (watched s))" and "distinct (map fst (missing s))"
  shows "(map_of (watched s) p = Some fs \<and> fs \<noteq> [] \<and> set fs \<inter> S = {} \<longrightarrow>
            map_of (watched (unregister_functions S s)) p = Some fs \<and>
            loaded (unregister_functions S s) p = loaded s p) \<and>
         missing (unregister_functions S s) = missing s \<and>
         (map_of (missing s) k = Some ps \<and> ps \<noteq> [] \<and> set ps \<inter> T = {} \<longrightarrow>
            map_of (missing (unregister_missing T s)) k = Some ps) \<and>
         watched (unregister_missing T s) = watched s \<and>
         loaded (unregister_missing T s) = loaded s"
proof -
  have a: "map_of (watched (unregister_functions S s)) p = Some fs \<and>
           loaded (unregister_functions S s) p = loaded s p"
    if "map_of (watched s) p = Some fs" "fs \<noteq> []" "set fs \<inter> S = {}"
  proof -
    have key: "p \<in> fst ` set (watched s)"
      using that(1) by (metis map_of_eq_None_iff option.distinct(1))
    have "filter (\<lambda>f. f \<notin> S) fs = fs"
      using that(3) by (rule filter_disjoint_id)
    then show ?thesis
      using assms(1) that key
      by (simp add: unregister_functions_def unregister_functions_loop_watched
          unregister_functions_loop_loaded functions_of_def)
  qed
  have b: "map_of (missing (unregister_missing T s)) k = Some ps"
    if "map_of (missing s) k = Some ps" "ps \<noteq> []" "set ps \<inter> T = {}"
  proof -
    have key: "k \<in> fst ` set (missing s)"
      using that(1) by (metis map_of_eq_None_iff option.distinct(1))
    have "filter (\<lambda>f. f \<notin> T) ps = ps"
      using that(3) by (rule filter_disjoint_id)
    then show ?thesis
      using assms(2) that key
      by (simp add: unregister_missing_def unregister_missing_loop_missing)
  qed
  have c: "missing (unregister_functions S s) = missing s"
    by (simp add: unregister_functions_def unregister_functions_loop_frame)
  have d: "watched (unregister_missing T s) = watched s"
    by (simp add: unregister_missing_def unregister_missing_loop_frame)
  have f: "loaded (unregister_missing T s) = loaded s"
    by (simp add: unregister_missing_def unregister_missing_loop_frame)
  from a b c d f show ?thesis by blast
qed

theorem unregister_frame_witness:
  "distinct (map fst (watched two_paths_two_keys)) \<and>
   distinct (map fst (missing two_paths_two_keys)) \<and>
   map_of (watched two_paths_two_keys) ''b.json'' = Some [2] \<and>
   set [2] \<inter> {1::nat} = {} \<and>
   map_of (missing two_paths_two_keys) ''m'' = Some [(5, 6)] \<and>
   set [(5, 6)] \<inter> {(3::nat, 4::nat)} = {} \<and>
   map_of (watched (unregister_functions {1} two_paths_two_keys)) ''b.json'' = Some [2] \<and>
   loaded (unregister_functions {1} two_paths_two_keys) ''b.json'' = Some 1 \<and>
   missing (unregister_functions {1} two_paths_two_keys) = [(''k'', [(3, 4)]), (''m'', [(5, 6)])] \<and>
   map_of (missing (unregister_missing {(3, 4)} two_paths_two_keys)) ''m'' = Some [(5, 6)] \<and>
   watched (unregister_missing {(3, 4)} two_paths_two_keys) = [(''a.json'', [1]), (''b.json'', [2])]"
proof -
  have h1: "distinct (map fst (watched two_paths_two_keys))"
    by (simp add: two_paths_two_keys_eq)
  have h2: "distinct (map fst (missing two_paths_two_keys))"
    by (simp add: two_paths_two_keys_eq)
  have h3: "map_of (watched two_paths_two_keys) ''b.json'' = Some [2]"
    by (simp add: two_paths_two_keys_eq)
  have h4: "map_of (missing two_paths_two_keys) ''m'' = Some [(5, 6)]"
    by (simp add: two_paths_two_keys_eq)
  have h5: "loaded two_paths_two_keys ''b.json'' = Some 1"
    by (simp add: two_paths_two_keys_eq)
  have h6: "missing two_paths_two_keys = [(''k'', [(3, 4)]), (''m'', [(5, 6)])]"
    by (simp add: two_paths_two_keys_eq)
  have h7: "watched two_paths_two_keys = [(''a.json'', [1]), (''b.json'', [2])]"
    by (simp add: two_paths_two_keys_eq)
  show ?thesis
    using unregister_frame [OF h1 h2, of "''b.json''" "[2]" "{1}" "''m''" "[(5, 6)]" "{(3, 4)}"]
      h1 h2 h3 h4 h5 h6 h7
    by simp
qed

section \<open>Synchronous load without an interval\<close>

text \<open>
  C6 fails on the code: \<open>load\<close> reads \<open>self.loaded[path]\<close> first, whatever the
  interval (line 107); only the store of line 111 asks whether an interval is set, and
  \<open>set_interval(None)\<close> leaves \<open>self.loaded\<close> as it is. After \<open>set_interval(10)\<close>,
  \<open>load('theme.json')\<close> and \<open>set_interval(None)\<close>, a further
  \<open>load('theme.json')\<close> returns the cached 1 although the loader would now return 2,
  and the loader is not called.
\<close>

theorem load_without_interval_reads_cache:
  "interval cached_then_disabled = None \<and>
   loader (env_const 2) ''theme.json'' = Inr 2 \<and>
   fst (load (env_const 2) ''theme.json'' cached_then_disabled) = Inr 1 \<and>
   trace (snd (load (env_const 2) ''theme.json'' cached_then_disabled)) = trace cached_then_disabled"
  by (simp add: cached_then_disabled_def load_def set_interval_def init_def env_const_def d0_def)

section \<open>The phases of a cycle\<close>

subsection \<open>Fields a phase leaves unchanged\<close>

lemma check_unchanged: "p \<notin> changed d \<Longrightarrow> check p d = (False, d)"
  by (simp add: check_def)

lemma run_watched_functions_frame:
  "run_watched_functions e p fs ts s = Inr (ts', s') \<or>
   run_watched_functions e p fs ts s = Inl (x, s') \<Longrightarrow>
   interval s' = interval s \<and> shutdown_at s' = shutdown_at s \<and> clock s' = clock s \<and>
   watched s' = watched s \<and> missing s' = missing s \<and> loaded s' = loaded s \<and> pl s' = pl s"
proof (induction e p fs ts s rule: run_watched_functions.induct)
  case (1 e p toload s)
  then show ?case by auto
next
  case (2 e p f fs toload s)
  then show ?case
    by (auto simp: check_def Let_def split: if_splits option.splits)
qed

lemma run_watched_frame:
  "run_watched e items ts s = Inr (ts', s') \<or> run_watched e items ts s = Inl (x, s') \<Longrightarrow>
   interval s' = interval s \<and> shutdown_at s' = shutdown_at s \<and> clock s' = clock s \<and>
   watched s' = watched s \<and> missing s' = missing s \<and> loaded s' = loaded s \<and> pl s' = pl s"
proof (induction e items ts s rule: run_watched.induct)
  case (1 e toload s)
  then show ?case by auto
next
  case (2 e p fs items toload s)
  show ?case
  proof (cases "run_watched_functions e p fs toload s")
    case (Inl r)
    then show ?thesis
      using 2(2) run_watched_functions_frame [of e p fs toload s _ s' x]
      by (cases r) auto
  next
    case (Inr r)
    obtain ts1 s1 where r: "r = (ts1, s1)" by (cases r)
    have f1: "interval s1 = interval s \<and> shutdown_at s1 = shutdown_at s \<and> clock s1 = clock s \<and>
      watched s1 = watched s \<and> missing s1 = missing s \<and> loaded s1 = loaded s \<and> pl s1 = pl s"
      using run_watched_functions_frame [of e p fs toload s ts1 s1] Inr r by simp
    have "run_watched e items ts1 s1 = Inr (ts', s') \<or> run_watched e items ts1 s1 = Inl (x, s')"
      using 2(2) Inr r by simp
    then show ?thesis
      using 2(1) [OF Inr r [symmetric]] f1 by simp
  qed
qed

lemma exception_frame:
  "exception m as x s = Inr s' \<or> exception m as x s = Inl (y, s') \<Longrightarrow>
   interval s' = interval s \<and> shutdown_at s' = shutdown_at s \<and> clock s' = clock s \<and>
   watched s' = watched s \<and> missing s' = missing s \<and> loaded s' = loaded s \<and>
   watcher s' = watcher s \<and> trace s' = trace s \<and> (pl s' = None \<longleftrightarrow> pl s = None)"
  by (auto simp: exception_def split: option.splits)

lemma run_missing_functions_frame_Inr:
  "run_missing_functions e k ps ts s = Inr (ts', s') \<Longrightarrow>
   interval s' = interval s \<and> shutdown_at s' = shutdown_at s \<and> clock s' = clock s \<and>
   watched s' = watched s \<and> loaded s' = loaded s \<and> watcher s' = watcher s \<and>
   (pl s' = None \<longleftrightarrow> pl s = None)"
proof (induction ps arbitrary: ts s)
  case Nil
  then show ?case by auto
next
  case (Cons a rest)
  obtain c f where a: "a = (c, f)" by (cases a)
  from Cons.prems show ?case
    unfolding a
    by (auto simp: Let_def exception_def split: cond_result.splits option.splits if_splits
        dest!: Cons.IH)
qed

lemma run_missing_functions_frame_Inl:
  "run_missing_functions e k ps ts s = Inl (x, s') \<Longrightarrow>
   interval s' = interval s \<and> shutdown_at s' = shutdown_at s \<and> clock s' = clock s \<and>
   watched s' = watched s \<and> loaded s' = loaded s \<and> watcher s' = watcher s \<and>
   (pl s' = None \<longleftrightarrow> pl s = None)"
proof (induction ps arbitrary: ts s)
  case Nil
  then show ?case by auto
next
  case (Cons a rest)
  obtain c f where a: "a = (c, f)" by (cases a)
  from Cons.prems show ?case
    unfolding a
    by (auto simp: Let_def exception_def split: cond_result.splits option.splits if_splits
        dest!: Cons.IH)
qed

subsection \<open>The pairs of one key (lines 126 to 135)\<close>

lemma run_missing_functions_toload:
  "run_missing_functions e k ps ts s = Inr (ts', s') \<Longrightarrow>
   ts' = ts @ concat (map (pair_paths e k) ps)"
proof (induction ps arbitrary: ts s)
  case Nil
  then show ?case by auto
next
  case (Cons a rest)
  obtain c f where a: "a = (c, f)" by (cases a)
  from Cons.prems show ?case
    unfolding a
    by (auto simp: Let_def exception_def split: cond_result.splits option.splits if_splits
        dest!: Cons.IH)
qed

lemma run_missing_functions_trace:
  "run_missing_functions e k ps ts s = Inr (ts', s') \<Longrightarrow>
   trace s' = trace s @ concat (map (pair_events e k) ps)"
proof (induction ps arbitrary: ts s)
  case Nil
  then show ?case by auto
next
  case (Cons a rest)
  obtain c f where a: "a = (c, f)" by (cases a)
  from Cons.prems show ?case
    unfolding a
    by (auto simp: Let_def exception_def split: cond_result.splits option.splits if_splits
        dest!: Cons.IH)
qed

lemma run_missing_functions_pl:
  "run_missing_functions e k ps ts s = Inr (ts', s') \<Longrightarrow>
   pl s' = map_option (\<lambda>l. l @ concat (map (pair_errors e k) ps)) (pl s)"
proof (induction ps arbitrary: ts s)
  case Nil
  then show ?case by (auto simp: option.map_ident)
next
  case (Cons a rest)
  obtain c f where a: "a = (c, f)" by (cases a)
  from Cons.prems show ?case
    unfolding a
    by (auto simp: Let_def exception_def split: cond_result.splits option.splits if_splits
        dest!: Cons.IH)
qed

lemma run_missing_functions_keys_Inr:
  "run_missing_functions e k ps ts s = Inr (ts', s') \<Longrightarrow>
   map fst (missing s') = map fst (missing s)"
proof (induction ps arbitrary: ts s)
  case Nil
  then show ?case by auto
next
  case (Cons a rest)
  obtain c f where a: "a = (c, f)" by (cases a)
  have me: "map fst (AList.map_entry k g al) = map fst al" for g and al :: "(key \<times> (fn \<times> fn) list) list"
    by (induction al) auto
  from Cons.prems show ?case
    unfolding a
    by (auto simp: Let_def exception_def me split: cond_result.splits option.splits if_splits
        dest!: Cons.IH)
qed

lemma run_missing_functions_keys_Inl:
  "run_missing_functions e k ps ts s = Inl (x, s') \<Longrightarrow>
   map fst (missing s') = map fst (missing s)"
proof (induction ps arbitrary: ts s)
  case Nil
  then show ?case by auto
next
  case (Cons a rest)
  obtain c f where a: "a = (c, f)" by (cases a)
  have me: "map fst (AList.map_entry k g al) = map fst al" for g and al :: "(key \<times> (fn \<times> fn) list) list"
    by (induction al) auto
  from Cons.prems show ?case
    unfolding a
    by (auto simp: Let_def exception_def me split: cond_result.splits option.splits if_splits
        dest!: Cons.IH)
qed

lemma run_missing_functions_other:
  "run_missing_functions e k ps ts s = Inr (ts', s') \<or>
   run_missing_functions e k ps ts s = Inl (x, s') \<Longrightarrow> k' \<noteq> k \<Longrightarrow>
   map_of (missing s') k' = map_of (missing s) k'"
proof (induction ps arbitrary: ts s)
  case Nil
  then show ?case by auto
next
  case (Cons a rest)
  obtain c f where a: "a = (c, f)" by (cases a)
  from Cons.prems show ?case
    unfolding a
    by (auto simp: Let_def exception_def map_of_map_entry
        split: cond_result.splits option.splits if_splits dest!: Cons.IH)
qed

lemma run_missing_functions_entry:
  "run_missing_functions e k ps ts s = Inr (ts', s') \<Longrightarrow>
   map_of (missing s') k =
     map_option (filter (\<lambda>pr. pr \<notin> set ps \<or> \<not> resolves e k pr)) (map_of (missing s) k)"
proof (induction ps arbitrary: ts s)
  case Nil
  then show ?case by (auto simp: option.map_ident)
next
  case (Cons a rest)
  obtain c f where a: "a = (c, f)" by (cases a)
  have keep: "\<not> resolves e k (c, f) \<Longrightarrow>
      filter (\<lambda>pr. pr \<notin> set ((c, f) # rest) \<or> \<not> resolves e k pr) xs =
      filter (\<lambda>pr. pr \<notin> set rest \<or> \<not> resolves e k pr) xs" for xs
    by (rule filter_cong) auto
  have drop: "resolves e k (c, f) \<Longrightarrow>
      filter (\<lambda>pr. pr \<notin> set ((c, f) # rest) \<or> \<not> resolves e k pr) xs =
      filter (\<lambda>pr. pr \<notin> set rest \<or> \<not> resolves e k pr) (removeAll (c, f) xs)" for xs
    by (induction xs) auto
  show ?case
  proof (cases "resolves e k (c, f)")
    case True
    then obtain p where p: "cond e c k = CondReturns (Some p)" "p \<noteq> []"
      by (auto split: cond_result.splits option.splits)
    from Cons.prems show ?thesis
      unfolding a using p drop [OF True]
      by (auto simp: Let_def map_of_map_entry option.map_comp comp_def
          split: option.splits dest!: Cons.IH)
  next
    case False
    from Cons.prems show ?thesis
      unfolding a using False keep [OF False]
      by (auto simp: Let_def exception_def
          split: cond_result.splits option.splits if_splits dest!: Cons.IH)
  qed
qed

lemma run_missing_functions_returns:
  "pl s \<noteq> None \<Longrightarrow> \<forall>pr \<in> set ps. pair_returns e k pr \<Longrightarrow>
   \<exists>ts' s'. run_missing_functions e k ps ts s = Inr (ts', s')"
proof (induction ps arbitrary: ts s)
  case Nil
  then show ?case by auto
next
  case (Cons a rest)
  obtain c f where a: "a = (c, f)" by (cases a)
  from Cons.prems show ?case
    unfolding a
    by (auto simp: Let_def exception_def split: cond_result.splits option.splits if_splits
        intro!: Cons.IH)
qed

subsection \<open>The keys of \<open>self.missing\<close> (lines 124 to 137)\<close>

lemma run_missing_Cons_Inr:
  "run_missing e ((k, x) # items) ts s = Inr (ts', s') \<longleftrightarrow>
   (\<exists>ts1 s1. run_missing_functions e k (functions_of (missing s) k) ts s = Inr (ts1, s1) \<and>
      run_missing e items ts1 (pop_if_empty k s1) = Inr (ts', s'))"
  by (auto simp: pop_if_empty_def split: sum.splits)

lemma run_missing_Cons_Inl:
  "run_missing e ((k, x) # items) ts s = Inl (y, s') \<longleftrightarrow>
   run_missing_functions e k (functions_of (missing s) k) ts s = Inl (y, s') \<or>
   (\<exists>ts1 s1. run_missing_functions e k (functions_of (missing s) k) ts s = Inr (ts1, s1) \<and>
      run_missing e items ts1 (pop_if_empty k s1) = Inl (y, s'))"
  by (auto simp: pop_if_empty_def split: sum.splits)

lemma filter_notin_or: "filter (\<lambda>x. x \<notin> set xs \<or> P x) xs = filter P xs"
  by (rule filter_cong) auto

lemma filter_in_imp: "filter (\<lambda>x. x \<in> set xs \<longrightarrow> P x) xs = filter P xs"
  by (rule filter_cong) auto

lemma pop_if_empty_fields:
  "interval (pop_if_empty k s) = interval s \<and> shutdown_at (pop_if_empty k s) = shutdown_at s \<and>
   clock (pop_if_empty k s) = clock s \<and> watched (pop_if_empty k s) = watched s \<and>
   loaded (pop_if_empty k s) = loaded s \<and> watcher (pop_if_empty k s) = watcher s \<and>
   pl (pop_if_empty k s) = pl s \<and> trace (pop_if_empty k s) = trace s"
  by (simp add: pop_if_empty_def)

lemma pop_if_empty_map_of:
  "map_of (missing (pop_if_empty k s)) k' =
     (if k' = k \<and> map_of (missing s) k = Some [] then None else map_of (missing s) k')"
  by (auto simp: pop_if_empty_def functions_of_def delete_conv' split: option.splits)

lemma key_step_map_of:
  assumes "run_missing_functions e k (functions_of (missing s) k) ts s = Inr (ts1, s1)"
  shows "map_of (missing (pop_if_empty k s1)) k' =
     (if k' = k
      then (case map_of (missing s) k of
              None \<Rightarrow> None
            | Some ps \<Rightarrow> if remaining e k ps = [] then None else Some (remaining e k ps))
      else map_of (missing s) k')"
proof (cases "k' = k")
  case True
  show ?thesis
    using run_missing_functions_entry [OF assms] True
    by (auto simp: pop_if_empty_map_of functions_of_def remaining_def filter_notin_or
        filter_in_imp split: option.splits)
next
  case False
  then show ?thesis
    using run_missing_functions_other [OF disjI1 [OF assms], of k']
    by (simp add: pop_if_empty_map_of)
qed

lemma key_step_functions_of:
  assumes "run_missing_functions e k (functions_of (missing s) k) ts s = Inr (ts1, s1)"
    and "k' \<noteq> k"
  shows "functions_of (missing (pop_if_empty k s1)) k' = functions_of (missing s) k'"
  using key_step_map_of [OF assms(1), of k'] assms(2) by (simp add: functions_of_def)

lemma run_missing_map_of:
  "run_missing e items ts s = Inr (ts', s') \<Longrightarrow> distinct (map fst items) \<Longrightarrow>
   map_of (missing s') k =
     (if k \<in> fst ` set items
      then (case map_of (missing s) k of
              None \<Rightarrow> None
            | Some ps \<Rightarrow> if remaining e k ps = [] then None else Some (remaining e k ps))
      else map_of (missing s) k)"
proof (induction items arbitrary: ts s)
  case Nil
  then show ?case by simp
next
  case (Cons a items)
  obtain k0 x where a: "a = (k0, x)" by (cases a)
  from Cons.prems(1) obtain ts1 s1 where
    step: "run_missing_functions e k0 (functions_of (missing s) k0) ts s = Inr (ts1, s1)"
    and rest: "run_missing e items ts1 (pop_if_empty k0 s1) = Inr (ts', s')"
    unfolding a run_missing_Cons_Inr by blast
  have d: "distinct (map fst items)" and n: "k0 \<notin> fst ` set items"
    using Cons.prems(2) by (auto simp: a)
  show ?case
    using Cons.IH [OF rest d] n key_step_map_of [OF step]
    by (auto simp: a)
qed

lemma run_missing_trace:
  "run_missing e items ts s = Inr (ts', s') \<Longrightarrow> distinct (map fst items) \<Longrightarrow>
   trace s' = trace s @ concat (map (key_events e s) (map fst items))"
proof (induction items arbitrary: ts s)
  case Nil
  then show ?case by simp
next
  case (Cons a items)
  obtain k0 x where a: "a = (k0, x)" by (cases a)
  from Cons.prems(1) obtain ts1 s1 where
    step: "run_missing_functions e k0 (functions_of (missing s) k0) ts s = Inr (ts1, s1)"
    and rest: "run_missing e items ts1 (pop_if_empty k0 s1) = Inr (ts', s')"
    unfolding a run_missing_Cons_Inr by blast
  have d: "distinct (map fst items)" and n: "k0 \<notin> fst ` set items"
    using Cons.prems(2) by (auto simp: a)
  have fo: "functions_of (missing (pop_if_empty k0 s1)) k = functions_of (missing s) k"
    if "k \<in> fst ` set items" for k
    using that n key_step_functions_of [OF step, of k] by auto
  have same: "map (key_events e (pop_if_empty k0 s1)) (map fst items) =
              map (key_events e s) (map fst items)"
    by (rule map_cong [OF refl]) (simp add: key_events_def fo)
  have h: "trace s1 = trace s @ key_events e s k0"
    using run_missing_functions_trace [OF step] by (simp add: key_events_def)
  have ih: "trace s' = trace (pop_if_empty k0 s1) @ concat (map (key_events e s) (map fst items))"
    using Cons.IH [OF rest d] by (simp only: same)
  show ?case
    using ih h by (simp add: a pop_if_empty_fields)
qed

lemma run_missing_pl:
  "run_missing e items ts s = Inr (ts', s') \<Longrightarrow> distinct (map fst items) \<Longrightarrow>
   pl s' = map_option (\<lambda>l. l @ concat (map (key_errors e s) (map fst items))) (pl s)"
proof (induction items arbitrary: ts s)
  case Nil
  then show ?case by (simp add: option.map_ident)
next
  case (Cons a items)
  obtain k0 x where a: "a = (k0, x)" by (cases a)
  from Cons.prems(1) obtain ts1 s1 where
    step: "run_missing_functions e k0 (functions_of (missing s) k0) ts s = Inr (ts1, s1)"
    and rest: "run_missing e items ts1 (pop_if_empty k0 s1) = Inr (ts', s')"
    unfolding a run_missing_Cons_Inr by blast
  have d: "distinct (map fst items)" and n: "k0 \<notin> fst ` set items"
    using Cons.prems(2) by (auto simp: a)
  have fo: "functions_of (missing (pop_if_empty k0 s1)) k = functions_of (missing s) k"
    if "k \<in> fst ` set items" for k
    using that n key_step_functions_of [OF step, of k] by auto
  have same: "map (key_errors e (pop_if_empty k0 s1)) (map fst items) =
              map (key_errors e s) (map fst items)"
    by (rule map_cong [OF refl]) (simp add: key_errors_def fo)
  have h: "pl s1 = map_option (\<lambda>l. l @ key_errors e s k0) (pl s)"
    using run_missing_functions_pl [OF step] by (simp add: key_errors_def)
  have ih: "pl s' = map_option (\<lambda>l. l @ concat (map (key_errors e s) (map fst items)))
                      (pl (pop_if_empty k0 s1))"
    using Cons.IH [OF rest d] by (simp only: same)
  show ?case
    using ih h by (simp add: a pop_if_empty_fields option.map_comp comp_def)
qed

lemma run_missing_toload:
  "run_missing e items ts s = Inr (ts', s') \<Longrightarrow> distinct (map fst items) \<Longrightarrow>
   ts' = ts @ concat (map (key_paths e s) (map fst items))"
proof (induction items arbitrary: ts s)
  case Nil
  then show ?case by simp
next
  case (Cons a items)
  obtain k0 x where a: "a = (k0, x)" by (cases a)
  from Cons.prems(1) obtain ts1 s1 where
    step: "run_missing_functions e k0 (functions_of (missing s) k0) ts s = Inr (ts1, s1)"
    and rest: "run_missing e items ts1 (pop_if_empty k0 s1) = Inr (ts', s')"
    unfolding a run_missing_Cons_Inr by blast
  have d: "distinct (map fst items)" and n: "k0 \<notin> fst ` set items"
    using Cons.prems(2) by (auto simp: a)
  have fo: "functions_of (missing (pop_if_empty k0 s1)) k = functions_of (missing s) k"
    if "k \<in> fst ` set items" for k
    using that n key_step_functions_of [OF step, of k] by auto
  have same: "map (key_paths e (pop_if_empty k0 s1)) (map fst items) =
              map (key_paths e s) (map fst items)"
    by (rule map_cong [OF refl]) (simp add: key_paths_def fo)
  have h: "ts1 = ts @ key_paths e s k0"
    using run_missing_functions_toload [OF step] by (simp add: key_paths_def)
  have ih: "ts' = ts1 @ concat (map (key_paths e s) (map fst items))"
    using Cons.IH [OF rest d] by (simp only: same)
  show ?case
    using ih h by (simp add: a)
qed

lemma run_missing_returns:
  "pl s \<noteq> None \<Longrightarrow> distinct (map fst items) \<Longrightarrow>
   \<forall>k \<in> fst ` set items. \<forall>pr \<in> set (functions_of (missing s) k). pair_returns e k pr \<Longrightarrow>
   \<exists>ts' s'. run_missing e items ts s = Inr (ts', s')"
proof (induction items arbitrary: ts s)
  case Nil
  then show ?case by simp
next
  case (Cons a items)
  obtain k0 x where a: "a = (k0, x)" by (cases a)
  have "\<forall>pr \<in> set (functions_of (missing s) k0). pair_returns e k0 pr"
    using Cons.prems(3) by (simp add: a)
  from run_missing_functions_returns [OF Cons.prems(1) this]
  obtain ts1 s1 where
    step: "run_missing_functions e k0 (functions_of (missing s) k0) ts s = Inr (ts1, s1)"
    by blast
  have d: "distinct (map fst items)" and n: "k0 \<notin> fst ` set items"
    using Cons.prems(2) by (auto simp: a)
  have p: "pl (pop_if_empty k0 s1) \<noteq> None"
    using run_missing_functions_frame_Inr [OF step] Cons.prems(1)
    by (simp add: pop_if_empty_fields)
  have fo: "functions_of (missing (pop_if_empty k0 s1)) k = functions_of (missing s) k"
    if "k \<in> fst ` set items" for k
    using that n key_step_functions_of [OF step, of k] by auto
  have r: "\<forall>k \<in> fst ` set items.
             \<forall>pr \<in> set (functions_of (missing (pop_if_empty k0 s1)) k). pair_returns e k pr"
    using Cons.prems(3) by (simp add: a fo)
  from Cons.IH [OF p d r] obtain ts' s' where
    "run_missing e items ts1 (pop_if_empty k0 s1) = Inr (ts', s')" by blast
  with step show ?case
    unfolding a run_missing_Cons_Inr by blast
qed

subsection \<open>Exceptional exits and what is kept in \<open>self.missing\<close>\<close>

lemma functions_of_map_entry:
  "functions_of (AList.map_entry k g al) k' =
     (if k' = k then (case map_of al k of None \<Rightarrow> [] | Some v \<Rightarrow> g v) else functions_of al k')"
  by (simp add: functions_of_def map_of_map_entry split: option.splits)

lemma map_fst_map_entry: "map fst (AList.map_entry k g al) = map fst al"
  by (induction al) auto

lemma run_missing_functions_Inl_nonempty:
  "run_missing_functions e k ps ts s = Inl (x, s') \<Longrightarrow> distinct ps \<Longrightarrow>
   set ps \<subseteq> set (functions_of (missing s) k) \<Longrightarrow> functions_of (missing s') k \<noteq> []"
proof (induction ps arbitrary: ts s)
  case Nil
  then show ?case by simp
next
  case (Cons a rest)
  obtain c f where a: "a = (c, f)" by (cases a)
  let ?s1 = "s\<lparr>trace := trace s @ [CondCall c k]\<rparr>"
  have mem: "(c, f) \<in> set (functions_of (missing s) k)"
    using Cons.prems(3) by (simp add: a)
  have sub: "set rest \<subseteq> set (functions_of (missing s) k)"
    using Cons.prems(3) by simp
  have d: "distinct rest" and n: "(c, f) \<notin> set rest"
    using Cons.prems(2) by (simp_all add: a)
  show ?case
  proof (cases "cond e c k")
    case (CondRaises m)
    show ?thesis
    proof (cases "pl s")
      case None
      then have "s' = ?s1"
        using Cons.prems(1) CondRaises by (simp add: a exception_def)
      then show ?thesis using mem by auto
    next
      case (Some l)
      let ?s2 = "?s1\<lparr>pl := Some (l @ [\<lparr>entry_prefix = ''config_loader'',
        entry_msg = ''Error while running condition function for key {0}: {1}'',
        entry_args = [k, m]\<rparr>])\<rparr>"
      have "run_missing_functions e k rest ts ?s2 = Inl (x, s')"
        using Cons.prems(1) CondRaises Some by (simp add: a exception_def)
      from Cons.IH [OF this d] sub show ?thesis by simp
    qed
  next
    case (CondReturns v)
    show ?thesis
    proof (cases "v = None \<or> v = Some []")
      case True
      then have "run_missing_functions e k rest ts ?s1 = Inl (x, s')"
        using Cons.prems(1) CondReturns by (auto simp: a)
      from Cons.IH [OF this d] sub show ?thesis by simp
    next
      case False
      then obtain p where p: "v = Some p" "p \<noteq> []" by auto
      let ?s2 = "?s1\<lparr>trace := trace ?s1 @ [Found k c f p]\<rparr>"
      show ?thesis
      proof (cases "callback e f p")
        case None
        let ?s3 = "?s2\<lparr>missing := AList.map_entry k (removeAll (c, f)) (missing ?s2)\<rparr>"
        have r: "run_missing_functions e k rest (ts @ [p]) ?s3 = Inl (x, s')"
          using Cons.prems(1) CondReturns p None by (simp add: a)
        have "functions_of (missing ?s3) k = removeAll (c, f) (functions_of (missing s) k)"
          by (simp add: functions_of_def map_of_map_entry split: option.splits)
        then have "set rest \<subseteq> set (functions_of (missing ?s3) k)"
          using sub n by auto
        from Cons.IH [OF r d this] show ?thesis .
      next
        case (Some m)
        then have "s' = ?s2"
          using Cons.prems(1) CondReturns p by (simp add: a)
        then show ?thesis using mem by auto
      qed
    qed
  qed
qed

lemma run_missing_frame_Inr:
  "run_missing e items ts s = Inr (ts', s') \<Longrightarrow>
   interval s' = interval s \<and> shutdown_at s' = shutdown_at s \<and> clock s' = clock s \<and>
   watched s' = watched s \<and> loaded s' = loaded s \<and> watcher s' = watcher s \<and>
   (pl s' = None \<longleftrightarrow> pl s = None)"
proof (induction items arbitrary: ts s)
  case Nil
  then show ?case by simp
next
  case (Cons a items)
  obtain k0 x where a: "a = (k0, x)" by (cases a)
  from Cons.prems(1) obtain ts1 s1 where
    step: "run_missing_functions e k0 (functions_of (missing s) k0) ts s = Inr (ts1, s1)"
    and rest: "run_missing e items ts1 (pop_if_empty k0 s1) = Inr (ts', s')"
    unfolding a run_missing_Cons_Inr by blast
  show ?case
    using Cons.IH [OF rest] run_missing_functions_frame_Inr [OF step]
    by (simp add: pop_if_empty_fields)
qed

lemma run_missing_frame_Inl:
  "run_missing e items ts s = Inl (y, s') \<Longrightarrow>
   interval s' = interval s \<and> shutdown_at s' = shutdown_at s \<and> clock s' = clock s \<and>
   watched s' = watched s \<and> loaded s' = loaded s \<and> watcher s' = watcher s \<and>
   (pl s' = None \<longleftrightarrow> pl s = None)"
proof (induction items arbitrary: ts s)
  case Nil
  then show ?case by simp
next
  case (Cons a items)
  obtain k0 x where a: "a = (k0, x)" by (cases a)
  from Cons.prems(1) consider
    (here) "run_missing_functions e k0 (functions_of (missing s) k0) ts s = Inl (y, s')"
  | (later) ts1 s1 where
      "run_missing_functions e k0 (functions_of (missing s) k0) ts s = Inr (ts1, s1)"
      "run_missing e items ts1 (pop_if_empty k0 s1) = Inl (y, s')"
    unfolding a run_missing_Cons_Inl by blast
  then show ?case
  proof cases
    case here
    then show ?thesis by (rule run_missing_functions_frame_Inl)
  next
    case later
    show ?thesis
      using Cons.IH [OF later(2)] run_missing_functions_frame_Inr [OF later(1)]
      by (simp add: pop_if_empty_fields)
  qed
qed

lemma key_step_pairs_distinct:
  assumes "run_missing_functions e k (functions_of (missing s) k) ts s = Inr (ts1, s1)"
    and "pairs_distinct (missing s)"
  shows "pairs_distinct (missing (pop_if_empty k s1))"
  unfolding pairs_distinct_def
proof (intro allI impI)
  fix k' ps
  assume "map_of (missing (pop_if_empty k s1)) k' = Some ps"
  then show "distinct ps"
    using assms(2) unfolding key_step_map_of [OF assms(1)] pairs_distinct_def
    by (auto simp: remaining_def split: if_splits option.splits)
qed

lemma key_step_pairs_nonempty:
  assumes "run_missing_functions e k (functions_of (missing s) k) ts s = Inr (ts1, s1)"
    and "pairs_nonempty (missing s)"
  shows "pairs_nonempty (missing (pop_if_empty k s1))"
  unfolding pairs_nonempty_def
proof (intro allI impI)
  fix k' ps
  assume "map_of (missing (pop_if_empty k s1)) k' = Some ps"
  then show "ps \<noteq> []"
    using assms(2) unfolding key_step_map_of [OF assms(1)] pairs_nonempty_def
    by (auto simp: remaining_def split: if_splits option.splits)
qed

lemma run_missing_pairs_distinct_Inr:
  "run_missing e items ts s = Inr (ts', s') \<Longrightarrow> pairs_distinct (missing s) \<Longrightarrow>
   pairs_distinct (missing s')"
proof (induction items arbitrary: ts s)
  case Nil
  then show ?case by simp
next
  case (Cons a items)
  obtain k0 x where a: "a = (k0, x)" by (cases a)
  from Cons.prems(1) obtain ts1 s1 where
    step: "run_missing_functions e k0 (functions_of (missing s) k0) ts s = Inr (ts1, s1)"
    and rest: "run_missing e items ts1 (pop_if_empty k0 s1) = Inr (ts', s')"
    unfolding a run_missing_Cons_Inr by blast
  show ?case
    using Cons.IH [OF rest key_step_pairs_distinct [OF step Cons.prems(2)]] .
qed

lemma run_missing_pairs_nonempty_Inr:
  "run_missing e items ts s = Inr (ts', s') \<Longrightarrow> pairs_nonempty (missing s) \<Longrightarrow>
   pairs_nonempty (missing s')"
proof (induction items arbitrary: ts s)
  case Nil
  then show ?case by simp
next
  case (Cons a items)
  obtain k0 x where a: "a = (k0, x)" by (cases a)
  from Cons.prems(1) obtain ts1 s1 where
    step: "run_missing_functions e k0 (functions_of (missing s) k0) ts s = Inr (ts1, s1)"
    and rest: "run_missing e items ts1 (pop_if_empty k0 s1) = Inr (ts', s')"
    unfolding a run_missing_Cons_Inr by blast
  show ?case
    using Cons.IH [OF rest key_step_pairs_nonempty [OF step Cons.prems(2)]] .
qed

lemma functions_of_distinct: "pairs_distinct al \<Longrightarrow> distinct (functions_of al k)"
  by (auto simp: pairs_distinct_def functions_of_def split: option.splits)

lemma run_missing_pairs_nonempty_Inl:
  "run_missing e items ts s = Inl (y, s') \<Longrightarrow> pairs_distinct (missing s) \<Longrightarrow>
   pairs_nonempty (missing s) \<Longrightarrow> pairs_nonempty (missing s')"
proof (induction items arbitrary: ts s)
  case Nil
  then show ?case by simp
next
  case (Cons a items)
  obtain k0 x where a: "a = (k0, x)" by (cases a)
  from Cons.prems(1) consider
    (here) "run_missing_functions e k0 (functions_of (missing s) k0) ts s = Inl (y, s')"
  | (later) ts1 s1 where
      "run_missing_functions e k0 (functions_of (missing s) k0) ts s = Inr (ts1, s1)"
      "run_missing e items ts1 (pop_if_empty k0 s1) = Inl (y, s')"
    unfolding a run_missing_Cons_Inl by blast
  then show ?case
  proof cases
    case here
    have ne: "functions_of (missing s') k0 \<noteq> []"
      using run_missing_functions_Inl_nonempty [OF here functions_of_distinct [OF Cons.prems(2)]]
      by simp
    show ?thesis
      unfolding pairs_nonempty_def
    proof (intro allI impI)
      fix k ps
      assume m: "map_of (missing s') k = Some ps"
      show "ps \<noteq> []"
      proof (cases "k = k0")
        case True
        then show ?thesis using ne m by (simp add: functions_of_def)
      next
        case False
        have "map_of (missing s') k = map_of (missing s) k"
          using run_missing_functions_other [OF disjI2 [OF here] False] .
        then show ?thesis using Cons.prems(3) m by (simp add: pairs_nonempty_def)
      qed
    qed
  next
    case later
    show ?thesis
      using Cons.IH [OF later(2) key_step_pairs_distinct [OF later(1) Cons.prems(2)]
          key_step_pairs_nonempty [OF later(1) Cons.prems(3)]] .
  qed
qed

lemma pop_if_empty_keys:
  "distinct (map fst (missing s)) \<Longrightarrow> distinct (map fst (missing (pop_if_empty k s)))"
  by (simp add: pop_if_empty_def distinct_delete)

lemma run_missing_distinct_Inr:
  "run_missing e items ts s = Inr (ts', s') \<Longrightarrow> distinct (map fst (missing s)) \<Longrightarrow>
   distinct (map fst (missing s'))"
proof (induction items arbitrary: ts s)
  case Nil
  then show ?case by simp
next
  case (Cons a items)
  obtain k0 x where a: "a = (k0, x)" by (cases a)
  from Cons.prems(1) obtain ts1 s1 where
    step: "run_missing_functions e k0 (functions_of (missing s) k0) ts s = Inr (ts1, s1)"
    and rest: "run_missing e items ts1 (pop_if_empty k0 s1) = Inr (ts', s')"
    unfolding a run_missing_Cons_Inr by blast
  have "distinct (map fst (missing s1))"
    using run_missing_functions_keys_Inr [OF step] Cons.prems(2) by simp
  from Cons.IH [OF rest pop_if_empty_keys [OF this]] show ?case .
qed

lemma run_missing_distinct_Inl:
  "run_missing e items ts s = Inl (y, s') \<Longrightarrow> distinct (map fst (missing s)) \<Longrightarrow>
   distinct (map fst (missing s'))"
proof (induction items arbitrary: ts s)
  case Nil
  then show ?case by simp
next
  case (Cons a items)
  obtain k0 x where a: "a = (k0, x)" by (cases a)
  from Cons.prems(1) consider
    (here) "run_missing_functions e k0 (functions_of (missing s) k0) ts s = Inl (y, s')"
  | (later) ts1 s1 where
      "run_missing_functions e k0 (functions_of (missing s) k0) ts s = Inr (ts1, s1)"
      "run_missing e items ts1 (pop_if_empty k0 s1) = Inl (y, s')"
    unfolding a run_missing_Cons_Inl by blast
  then show ?case
  proof cases
    case here
    then show ?thesis
      using run_missing_functions_keys_Inl [OF here] Cons.prems(2) by simp
  next
    case later
    have "distinct (map fst (missing s1))"
      using run_missing_functions_keys_Inr [OF later(1)] Cons.prems(2) by simp
    from Cons.IH [OF later(2) pop_if_empty_keys [OF this]] show ?thesis .
  qed
qed

subsection \<open>Change detection (lines 118 to 122)\<close>

lemma run_watched_functions_unchanged:
  "p \<notin> changed (watcher s) \<Longrightarrow> run_watched_functions e p fs ts s = Inr (ts, s)"
  by (induction fs) (simp_all add: check_unchanged)

lemma run_watched_functions_changed:
  "p \<in> changed (watcher s) \<Longrightarrow> callback e f p = None \<Longrightarrow>
   run_watched_functions e p (f # fs) ts s =
     Inr (ts @ [p], s\<lparr>watcher := (watcher s)\<lparr>changed := changed (watcher s) - {p}\<rparr>,
                      trace := trace s @ [Notify f p]\<rparr>)"
  by (simp add: check_def run_watched_functions_unchanged)

lemma run_watched_functions_raises:
  "p \<in> changed (watcher s) \<Longrightarrow> callback e f p = Some m \<Longrightarrow>
   run_watched_functions e p (f # fs) ts s =
     Inl (Exn m, s\<lparr>watcher := (watcher s)\<lparr>changed := changed (watcher s) - {p}\<rparr>,
                    trace := trace s @ [Notify f p]\<rparr>)"
  by (simp add: check_def)

lemma run_watched_functions_cases:
  obtains (unchanged) "run_watched_functions e p fs ts s = Inr (ts, s)"
  | (notified) f rest where "fs = f # rest"
      "run_watched_functions e p fs ts s =
         Inr (ts @ [p], s\<lparr>watcher := (watcher s)\<lparr>changed := changed (watcher s) - {p}\<rparr>,
                          trace := trace s @ [Notify f p]\<rparr>)"
      "p \<in> changed (watcher s)"
  | (raised) f rest m where "fs = f # rest"
      "run_watched_functions e p fs ts s =
         Inl (Exn m, s\<lparr>watcher := (watcher s)\<lparr>changed := changed (watcher s) - {p}\<rparr>,
                        trace := trace s @ [Notify f p]\<rparr>)"
proof (cases "p \<in> changed (watcher s)")
  case False
  then show ?thesis using unchanged by (simp add: run_watched_functions_unchanged)
next
  case True
  show ?thesis
  proof (cases fs)
    case Nil
    then show ?thesis using unchanged by simp
  next
    case (Cons f rest)
    show ?thesis
    proof (cases "callback e f p")
      case None
      show ?thesis
        using notified [OF Cons _ True] run_watched_functions_changed [OF True None]
        unfolding Cons by blast
    next
      case (Some m)
      show ?thesis
        using raised [OF Cons] run_watched_functions_raises [OF True Some]
        unfolding Cons by blast
    qed
  qed
qed

lemma run_watched_functions_trace:
  assumes "run_watched_functions e p fs ts s = Inr (ts', s') \<or>
           run_watched_functions e p fs ts s = Inl (x, s')"
  shows "\<exists>evs. trace s' = trace s @ evs \<and> (\<forall>ev \<in> set evs. is_notify ev)"
proof (cases rule: run_watched_functions_cases [of e p fs ts s])
  case unchanged
  with assms have "s' = s" by simp
  then show ?thesis by simp
next
  case (notified f rest)
  with assms have "trace s' = trace s @ [Notify f p]" by auto
  then show ?thesis by simp
next
  case (raised f rest m)
  with assms have "trace s' = trace s @ [Notify f p]" by auto
  then show ?thesis by simp
qed

lemma run_watched_trace:
  "run_watched e items ts s = Inr (ts', s') \<or> run_watched e items ts s = Inl (x, s') \<Longrightarrow>
   \<exists>evs. trace s' = trace s @ evs \<and> (\<forall>ev \<in> set evs. is_notify ev)"
proof (induction items arbitrary: ts s)
  case Nil
  then show ?case by auto
next
  case (Cons a items)
  obtain p fs where a: "a = (p, fs)" by (cases a)
  show ?case
  proof (cases "run_watched_functions e p fs ts s")
    case (Inl r)
    then have "run_watched_functions e p fs ts s = Inl (x, s')"
      using Cons.prems by (simp add: a)
    then show ?thesis
      using run_watched_functions_trace by blast
  next
    case (Inr r)
    obtain ts1 s1 where r: "r = (ts1, s1)" by (cases r)
    obtain evs1 where e1: "trace s1 = trace s @ evs1" "\<forall>ev \<in> set evs1. is_notify ev"
      using run_watched_functions_trace [of e p fs ts s ts1 s1] Inr r by blast
    have "run_watched e items ts1 s1 = Inr (ts', s') \<or> run_watched e items ts1 s1 = Inl (x, s')"
      using Cons.prems Inr r by (simp add: a)
    from Cons.IH [OF this] obtain evs2 where
      e2: "trace s' = trace s1 @ evs2" "\<forall>ev \<in> set evs2. is_notify ev" by blast
    have "trace s' = trace s @ (evs1 @ evs2) \<and> (\<forall>ev \<in> set (evs1 @ evs2). is_notify ev)"
      using e1 e2 by auto
    then show ?thesis by blast
  qed
qed

lemma run_watched_functions_records:
  assumes "run_watched_functions e p fs ts s = Inr (ts', s')"
  shows "set ts \<subseteq> set ts' \<and> (p \<in> changed (watcher s) \<and> fs \<noteq> [] \<longrightarrow> p \<in> set ts') \<and>
         (\<forall>q. q \<noteq> p \<longrightarrow> (q \<in> changed (watcher s') \<longleftrightarrow> q \<in> changed (watcher s))) \<and>
         (fs = [] \<longrightarrow> s' = s)"
proof (cases "p \<in> changed (watcher s)")
  case False
  then show ?thesis using assms by (simp add: run_watched_functions_unchanged)
next
  case True
  show ?thesis
  proof (cases rule: run_watched_functions_cases [of e p fs ts s])
    case unchanged
    with assms have "ts' = ts" "s' = s" by simp_all
    moreover have "fs = []"
    proof (cases fs)
      case Nil
      then show ?thesis .
    next
      case (Cons f rest)
      show ?thesis
      proof (cases "callback e f p")
        case None
        from run_watched_functions_changed [OF True None, of rest ts] unchanged
        have "ts @ [p] = ts" unfolding Cons by simp
        then show ?thesis by simp
      next
        case (Some m)
        from run_watched_functions_raises [OF True Some, of rest ts] unchanged
        show ?thesis unfolding Cons by simp
      qed
    qed
    ultimately show ?thesis by simp
  next
    case (notified f rest)
    with assms have "ts' = ts @ [p]"
      "s' = s\<lparr>watcher := (watcher s)\<lparr>changed := changed (watcher s) - {p}\<rparr>,
             trace := trace s @ [Notify f p]\<rparr>" by simp_all
    then show ?thesis using notified(1) by auto
  next
    case (raised f rest m)
    with assms show ?thesis by simp
  qed
qed

lemma run_watched_records:
  "run_watched e items ts s = Inr (ts', s') \<Longrightarrow>
   p \<in> set ts \<or> (p \<in> changed (watcher s) \<and> (\<exists>fs. (p, fs) \<in> set items \<and> fs \<noteq> [])) \<Longrightarrow>
   p \<in> set ts'"
proof (induction items arbitrary: ts s)
  case Nil
  then show ?case by auto
next
  case (Cons a items)
  obtain q gs where a: "a = (q, gs)" by (cases a)
  from Cons.prems(1) obtain ts1 s1 where
    step: "run_watched_functions e q gs ts s = Inr (ts1, s1)"
    and rest: "run_watched e items ts1 s1 = Inr (ts', s')"
    by (auto simp: a split: sum.splits)
  note rec = run_watched_functions_records [OF step]
  have "p \<in> set ts1 \<or> (p \<in> changed (watcher s1) \<and> (\<exists>fs. (p, fs) \<in> set items \<and> fs \<noteq> []))"
    using Cons.prems(2) rec by (auto simp: a)
  from Cons.IH [OF rest this] show ?case .
qed

subsection \<open>The reload phase\<close>

lemma run_toload_returns:
  "pl s \<noteq> None \<Longrightarrow> \<exists>s'. run_toload e ts s = Inr s'"
proof (induction ts arbitrary: s)
  case Nil
  then show ?case by simp
next
  case (Cons p ts)
  then show ?case
    by (auto simp: Let_def exception_def split: sum.splits option.splits intro!: Cons.IH)
qed

lemma run_toload_trace:
  "run_toload e ts s = Inr s' \<Longrightarrow> trace s' = trace s @ map LoadCall ts"
proof (induction ts arbitrary: s)
  case Nil
  then show ?case by simp
next
  case (Cons p ts)
  from Cons.prems show ?case
    by (auto simp: Let_def exception_def split: sum.splits option.splits dest!: Cons.IH)
qed

lemma run_toload_pl:
  "run_toload e ts s = Inr s' \<Longrightarrow>
   pl s' = map_option (\<lambda>l. l @ concat (map (load_errors e) ts)) (pl s)"
proof (induction ts arbitrary: s)
  case Nil
  then show ?case by (simp add: option.map_ident)
next
  case (Cons p ts)
  from Cons.prems show ?case
    by (auto simp: Let_def exception_def split: sum.splits option.splits dest!: Cons.IH)
qed

lemma run_toload_loaded:
  "run_toload e ts s = Inr s' \<Longrightarrow>
   loaded s' p =
     (if p \<in> set ts then (case loader e p of Inr v \<Rightarrow> Some v | Inl m \<Rightarrow> loaded s p)
      else loaded s p)"
proof (induction ts arbitrary: s)
  case Nil
  then show ?case by simp
next
  case (Cons q ts)
  from Cons.prems show ?case
    by (auto simp: Let_def exception_def split: sum.splits option.splits dest!: Cons.IH)
qed

lemma run_toload_frame:
  "run_toload e ts s = Inr s' \<or> run_toload e ts s = Inl (x, s') \<Longrightarrow>
   interval s' = interval s \<and> shutdown_at s' = shutdown_at s \<and> clock s' = clock s \<and>
   watched s' = watched s \<and> missing s' = missing s \<and> watcher s' = watcher s \<and>
   (pl s' = None \<longleftrightarrow> pl s = None)"
proof (induction ts arbitrary: s)
  case Nil
  then show ?case by auto
next
  case (Cons q ts)
  from Cons.prems show ?case
    by (auto simp: Let_def exception_def split: sum.splits option.splits dest!: Cons.IH)
qed

lemma run_toload_fails:
  "pl s = None \<Longrightarrow> p \<in> set ts \<Longrightarrow> loader e p = Inl m \<Longrightarrow>
   \<exists>x s'. run_toload e ts s = Inl (x, s')"
proof (induction ts arbitrary: s)
  case Nil
  then show ?case by simp
next
  case (Cons q ts)
  show ?case
  proof (cases "loader e q")
    case (Inl m')
    then show ?thesis using Cons.prems(1) by (simp add: exception_def)
  next
    case (Inr v)
    then have "q \<noteq> p" using Cons.prems(3) by auto
    then have "p \<in> set ts" using Cons.prems(2) by simp
    from Cons.IH [OF _ this Cons.prems(3), of "s\<lparr>trace := trace s @ [LoadCall q], loaded := (loaded s)(q \<mapsto> v)\<rparr>"]
    show ?thesis using Inr Cons.prems(1) by simp
  qed
qed

section \<open>One cycle\<close>

lemma run_body_Inr:
  "run_body e s = Inr s' \<longleftrightarrow>
   (\<exists>ts1 s1 ts2 s2 s3.
      run_watched e (watched s) [] (s\<lparr>watcher := touch (modified e) (watcher s)\<rparr>) = Inr (ts1, s1) \<and>
      run_missing e (missing s1) ts1 s1 = Inr (ts2, s2) \<and>
      run_toload e ts2 s2 = Inr s3 \<and>
      s' = s3\<lparr>clock := clock s3 + duration e\<rparr>)"
  by (auto simp: run_body_def Let_def split: sum.splits)

lemma run_body_Inl:
  "run_body e s = Inl (x, s') \<longleftrightarrow>
   run_watched e (watched s) [] (s\<lparr>watcher := touch (modified e) (watcher s)\<rparr>) = Inl (x, s') \<or>
   (\<exists>ts1 s1.
      run_watched e (watched s) [] (s\<lparr>watcher := touch (modified e) (watcher s)\<rparr>) = Inr (ts1, s1) \<and>
      (run_missing e (missing s1) ts1 s1 = Inl (x, s') \<or>
       (\<exists>ts2 s2. run_missing e (missing s1) ts1 s1 = Inr (ts2, s2) \<and>
          run_toload e ts2 s2 = Inl (x, s'))))"
  by (auto simp: run_body_def Let_def split: sum.splits)

lemma found_notify: "\<forall>ev \<in> set evs. is_notify ev \<Longrightarrow> filter (is_found k c f) evs = []"
proof (induction evs)
  case Nil
  then show ?case by simp
next
  case (Cons ev evs)
  then show ?case by (cases ev) auto
qed

lemma found_load: "filter (is_found k c f) (map LoadCall ts) = []"
  by (induction ts) auto

lemma found_pair_events:
  "distinct ps \<Longrightarrow>
   filter (is_found k c f) (concat (map (pair_events e k') ps)) =
     (if k' = k \<and> (c, f) \<in> set ps then found_by e k c f else [])"
proof (induction ps)
  case Nil
  then show ?case by simp
next
  case (Cons a ps)
  obtain c' f' where a: "a = (c', f')" by (cases a)
  from Cons show ?case
    by (auto simp: a found_by_def split: cond_result.splits option.splits)
qed

lemma found_key_events:
  assumes "pairs_distinct (missing s)"
  shows "filter (is_found k c f) (key_events e s k') =
     (if k' = k \<and> (c, f) \<in> set (functions_of (missing s) k) then found_by e k c f else [])"
  unfolding key_events_def
  using found_pair_events [OF functions_of_distinct [OF assms], of k c f e k' k'] by auto

lemma found_keys_events:
  assumes "pairs_distinct (missing s)"
  shows "distinct ks \<Longrightarrow>
     filter (is_found k c f) (concat (map (key_events e s) ks)) =
     (if k \<in> set ks \<and> (c, f) \<in> set (functions_of (missing s) k) then found_by e k c f else [])"
proof (induction ks)
  case Nil
  then show ?case by simp
next
  case (Cons k' ks)
  then show ?case
    by (auto simp: found_key_events [OF assms])
qed

lemma functions_of_keys: "x \<in> set (functions_of al k) \<Longrightarrow> k \<in> fst ` set al"
  by (cases "map_of al k") (auto simp: functions_of_def dest: map_of_SomeD intro: rev_image_eqI)

lemma wf_pairs_distinct: "wf s \<Longrightarrow> pairs_distinct (missing s)"
  unfolding wf_def pairs_distinct_def
  by (auto dest!: map_of_SomeD)

lemma no_empty_entry_pairs_nonempty: "no_empty_entry s \<Longrightarrow> pairs_nonempty (missing s)"
  unfolding no_empty_entry_def pairs_nonempty_def
  by (auto dest!: map_of_SomeD)

lemma key_events_cong: "missing s1 = missing s \<Longrightarrow> key_events e s1 = key_events e s"
  by (rule ext) (simp add: key_events_def)

lemma key_errors_cong: "missing s1 = missing s \<Longrightarrow> key_errors e s1 = key_errors e s"
  by (rule ext) (simp add: key_errors_def)

lemma run_body_frame:
  assumes "run_body e s = Inr s'"
  shows "interval s' = interval s \<and> shutdown_at s' = shutdown_at s \<and>
         clock s' = clock s + duration e \<and> watched s' = watched s \<and>
         (pl s' = None \<longleftrightarrow> pl s = None)"
proof -
  from assms obtain ts1 s1 ts2 s2 s3 where
    p1: "run_watched e (watched s) [] (s\<lparr>watcher := touch (modified e) (watcher s)\<rparr>) = Inr (ts1, s1)"
    and p2: "run_missing e (missing s1) ts1 s1 = Inr (ts2, s2)"
    and p3: "run_toload e ts2 s2 = Inr s3"
    and s': "s' = s3\<lparr>clock := clock s3 + duration e\<rparr>"
    unfolding run_body_Inr by blast
  show ?thesis
    using run_watched_frame [OF disjI1 [OF p1]] run_missing_frame_Inr [OF p2]
      run_toload_frame [OF disjI1 [OF p3]] s'
    by simp
qed

lemma run_body_missing:
  assumes "run_body e s = Inr s'" and "distinct (map fst (missing s))"
  shows "map_of (missing s') k =
     (case map_of (missing s) k of
        None \<Rightarrow> None
      | Some ps \<Rightarrow> if remaining e k ps = [] then None else Some (remaining e k ps))"
    and "distinct (map fst (missing s'))"
proof -
  from assms(1) obtain ts1 s1 ts2 s2 s3 where
    p1: "run_watched e (watched s) [] (s\<lparr>watcher := touch (modified e) (watcher s)\<rparr>) = Inr (ts1, s1)"
    and p2: "run_missing e (missing s1) ts1 s1 = Inr (ts2, s2)"
    and p3: "run_toload e ts2 s2 = Inr s3"
    and s': "s' = s3\<lparr>clock := clock s3 + duration e\<rparr>"
    unfolding run_body_Inr by blast
  have m1: "missing s1 = missing s"
    using run_watched_frame [OF disjI1 [OF p1]] by simp
  have m3: "missing s' = missing s2"
    using run_toload_frame [OF disjI1 [OF p3]] s' by simp
  have d: "distinct (map fst (missing s1))" using assms(2) m1 by simp
  show "map_of (missing s') k =
     (case map_of (missing s) k of
        None \<Rightarrow> None
      | Some ps \<Rightarrow> if remaining e k ps = [] then None else Some (remaining e k ps))"
    unfolding m3 run_missing_map_of [OF p2 d] m1
    by (auto simp: map_of_eq_None_iff [symmetric] split: option.splits)
  show "distinct (map fst (missing s'))"
    unfolding m3 using run_missing_distinct_Inr [OF p2 d] .
qed

lemma run_body_found:
  assumes "run_body e s = Inr s'" and "distinct (map fst (missing s))"
    and "pairs_distinct (missing s)"
  shows "found k c f (trace s') =
     found k c f (trace s) @
     (if (c, f) \<in> set (functions_of (missing s) k) then found_by e k c f else [])"
proof -
  from assms(1) obtain ts1 s1 ts2 s2 s3 where
    p1: "run_watched e (watched s) [] (s\<lparr>watcher := touch (modified e) (watcher s)\<rparr>) = Inr (ts1, s1)"
    and p2: "run_missing e (missing s1) ts1 s1 = Inr (ts2, s2)"
    and p3: "run_toload e ts2 s2 = Inr s3"
    and s': "s' = s3\<lparr>clock := clock s3 + duration e\<rparr>"
    unfolding run_body_Inr by blast
  have m1: "missing s1 = missing s"
    using run_watched_frame [OF disjI1 [OF p1]] by simp
  have d: "distinct (map fst (missing s1))" using assms(2) m1 by simp
  obtain evs1 where t1: "trace s1 = trace s @ evs1" and n1: "\<forall>ev \<in> set evs1. is_notify ev"
    using run_watched_trace [OF disjI1 [OF p1]] by auto
  have t2: "trace s2 = trace s1 @ concat (map (key_events e s) (map fst (missing s)))"
    using run_missing_trace [OF p2 d] by (simp add: m1 key_events_cong [OF m1])
  have t3: "trace s' = trace s2 @ map LoadCall ts2"
    using run_toload_trace [OF p3] s' by simp
  have k: "(c, f) \<in> set (functions_of (missing s) k) \<Longrightarrow> k \<in> set (map fst (missing s))"
    using functions_of_keys [of "(c, f)" "missing s" k] by simp
  have f2: "filter (is_found k c f) (concat (map (key_events e s) (map fst (missing s)))) =
      (if (c, f) \<in> set (functions_of (missing s) k) then found_by e k c f else [])"
    unfolding found_keys_events [OF assms(3) assms(2)] using k by simp
  have "filter (is_found k c f) (trace s') =
      filter (is_found k c f) (trace s) @ filter (is_found k c f) evs1 @
      filter (is_found k c f) (concat (map (key_events e s) (map fst (missing s)))) @
      filter (is_found k c f) (map LoadCall ts2)"
    unfolding t3 t2 t1 by (simp only: filter_append append_assoc)
  then show ?thesis
    unfolding found_def f2 found_notify [OF n1] found_load by simp
qed

lemma run_body_pairs_distinct:
  assumes "run_body e s = Inr s'" and "pairs_distinct (missing s)"
  shows "pairs_distinct (missing s')"
proof -
  from assms(1) obtain ts1 s1 ts2 s2 s3 where
    p1: "run_watched e (watched s) [] (s\<lparr>watcher := touch (modified e) (watcher s)\<rparr>) = Inr (ts1, s1)"
    and p2: "run_missing e (missing s1) ts1 s1 = Inr (ts2, s2)"
    and p3: "run_toload e ts2 s2 = Inr s3"
    and s': "s' = s3\<lparr>clock := clock s3 + duration e\<rparr>"
    unfolding run_body_Inr by blast
  have m1: "missing s1 = missing s"
    using run_watched_frame [OF disjI1 [OF p1]] by simp
  have m3: "missing s' = missing s2"
    using run_toload_frame [OF disjI1 [OF p3]] s' by simp
  show ?thesis
    unfolding m3 using run_missing_pairs_distinct_Inr [OF p2] assms(2) m1 by simp
qed

section \<open>Reload failures\<close>

lemma two_watched_eq:
  "two_watched =
     \<lparr>clock = 0, shutdown_at = None,
      watcher = \<lparr>watching = {''b.json'', ''a.json''}, changed = {}\<rparr>,
      pl = None, interval = Some 10,
      watched = [(''a.json'', [1]), (''b.json'', [2])], missing = [],
      loaded = Map.empty, trace = []\<rparr>"
  by (simp add: two_watched_def register_def set_interval_def init_def d0_def watch_def)

lemma two_watched_logged_eq:
  "two_watched_logged =
     \<lparr>clock = 0, shutdown_at = None,
      watcher = \<lparr>watching = {''b.json'', ''a.json''}, changed = {}\<rparr>,
      pl = Some [], interval = Some 10,
      watched = [(''a.json'', [1]), (''b.json'', [2])], missing = [],
      loaded = [''a.json'' \<mapsto> 0], trace = [LoadCall ''a.json'']\<rparr>"
  by (simp add: two_watched_logged_def two_watched_eq set_pl_def load_def env_const_def)

text \<open>
  C4 as stated fails when no logger is attached: with \<open>a.json\<close> and \<open>b.json\<close> both
  changed and recorded, the loader failing on \<open>a.json\<close> makes \<open>exception\<close> raise, the
  exception leaves the loop, and \<open>b.json\<close> is never reloaded.
\<close>

theorem reload_failure_without_sink:
  "pl two_watched = None \<and>
   isl (run_body env_bad_a two_watched) \<and>
   fst (projl (run_body env_bad_a two_watched)) = Exn ''bad json'' \<and>
   trace (snd (projl (run_body env_bad_a two_watched))) =
     [Notify 1 ''a.json'', Notify 2 ''b.json'', LoadCall ''a.json''] \<and>
   loader env_bad_a ''b.json'' = Inr 5 \<and>
   loaded (snd (projl (run_body env_bad_a two_watched))) ''b.json'' = None"
  by (simp add: two_watched_eq run_body_def env_bad_a_def touch_def check_def exception_def)

text \<open>
  C4, amended: provided a logger is attached, the reload phase calls the loader for every
  recorded path, in order, whatever the earlier reloads did; every failure is passed to the
  logger and leaves the cached value of its path as it was; every success replaces the
  cached value of its path.
\<close>

theorem reload_phase_with_sink:
  assumes "pl s = Some l"
  shows "\<exists>s'. run_toload e toload s = Inr s' \<and>
           trace s' = trace s @ map LoadCall toload \<and>
           pl s' = Some (l @ concat (map (load_errors e) toload)) \<and>
           (\<forall>p. loaded s' p =
              (if p \<in> set toload
               then (case loader e p of Inr v \<Rightarrow> Some v | Inl m \<Rightarrow> loaded s p)
               else loaded s p))"
proof -
  from assms have "pl s \<noteq> None" by simp
  from run_toload_returns [OF this] obtain s' where r: "run_toload e toload s = Inr s'"
    by blast
  show ?thesis
    using r run_toload_trace [OF r] run_toload_pl [OF r] run_toload_loaded [OF r] assms
    by simp
qed

theorem reload_phase_with_sink_witness:
  "pl two_watched_logged = Some [] \<and>
   loaded two_watched_logged ''a.json'' = Some 0 \<and>
   (\<exists>s'. run_toload env_bad_a [''a.json'', ''b.json''] two_watched_logged = Inr s' \<and>
      trace s' = [LoadCall ''a.json'', LoadCall ''a.json'', LoadCall ''b.json''] \<and>
      pl s' = Some [\<lparr>entry_prefix = ''config_loader'',
                     entry_msg = ''Error while loading {0}: {1}'',
                     entry_args = [''a.json'', ''bad json'']\<rparr>] \<and>
      loaded s' ''a.json'' = Some 0 \<and> loaded s' ''b.json'' = Some 5)"
proof -
  have h: "pl two_watched_logged = Some []"
    by (simp add: two_watched_logged_eq)
  have c: "loaded two_watched_logged ''a.json'' = Some 0"
    by (simp add: two_watched_logged_eq)
  have t: "trace two_watched_logged = [LoadCall ''a.json'']"
    by (simp add: two_watched_logged_eq)
  have n: "loaded two_watched_logged ''b.json'' = None"
    by (simp add: two_watched_logged_eq)
  from reload_phase_with_sink [OF h, of env_bad_a "[''a.json'', ''b.json'']"]
  obtain s' where s': "run_toload env_bad_a [''a.json'', ''b.json''] two_watched_logged = Inr s'"
    "trace s' = trace two_watched_logged @ map LoadCall [''a.json'', ''b.json'']"
    "pl s' = Some ([] @ concat (map (load_errors env_bad_a) [''a.json'', ''b.json'']))"
    "\<forall>p. loaded s' p =
        (if p \<in> set [''a.json'', ''b.json'']
         then (case loader env_bad_a p of Inr v \<Rightarrow> Some v | Inl m \<Rightarrow> loaded two_watched_logged p)
         else loaded two_watched_logged p)"
    by blast
  have "loaded s' ''a.json'' = Some 0" "loaded s' ''b.json'' = Some 5"
    using s'(4) c by (simp_all add: env_bad_a_def)
  moreover have "trace s' = [LoadCall ''a.json'', LoadCall ''a.json'', LoadCall ''b.json'']"
    using s'(2) t by simp
  moreover have "pl s' = Some [\<lparr>entry_prefix = ''config_loader'',
                     entry_msg = ''Error while loading {0}: {1}'',
                     entry_args = [''a.json'', ''bad json'']\<rparr>]"
    using s'(3) by (simp add: env_bad_a_def)
  ultimately show ?thesis using h c s'(1) by blast
qed

section \<open>Shutdown\<close>

lemma wait_fields:
  "interval (wait i s) = interval s \<and> shutdown_at (wait i s) = shutdown_at s \<and>
   watched (wait i s) = watched s \<and> missing (wait i s) = missing s \<and>
   loaded (wait i s) = loaded s \<and> pl (wait i s) = pl s \<and> trace (wait i s) = trace s \<and>
   watcher (wait i s) = watcher s"
  by (simp add: wait_def split: option.splits)

lemma run_stopped_without_interval: "interval s = None \<Longrightarrow> run es s = Stopped s"
  by (cases es) simp_all

lemma run_stopped_when_set: "is_set s \<Longrightarrow> run es s = Stopped s"
  by (cases es) (simp_all split: option.splits)

text \<open>
  C9: the loop runs no cycle when no interval is set or when the shutdown event is set at
  the head of the loop. If the event gets set during a cycle (at time \<open>t\<close>, during the
  body or during the wait), the wait returns as soon as the event is set and not after the
  whole interval, and no further cycle starts. If the event is not set by the end of the
  wait, the wait takes the whole interval and the loop goes on.
\<close>

theorem run_observes_shutdown:
  "(interval s = None \<longrightarrow> run es s = Stopped s) \<and>
   (is_set s \<longrightarrow> run es s = Stopped s) \<and>
   (interval s = Some i \<and> \<not> is_set s \<and> run_body e s = Inr s1 \<and>
    shutdown_at s = Some t \<and> t \<le> clock s1 + i \<longrightarrow>
      run (e # es) s = Stopped (wait i s1) \<and> clock (wait i s1) = max t (clock s1)) \<and>
   (interval s = Some i \<and> \<not> is_set s \<and> run_body e s = Inr s1 \<and>
    (shutdown_at s = None \<or> (\<exists>t. shutdown_at s = Some t \<and> clock s1 + i < t)) \<longrightarrow>
      run (e # es) s = run es (wait i s1) \<and> clock (wait i s1) = clock s1 + i \<and>
      \<not> is_set (wait i s1))"
proof (intro conjI impI)
  assume "interval s = None"
  then show "run es s = Stopped s" by (rule run_stopped_without_interval)
next
  assume "is_set s"
  then show "run es s = Stopped s" by (rule run_stopped_when_set)
next
  assume a: "interval s = Some i \<and> \<not> is_set s \<and> run_body e s = Inr s1 \<and>
    shutdown_at s = Some t \<and> t \<le> clock s1 + i"
  then have b: "run_body e s = Inr s1" by simp
  note f = run_body_frame [OF b]
  have w: "is_set (wait i s1)"
    using a f by (auto simp: is_set_def wait_def)
  show "run (e # es) s = Stopped (wait i s1)"
    using a run_stopped_when_set [OF w] by simp
  show "clock (wait i s1) = max t (clock s1)"
    using a f by (auto simp: wait_def)
next
  assume a: "interval s = Some i \<and> \<not> is_set s \<and> run_body e s = Inr s1 \<and>
    (shutdown_at s = None \<or> (\<exists>t. shutdown_at s = Some t \<and> clock s1 + i < t))"
  then have b: "run_body e s = Inr s1" by simp
  note f = run_body_frame [OF b]
  show "run (e # es) s = run es (wait i s1)"
    using a by simp
  show "clock (wait i s1) = clock s1 + i"
    using a f by (auto simp: wait_def)
  show "\<not> is_set (wait i s1)"
    using a f by (auto simp: is_set_def wait_def)
qed

lemma stopping_at_5_eq:
  "stopping_at_5 =
     \<lparr>clock = 0, shutdown_at = Some 5, watcher = \<lparr>watching = {}, changed = {}\<rparr>,
      pl = None, interval = Some 10, watched = [], missing = [], loaded = Map.empty,
      trace = []\<rparr>"
  by (simp add: stopping_at_5_def set_interval_def init_def d0_def)

lemma run_body_stopping_at_5:
  "run_body env_slow stopping_at_5 = Inr (stopping_at_5\<lparr>clock := 2\<rparr>)"
  by (simp add: run_body_def stopping_at_5_eq env_slow_def touch_def)

theorem run_observes_shutdown_witness:
  "interval (init d0 :: nat config_loader) = None \<and>
   run [env_slow] (init d0) = Stopped (init d0) \<and>
   is_set (stopping_at_5\<lparr>clock := 7\<rparr>) \<and>
   run [env_slow] (stopping_at_5\<lparr>clock := 7\<rparr>) = Stopped (stopping_at_5\<lparr>clock := 7\<rparr>) \<and>
   interval stopping_at_5 = Some 10 \<and> \<not> is_set stopping_at_5 \<and>
   run_body env_slow stopping_at_5 = Inr (stopping_at_5\<lparr>clock := 2\<rparr>) \<and>
   shutdown_at stopping_at_5 = Some 5 \<and>
   run [env_slow, env_slow] stopping_at_5 = Stopped (stopping_at_5\<lparr>clock := 5\<rparr>) \<and>
   \<not> is_set (stopping_at_5\<lparr>shutdown_at := None\<rparr>) \<and>
   run [env_slow] (stopping_at_5\<lparr>shutdown_at := None\<rparr>) =
     Running (stopping_at_5\<lparr>shutdown_at := None, clock := 12\<rparr>)"
proof -
  have h1: "interval (init d0 :: nat config_loader) = None"
    by (simp add: init_def)
  have h2: "is_set (stopping_at_5\<lparr>clock := 7\<rparr>)"
    by (simp add: is_set_def stopping_at_5_eq)
  have h3: "interval stopping_at_5 = Some 10 \<and> \<not> is_set stopping_at_5 \<and>
    run_body env_slow stopping_at_5 = Inr (stopping_at_5\<lparr>clock := 2\<rparr>) \<and>
    shutdown_at stopping_at_5 = Some 5 \<and> 5 \<le> clock (stopping_at_5\<lparr>clock := 2\<rparr>) + 10"
    by (simp add: run_body_stopping_at_5) (simp add: stopping_at_5_eq is_set_def)
  have b4: "run_body env_slow (stopping_at_5\<lparr>shutdown_at := None\<rparr>) =
      Inr (stopping_at_5\<lparr>shutdown_at := None, clock := 2\<rparr>)"
    by (simp add: run_body_def stopping_at_5_eq env_slow_def touch_def)
  have h4: "interval (stopping_at_5\<lparr>shutdown_at := None\<rparr>) = Some 10 \<and>
    \<not> is_set (stopping_at_5\<lparr>shutdown_at := None\<rparr>) \<and>
    run_body env_slow (stopping_at_5\<lparr>shutdown_at := None\<rparr>) =
      Inr (stopping_at_5\<lparr>shutdown_at := None, clock := 2\<rparr>) \<and>
    (shutdown_at (stopping_at_5\<lparr>shutdown_at := None\<rparr>) = None \<or>
     (\<exists>t. shutdown_at (stopping_at_5\<lparr>shutdown_at := None\<rparr>) = Some t \<and>
        clock (stopping_at_5\<lparr>shutdown_at := None, clock := 2\<rparr>) + 10 < t))"
    by (simp add: b4) (simp add: stopping_at_5_eq is_set_def)
  have w3: "wait 10 (stopping_at_5\<lparr>clock := 2\<rparr>) = stopping_at_5\<lparr>clock := 5\<rparr>"
    by (simp add: wait_def stopping_at_5_eq)
  have w4: "wait 10 (stopping_at_5\<lparr>shutdown_at := None, clock := 2\<rparr>) =
      stopping_at_5\<lparr>shutdown_at := None, clock := 12\<rparr>"
    by (simp add: wait_def stopping_at_5_eq)
  have r4: "run [] (stopping_at_5\<lparr>shutdown_at := None, clock := 12\<rparr>) =
      Running (stopping_at_5\<lparr>shutdown_at := None, clock := 12\<rparr>)"
    by (simp add: stopping_at_5_eq is_set_def)
  note t1 = run_observes_shutdown [of "init d0" "[env_slow]", THEN conjunct1, rule_format, OF h1]
  note t2 = run_observes_shutdown [of "stopping_at_5\<lparr>clock := 7\<rparr>" "[env_slow]",
      THEN conjunct2, THEN conjunct1, rule_format, OF h2]
  note t3 = run_observes_shutdown [of stopping_at_5 "[env_slow]" 10 env_slow
      "stopping_at_5\<lparr>clock := 2\<rparr>" 5, THEN conjunct2, THEN conjunct2, THEN conjunct1, rule_format, OF h3]
  note t4 = run_observes_shutdown [of "stopping_at_5\<lparr>shutdown_at := None\<rparr>" "[]" 10 env_slow
      "stopping_at_5\<lparr>shutdown_at := None, clock := 2\<rparr>",
      THEN conjunct2, THEN conjunct2, THEN conjunct2, rule_format, OF h4]
  show ?thesis
    using h1 h2 h3 h4 t1 t2 t3 t4 w3 w4 r4 by simp
qed

section \<open>The error-reporting hook\<close>

lemma run_missing_functions_Inr_no_raise:
  "run_missing_functions e k ps ts s = Inr (ts', s') \<Longrightarrow> pl s = None \<Longrightarrow>
   (c, f) \<in> set ps \<Longrightarrow> cond e c k \<noteq> CondRaises m"
proof (induction ps arbitrary: ts s)
  case Nil
  then show ?case by simp
next
  case (Cons a rest)
  obtain c' f' where a: "a = (c', f')" by (cases a)
  show ?case
  proof (cases "(c, f) \<in> set rest")
    case True
    from Cons.prems(1,2) show ?thesis
      unfolding a
      by (auto simp: Let_def exception_def split: cond_result.splits option.splits if_splits
          dest!: Cons.IH [OF _ _ True])
  next
    case False
    then have "c' = c" using Cons.prems(3) by (simp add: a)
    with Cons.prems(1,2) show ?thesis
      unfolding a
      by (auto simp: Let_def exception_def split: cond_result.splits option.splits if_splits)
  qed
qed

lemma run_missing_Inr_no_raise:
  "run_missing e items ts s = Inr (ts', s') \<Longrightarrow> pl s = None \<Longrightarrow> k \<in> fst ` set items \<Longrightarrow>
   (c, f) \<in> set (functions_of (missing s) k) \<Longrightarrow> cond e c k \<noteq> CondRaises m"
proof (induction items arbitrary: ts s)
  case Nil
  then show ?case by simp
next
  case (Cons a items)
  obtain k0 x where a: "a = (k0, x)" by (cases a)
  from Cons.prems(1) obtain ts1 s1 where
    step: "run_missing_functions e k0 (functions_of (missing s) k0) ts s = Inr (ts1, s1)"
    and rest: "run_missing e items ts1 (pop_if_empty k0 s1) = Inr (ts', s')"
    unfolding a run_missing_Cons_Inr by blast
  show ?case
  proof (cases "k = k0")
    case True
    then show ?thesis
      using run_missing_functions_Inr_no_raise [OF step Cons.prems(2)] Cons.prems(4) by simp
  next
    case False
    then have k: "k \<in> fst ` set items" using Cons.prems(3) by (simp add: a)
    have p: "pl (pop_if_empty k0 s1) = None"
      using run_missing_functions_frame_Inr [OF step] Cons.prems(2)
      by (simp add: pop_if_empty_fields)
    have m: "(c, f) \<in> set (functions_of (missing (pop_if_empty k0 s1)) k)"
      using key_step_functions_of [OF step False] Cons.prems(4) by simp
    from Cons.IH [OF rest p k m] show ?thesis .
  qed
qed

lemma run_missing_toload_mono:
  "run_missing e items ts s = Inr (ts', s') \<Longrightarrow> set ts \<subseteq> set ts'"
proof (induction items arbitrary: ts s)
  case Nil
  then show ?case by simp
next
  case (Cons a items)
  obtain k0 x where a: "a = (k0, x)" by (cases a)
  from Cons.prems(1) obtain ts1 s1 where
    step: "run_missing_functions e k0 (functions_of (missing s) k0) ts s = Inr (ts1, s1)"
    and rest: "run_missing e items ts1 (pop_if_empty k0 s1) = Inr (ts', s')"
    unfolding a run_missing_Cons_Inr by blast
  show ?case
    using Cons.IH [OF rest] run_missing_functions_toload [OF step] by auto
qed

lemma run_body_cond_raises:
  assumes "pl s = None" and "(c, f) \<in> set (functions_of (missing s) k)"
    and "cond e c k = CondRaises m"
  shows "\<exists>y s'. run_body e s = Inl (y, s')"
proof (cases "run_body e s")
  case (Inl r)
  then show ?thesis by (cases r) simp
next
  case (Inr s')
  then obtain ts1 s1 ts2 s2 where
    p1: "run_watched e (watched s) [] (s\<lparr>watcher := touch (modified e) (watcher s)\<rparr>) = Inr (ts1, s1)"
    and p2: "run_missing e (missing s1) ts1 s1 = Inr (ts2, s2)"
    unfolding run_body_Inr by blast
  have f1: "missing s1 = missing s" "pl s1 = None"
    using run_watched_frame [OF disjI1 [OF p1]] assms(1) by simp_all
  have "k \<in> fst ` set (missing s1)"
    using functions_of_keys [OF assms(2)] f1 by simp
  from run_missing_Inr_no_raise [OF p2 f1(2) this, of c f m] assms(2,3) f1(1)
  show ?thesis by simp
qed

lemma run_body_loader_fails:
  assumes "pl s = None" and "(p, fs) \<in> set (watched s)" and "fs \<noteq> []"
    and "p \<in> changed (watcher s) \<union> modified e" and "loader e p = Inl m"
  shows "\<exists>y s'. run_body e s = Inl (y, s')"
proof (cases "run_body e s")
  case (Inl r)
  then show ?thesis by (cases r) simp
next
  case (Inr s')
  then obtain ts1 s1 ts2 s2 s3 where
    p1: "run_watched e (watched s) [] (s\<lparr>watcher := touch (modified e) (watcher s)\<rparr>) = Inr (ts1, s1)"
    and p2: "run_missing e (missing s1) ts1 s1 = Inr (ts2, s2)"
    and p3: "run_toload e ts2 s2 = Inr s3"
    unfolding run_body_Inr by blast
  have "p \<in> set ts1"
    using run_watched_records [OF p1, of p] assms(2,3,4) by (auto simp: touch_def)
  then have m: "p \<in> set ts2"
    using run_missing_toload_mono [OF p2] by auto
  have "pl s1 = None"
    using run_watched_frame [OF disjI1 [OF p1]] assms(1) by simp
  then have "pl s2 = None"
    using run_missing_frame_Inr [OF p2] by simp
  from run_toload_fails [OF this m assms(5)] p3 show ?thesis by simp
qed

subsection \<open>With a logger and with none\<close>

lemma set_pl_fields [simp]:
  "pl (set_pl x s) = x" "trace (set_pl x s) = trace s" "missing (set_pl x s) = missing s"
  "watched (set_pl x s) = watched s" "loaded (set_pl x s) = loaded s"
  "watcher (set_pl x s) = watcher s" "interval (set_pl x s) = interval s"
  "clock (set_pl x s) = clock s" "shutdown_at (set_pl x s) = shutdown_at s"
  by (simp_all add: set_pl_def)

lemma set_pl_updates [simp]:
  "(set_pl x s)\<lparr>trace := a\<rparr> = set_pl x (s\<lparr>trace := a\<rparr>)"
  "(set_pl x s)\<lparr>missing := b\<rparr> = set_pl x (s\<lparr>missing := b\<rparr>)"
  "(set_pl x s)\<lparr>loaded := c\<rparr> = set_pl x (s\<lparr>loaded := c\<rparr>)"
  "(set_pl x s)\<lparr>watcher := d\<rparr> = set_pl x (s\<lparr>watcher := d\<rparr>)"
  "(set_pl x s)\<lparr>clock := n\<rparr> = set_pl x (s\<lparr>clock := n\<rparr>)"
  "(set_pl x s)\<lparr>pl := y\<rparr> = set_pl y s"
  "set_pl x (s\<lparr>pl := y\<rparr>) = set_pl x s"
  "set_pl x (set_pl y s) = set_pl x s"
  by (simp_all add: set_pl_def)

lemma set_pl_same: "pl s = x \<Longrightarrow> set_pl x s = s"
  by (simp add: set_pl_def)

lemma run_watched_functions_set_pl:
  "run_watched_functions e p fs ts (set_pl x s) =
     map_state1 (set_pl x) (run_watched_functions e p fs ts s)"
proof (induction fs arbitrary: ts s)
  case Nil
  then show ?case by simp
next
  case (Cons f fs)
  show ?case
    by (simp add: check_def Let_def Cons.IH split: option.splits)
qed

lemma run_watched_set_pl:
  "run_watched e items ts (set_pl x s) = map_state1 (set_pl x) (run_watched e items ts s)"
proof (induction items arbitrary: ts s)
  case Nil
  then show ?case by simp
next
  case (Cons a items)
  obtain p fs where a: "a = (p, fs)" by (cases a)
  show ?case
  proof (cases "run_watched_functions e p fs ts s")
    case (Inl r)
    then show ?thesis
      by (cases r) (simp add: a run_watched_functions_set_pl)
  next
    case (Inr r)
    then show ?thesis
      by (cases r) (simp add: a run_watched_functions_set_pl Cons.IH)
  qed
qed

lemma run_missing_functions_grows:
  "pl s = Some l0 \<Longrightarrow>
   \<exists>ents. pl (result_state1 (run_missing_functions e k ps ts s)) = Some (l0 @ ents)"
proof (induction ps arbitrary: ts s l0)
  case Nil
  then show ?case by simp
next
  case (Cons a rest)
  obtain c f where a: "a = (c, f)" by (cases a)
  let ?s1 = "s\<lparr>trace := trace s @ [CondCall c k]\<rparr>"
  show ?case
  proof (cases "cond e c k")
    case (CondRaises m)
    let ?s2 = "?s1\<lparr>pl := Some (l0 @ [cond_error k m])\<rparr>"
    have "pl ?s2 = Some (l0 @ [cond_error k m])" by simp
    from Cons.IH [OF this, of ts] obtain ents where
      "pl (result_state1 (run_missing_functions e k rest ts ?s2)) =
         Some ((l0 @ [cond_error k m]) @ ents)" by blast
    then have "pl (result_state1 (run_missing_functions e k (a # rest) ts s)) =
         Some (l0 @ (cond_error k m # ents))"
      using CondRaises Cons.prems by (simp add: a exception_def cond_error_def)
    then show ?thesis by blast
  next
    case (CondReturns v)
    have p1: "pl ?s1 = Some l0" using Cons.prems by simp
    show ?thesis
    proof (cases "v = None \<or> v = Some []")
      case True
      from Cons.IH [OF p1, of ts] show ?thesis
        using CondReturns True by (auto simp: a)
    next
      case False
      then obtain p where p: "v = Some p" "p \<noteq> []" by auto
      let ?s2 = "?s1\<lparr>trace := trace ?s1 @ [Found k c f p]\<rparr>"
      show ?thesis
      proof (cases "callback e f p")
        case None
        let ?s3 = "?s2\<lparr>missing := AList.map_entry k (removeAll (c, f)) (missing ?s2)\<rparr>"
        have "pl ?s3 = Some l0" using Cons.prems by simp
        from Cons.IH [OF this, of "ts @ [p]"] show ?thesis
          using CondReturns p None by (simp add: a)
      next
        case (Some m)
        then show ?thesis
          using CondReturns p Cons.prems by (simp add: a)
      qed
    qed
  qed
qed

lemma run_missing_functions_trace_grows:
  "\<exists>evs. trace (result_state1 (run_missing_functions e k ps ts s)) = trace s @ evs"
proof (induction ps arbitrary: ts s)
  case Nil
  then show ?case by simp
next
  case (Cons a rest)
  obtain c f where a: "a = (c, f)" by (cases a)
  have step: "\<exists>evs. trace (result_state1 (run_missing_functions e k rest ts' s')) = trace s @ evs"
    if "\<exists>evs0. trace s' = trace s @ evs0" for ts' s'
  proof -
    from that obtain evs0 where "trace s' = trace s @ evs0" by blast
    moreover from Cons.IH [of ts' s'] obtain evs where
      "trace (result_state1 (run_missing_functions e k rest ts' s')) = trace s' @ evs" by blast
    ultimately have "trace (result_state1 (run_missing_functions e k rest ts' s')) =
      trace s @ (evs0 @ evs)" by simp
    then show ?thesis by blast
  qed
  show ?case
    unfolding a
    by (auto simp: Let_def exception_def split: cond_result.splits option.splits intro!: step)
qed

lemma run_missing_functions_quiet:
  "pl s = Some l0 \<Longrightarrow>
   pl (result_state1 (run_missing_functions e k ps ts s)) = Some l0 \<Longrightarrow>
   run_missing_functions e k ps ts (set_pl None s) =
     map_state1 (set_pl None) (run_missing_functions e k ps ts s)"
proof (induction ps arbitrary: ts s)
  case Nil
  then show ?case by simp
next
  case (Cons a rest)
  obtain c f where a: "a = (c, f)" by (cases a)
  let ?s1 = "s\<lparr>trace := trace s @ [CondCall c k]\<rparr>"
  show ?case
  proof (cases "cond e c k")
    case (CondRaises m)
    let ?s2 = "?s1\<lparr>pl := Some (l0 @ [cond_error k m])\<rparr>"
    have "pl ?s2 = Some (l0 @ [cond_error k m])" by simp
    from run_missing_functions_grows [OF this, of e k rest ts] obtain ents where
      "pl (result_state1 (run_missing_functions e k rest ts ?s2)) =
         Some ((l0 @ [cond_error k m]) @ ents)" by blast
    then have "pl (result_state1 (run_missing_functions e k (a # rest) ts s)) =
         Some (l0 @ (cond_error k m # ents))"
      using CondRaises Cons.prems(1) by (simp add: a exception_def cond_error_def)
    with Cons.prems(2) show ?thesis by simp
  next
    case (CondReturns v)
    have p1: "pl ?s1 = Some l0" using Cons.prems(1) by simp
    show ?thesis
    proof (cases "v = None \<or> v = Some []")
      case True
      then have "pl (result_state1 (run_missing_functions e k rest ts ?s1)) = Some l0"
        using Cons.prems(2) CondReturns by (auto simp: a)
      from Cons.IH [OF p1 this] show ?thesis
        using CondReturns True by (auto simp: a)
    next
      case False
      then obtain p where p: "v = Some p" "p \<noteq> []" by auto
      let ?s2 = "?s1\<lparr>trace := trace ?s1 @ [Found k c f p]\<rparr>"
      show ?thesis
      proof (cases "callback e f p")
        case None
        let ?s3 = "?s2\<lparr>missing := AList.map_entry k (removeAll (c, f)) (missing ?s2)\<rparr>"
        have p3: "pl ?s3 = Some l0" using Cons.prems(1) by simp
        have "pl (result_state1 (run_missing_functions e k rest (ts @ [p]) ?s3)) = Some l0"
          using Cons.prems(2) CondReturns p None by (simp add: a)
        from Cons.IH [OF p3 this] show ?thesis
          using CondReturns p None by (simp add: a)
      next
        case (Some m)
        then show ?thesis
          using CondReturns p by (simp add: a)
      qed
    qed
  qed
qed

lemma run_missing_functions_escapes:
  "pl s = Some l0 \<Longrightarrow>
   pl (result_state1 (run_missing_functions e k ps ts s)) = Some (l0 @ ent # ents) \<Longrightarrow>
   \<exists>t0 evs. run_missing_functions e k ps ts (set_pl None s) =
               Inl (Exn (last (entry_args ent)), t0) \<and> pl t0 = None \<and>
            trace (result_state1 (run_missing_functions e k ps ts s)) = trace t0 @ evs \<and>
            (\<exists>pre ev. trace t0 = pre @ [ev] \<and>
              hook_call e ev = Some (ent, Exn (last (entry_args ent))))"
proof (induction ps arbitrary: ts s)
  case Nil
  then show ?case by simp
next
  case (Cons a rest)
  obtain c f where a: "a = (c, f)" by (cases a)
  let ?s1 = "s\<lparr>trace := trace s @ [CondCall c k]\<rparr>"
  show ?case
  proof (cases "cond e c k")
    case (CondRaises m)
    let ?s2 = "?s1\<lparr>pl := Some (l0 @ [cond_error k m])\<rparr>"
    have p2: "pl ?s2 = Some (l0 @ [cond_error k m])" by simp
    have r: "run_missing_functions e k (a # rest) ts s = run_missing_functions e k rest ts ?s2"
      using CondRaises Cons.prems(1) by (simp add: a exception_def cond_error_def)
    from run_missing_functions_grows [OF p2, of e k rest ts] obtain ents' where
      "pl (result_state1 (run_missing_functions e k rest ts ?s2)) =
         Some ((l0 @ [cond_error k m]) @ ents')" by blast
    with Cons.prems(2) have ent: "ent = cond_error k m"
      unfolding r by simp
    then have m: "last (entry_args ent) = m" by (simp add: cond_error_def)
    have rep: "trace (set_pl None ?s1) = trace s @ [CondCall c k] \<and>
        hook_call e (CondCall c k) = Some (ent, Exn (last (entry_args ent)))"
      using CondRaises ent by (simp add: cond_error_def)
    obtain evs where "trace (result_state1 (run_missing_functions e k rest ts ?s2)) =
        trace ?s2 @ evs"
      using run_missing_functions_trace_grows [of e k rest ts ?s2] by blast
    then have t: "trace (result_state1 (run_missing_functions e k (a # rest) ts s)) =
        trace (set_pl None ?s1) @ evs"
      unfolding r by simp
    have "run_missing_functions e k (a # rest) ts (set_pl None s) =
        Inl (Exn m, set_pl None ?s1)"
      using CondRaises by (simp add: a exception_def)
    with m t rep show ?thesis by (metis set_pl_fields(1))
  next
    case (CondReturns v)
    have p1: "pl ?s1 = Some l0" using Cons.prems(1) by simp
    show ?thesis
    proof (cases "v = None \<or> v = Some []")
      case True
      then have r: "run_missing_functions e k (a # rest) ts s =
          run_missing_functions e k rest ts ?s1"
        and r0: "run_missing_functions e k (a # rest) ts (set_pl None s) =
          run_missing_functions e k rest ts (set_pl None ?s1)"
        using CondReturns by (auto simp: a)
      from Cons.IH [OF p1 Cons.prems(2) [unfolded r]] show ?thesis
        unfolding r r0 .
    next
      case False
      then obtain p where p: "v = Some p" "p \<noteq> []" by auto
      let ?s2 = "?s1\<lparr>trace := trace ?s1 @ [Found k c f p]\<rparr>"
      show ?thesis
      proof (cases "callback e f p")
        case None
        let ?s3 = "?s2\<lparr>missing := AList.map_entry k (removeAll (c, f)) (missing ?s2)\<rparr>"
        have p3: "pl ?s3 = Some l0" using Cons.prems(1) by simp
        have r: "run_missing_functions e k (a # rest) ts s =
            run_missing_functions e k rest (ts @ [p]) ?s3"
          and r0: "run_missing_functions e k (a # rest) ts (set_pl None s) =
            run_missing_functions e k rest (ts @ [p]) (set_pl None ?s3)"
          using CondReturns p None by (simp_all add: a)
        from Cons.IH [OF p3 Cons.prems(2) [unfolded r]] show ?thesis
          unfolding r r0 .
      next
        case (Some m)
        then have "run_missing_functions e k (a # rest) ts s = Inl (Exn m, ?s2)"
          using CondReturns p by (simp add: a)
        with Cons.prems show ?thesis by simp
      qed
    qed
  qed
qed

lemma run_missing_Cons:
  "run_missing e ((k, x) # items) ts s =
     (case run_missing_functions e k (functions_of (missing s) k) ts s of
        Inl r \<Rightarrow> Inl r
      | Inr (ts1, s1) \<Rightarrow> run_missing e items ts1 (pop_if_empty k s1))"
  by (simp add: pop_if_empty_def split: sum.splits prod.splits)

lemma pop_if_empty_set_pl: "pop_if_empty k (set_pl x s) = set_pl x (pop_if_empty k s)"
  by (simp add: pop_if_empty_def)

lemma run_missing_grows:
  "pl s = Some l0 \<Longrightarrow> \<exists>ents. pl (result_state1 (run_missing e items ts s)) = Some (l0 @ ents)"
proof (induction items arbitrary: ts s l0)
  case Nil
  then show ?case by simp
next
  case (Cons a items)
  obtain k x where a: "a = (k, x)" by (cases a)
  let ?r = "run_missing_functions e k (functions_of (missing s) k) ts s"
  obtain e1 where e1: "pl (result_state1 ?r) = Some (l0 @ e1)"
    using run_missing_functions_grows [OF Cons.prems] by blast
  show ?case
  proof (cases ?r)
    case (Inl r)
    then show ?thesis using e1 by (cases r) (auto simp: a run_missing_Cons simp del: run_missing.simps)
  next
    case (Inr r)
    obtain ts1 s1 where r: "r = (ts1, s1)" by (cases r)
    have "pl (pop_if_empty k s1) = Some (l0 @ e1)"
      using e1 Inr r by (simp add: pop_if_empty_fields)
    from Cons.IH [OF this, of ts1] obtain e2 where
      "pl (result_state1 (run_missing e items ts1 (pop_if_empty k s1))) = Some ((l0 @ e1) @ e2)"
      by blast
    then have "pl (result_state1 (run_missing e (a # items) ts s)) = Some (l0 @ (e1 @ e2))"
      using Inr r by (simp add: a run_missing_Cons del: run_missing.simps)
    then show ?thesis by blast
  qed
qed

lemma run_missing_trace_grows:
  "\<exists>evs. trace (result_state1 (run_missing e items ts s)) = trace s @ evs"
proof (induction items arbitrary: ts s)
  case Nil
  then show ?case by simp
next
  case (Cons a items)
  obtain k x where a: "a = (k, x)" by (cases a)
  let ?r = "run_missing_functions e k (functions_of (missing s) k) ts s"
  obtain e1 where e1: "trace (result_state1 ?r) = trace s @ e1"
    using run_missing_functions_trace_grows by blast
  show ?case
  proof (cases ?r)
    case (Inl r)
    then show ?thesis using e1 by (cases r) (auto simp: a run_missing_Cons simp del: run_missing.simps)
  next
    case (Inr r)
    obtain ts1 s1 where r: "r = (ts1, s1)" by (cases r)
    obtain e2 where
      "trace (result_state1 (run_missing e items ts1 (pop_if_empty k s1))) =
         trace (pop_if_empty k s1) @ e2"
      using Cons.IH by blast
    then have "trace (result_state1 (run_missing e (a # items) ts s)) = trace s @ (e1 @ e2)"
      using Inr r e1 by (simp add: a run_missing_Cons pop_if_empty_fields del: run_missing.simps)
    then show ?thesis by blast
  qed
qed

lemma run_missing_quiet:
  "pl s = Some l0 \<Longrightarrow> pl (result_state1 (run_missing e items ts s)) = Some l0 \<Longrightarrow>
   run_missing e items ts (set_pl None s) = map_state1 (set_pl None) (run_missing e items ts s)"
proof (induction items arbitrary: ts s)
  case Nil
  then show ?case by simp
next
  case (Cons a items)
  obtain k x where a: "a = (k, x)" by (cases a)
  let ?r = "run_missing_functions e k (functions_of (missing s) k) ts s"
  obtain e1 where e1: "pl (result_state1 ?r) = Some (l0 @ e1)"
    using run_missing_functions_grows [OF Cons.prems(1)] by blast
  show ?case
  proof (cases ?r)
    case (Inl r)
    obtain y t where r: "r = (y, t)" by (cases r)
    have "pl (result_state1 ?r) = Some l0"
      using Cons.prems(2) Inl r by (simp add: a run_missing_Cons del: run_missing.simps)
    from run_missing_functions_quiet [OF Cons.prems(1) this] show ?thesis
      using Inl r by (simp add: a run_missing_Cons del: run_missing.simps)
  next
    case (Inr r)
    obtain ts1 s1 where r: "r = (ts1, s1)" by (cases r)
    have p1: "pl (pop_if_empty k s1) = Some (l0 @ e1)"
      using e1 Inr r by (simp add: pop_if_empty_fields)
    obtain e2 where
      "pl (result_state1 (run_missing e items ts1 (pop_if_empty k s1))) = Some ((l0 @ e1) @ e2)"
      using run_missing_grows [OF p1] by blast
    then have "e1 = []"
      using Cons.prems(2) Inr r by (simp add: a run_missing_Cons del: run_missing.simps)
    then have q1: "pl (result_state1 ?r) = Some l0" and p1': "pl (pop_if_empty k s1) = Some l0"
      using e1 p1 by simp_all
    have q2: "pl (result_state1 (run_missing e items ts1 (pop_if_empty k s1))) = Some l0"
      using Cons.prems(2) Inr r by (simp add: a run_missing_Cons del: run_missing.simps)
    show ?thesis
      using run_missing_functions_quiet [OF Cons.prems(1) q1] Cons.IH [OF p1' q2] Inr r
      by (simp add: a run_missing_Cons pop_if_empty_set_pl del: run_missing.simps)
  qed
qed

lemma run_missing_escapes:
  "pl s = Some l0 \<Longrightarrow>
   pl (result_state1 (run_missing e items ts s)) = Some (l0 @ ent # ents) \<Longrightarrow>
   \<exists>t0 evs. run_missing e items ts (set_pl None s) = Inl (Exn (last (entry_args ent)), t0) \<and>
            pl t0 = None \<and>
            trace (result_state1 (run_missing e items ts s)) = trace t0 @ evs \<and>
            (\<exists>pre ev. trace t0 = pre @ [ev] \<and>
              hook_call e ev = Some (ent, Exn (last (entry_args ent))))"
proof (induction items arbitrary: ts s)
  case Nil
  then show ?case by simp
next
  case (Cons a items)
  obtain k x where a: "a = (k, x)" by (cases a)
  let ?r = "run_missing_functions e k (functions_of (missing s) k) ts s"
  obtain e1 where e1: "pl (result_state1 ?r) = Some (l0 @ e1)"
    using run_missing_functions_grows [OF Cons.prems(1)] by blast
  show ?case
  proof (cases ?r)
    case (Inl r)
    obtain y t where r: "r = (y, t)" by (cases r)
    have whole: "run_missing e (a # items) ts s = ?r"
      using Inl by (simp add: a run_missing_Cons del: run_missing.simps)
    have "pl (result_state1 ?r) = Some (l0 @ ent # ents)"
      using Cons.prems(2) unfolding whole .
    from run_missing_functions_escapes [OF Cons.prems(1) this] show ?thesis
      unfolding whole by (auto simp: a run_missing_Cons simp del: run_missing.simps)
  next
    case (Inr r)
    obtain ts1 s1 where r: "r = (ts1, s1)" by (cases r)
    have whole: "run_missing e (a # items) ts s = run_missing e items ts1 (pop_if_empty k s1)"
      using Inr r by (simp add: a run_missing_Cons del: run_missing.simps)
    have p1: "pl (pop_if_empty k s1) = Some (l0 @ e1)"
      using e1 Inr r by (simp add: pop_if_empty_fields)
    obtain e2 where e2:
      "pl (result_state1 (run_missing e items ts1 (pop_if_empty k s1))) = Some ((l0 @ e1) @ e2)"
      using run_missing_grows [OF p1] by blast
    obtain evs2 where evs2:
      "trace (result_state1 (run_missing e items ts1 (pop_if_empty k s1))) = trace s1 @ evs2"
      using run_missing_trace_grows [of e items ts1 "pop_if_empty k s1"]
      by (auto simp: pop_if_empty_fields)
    show ?thesis
    proof (cases e1)
      case Nil
      then have q1: "pl (result_state1 ?r) = Some l0" and p1': "pl (pop_if_empty k s1) = Some l0"
        using e1 p1 by simp_all
      have step: "run_missing_functions e k (functions_of (missing s) k) ts (set_pl None s) =
          Inr (ts1, set_pl None s1)"
        using run_missing_functions_quiet [OF Cons.prems(1) q1] Inr r by simp
      have "run_missing e (a # items) ts (set_pl None s) =
          run_missing e items ts1 (set_pl None (pop_if_empty k s1))"
        using step by (simp add: a run_missing_Cons pop_if_empty_set_pl del: run_missing.simps)
      with Cons.IH [OF p1' Cons.prems(2) [unfolded whole]] show ?thesis
        unfolding whole by simp
    next
      case (Cons ent' ents')
      then have "ent' = ent"
        using e2 Cons.prems(2) unfolding whole by simp
      then have "pl (result_state1 ?r) = Some (l0 @ ent # ents')"
        using e1 Cons by simp
      from run_missing_functions_escapes [OF Cons.prems(1) this] obtain t0 evs where
        t0: "run_missing_functions e k (functions_of (missing s) k) ts (set_pl None s) =
               Inl (Exn (last (entry_args ent)), t0)" "pl t0 = None"
            "trace (result_state1 ?r) = trace t0 @ evs"
            "\<exists>pre ev. trace t0 = pre @ [ev] \<and>
              hook_call e ev = Some (ent, Exn (last (entry_args ent)))"
        by blast
      have "run_missing e (a # items) ts (set_pl None s) = Inl (Exn (last (entry_args ent)), t0)"
        using t0(1) by (simp add: a run_missing_Cons del: run_missing.simps)
      moreover have "trace (result_state1 (run_missing e (a # items) ts s)) =
          trace t0 @ (evs @ evs2)"
        unfolding whole evs2 using t0(3) Inr r by simp
      ultimately show ?thesis using t0(2) t0(4) by blast
    qed
  qed
qed

lemma run_toload_grows:
  "pl s = Some l0 \<Longrightarrow> \<exists>ents. pl (result_state (run_toload e ts s)) = Some (l0 @ ents)"
proof (induction ts arbitrary: s l0)
  case Nil
  then show ?case by simp
next
  case (Cons p ts)
  let ?s1 = "s\<lparr>trace := trace s @ [LoadCall p]\<rparr>"
  show ?case
  proof (cases "loader e p")
    case (Inr v)
    have "pl (?s1\<lparr>loaded := (loaded ?s1)(p \<mapsto> v)\<rparr>) = Some l0" using Cons.prems by simp
    from Cons.IH [OF this] show ?thesis using Inr by simp
  next
    case (Inl m)
    let ?s2 = "?s1\<lparr>pl := Some (l0 @ [load_error p m])\<rparr>"
    have "pl ?s2 = Some (l0 @ [load_error p m])" by simp
    from Cons.IH [OF this] obtain ents where
      "pl (result_state (run_toload e ts ?s2)) = Some ((l0 @ [load_error p m]) @ ents)" by blast
    then have "pl (result_state (run_toload e (p # ts) s)) = Some (l0 @ (load_error p m # ents))"
      using Inl Cons.prems by (simp add: exception_def load_error_def)
    then show ?thesis by blast
  qed
qed

lemma run_toload_trace_grows:
  "\<exists>evs. trace (result_state (run_toload e ts s)) = trace s @ evs"
proof (induction ts arbitrary: s)
  case Nil
  then show ?case by simp
next
  case (Cons p ts)
  have step: "\<exists>evs. trace (result_state (run_toload e ts s')) = trace s @ evs"
    if "\<exists>evs0. trace s' = trace s @ evs0" for s'
  proof -
    from that obtain evs0 where "trace s' = trace s @ evs0" by blast
    moreover from Cons.IH [of s'] obtain evs where
      "trace (result_state (run_toload e ts s')) = trace s' @ evs" by blast
    ultimately have "trace (result_state (run_toload e ts s')) = trace s @ (evs0 @ evs)" by simp
    then show ?thesis by blast
  qed
  show ?case
    by (auto simp: Let_def exception_def split: sum.splits option.splits intro!: step)
qed

lemma run_toload_quiet:
  "pl s = Some l0 \<Longrightarrow> pl (result_state (run_toload e ts s)) = Some l0 \<Longrightarrow>
   run_toload e ts (set_pl None s) = map_state (set_pl None) (run_toload e ts s)"
proof (induction ts arbitrary: s)
  case Nil
  then show ?case by simp
next
  case (Cons p ts)
  let ?s1 = "s\<lparr>trace := trace s @ [LoadCall p]\<rparr>"
  show ?case
  proof (cases "loader e p")
    case (Inr v)
    let ?s2 = "?s1\<lparr>loaded := (loaded ?s1)(p \<mapsto> v)\<rparr>"
    have p2: "pl ?s2 = Some l0" using Cons.prems(1) by simp
    have "pl (result_state (run_toload e ts ?s2)) = Some l0"
      using Cons.prems(2) Inr by simp
    from Cons.IH [OF p2 this] show ?thesis using Inr by simp
  next
    case (Inl m)
    let ?s2 = "?s1\<lparr>pl := Some (l0 @ [load_error p m])\<rparr>"
    have "pl ?s2 = Some (l0 @ [load_error p m])" by simp
    from run_toload_grows [OF this, of e ts] obtain ents where
      "pl (result_state (run_toload e ts ?s2)) = Some ((l0 @ [load_error p m]) @ ents)" by blast
    then have "pl (result_state (run_toload e (p # ts) s)) = Some (l0 @ (load_error p m # ents))"
      using Inl Cons.prems(1) by (simp add: exception_def load_error_def)
    with Cons.prems(2) show ?thesis by simp
  qed
qed

lemma run_toload_escapes:
  "pl s = Some l0 \<Longrightarrow> pl (result_state (run_toload e ts s)) = Some (l0 @ ent # ents) \<Longrightarrow>
   \<exists>t0 evs. run_toload e ts (set_pl None s) = Inl (Exn (last (entry_args ent)), t0) \<and>
            pl t0 = None \<and> trace (result_state (run_toload e ts s)) = trace t0 @ evs \<and>
            (\<exists>pre ev. trace t0 = pre @ [ev] \<and>
              hook_call e ev = Some (ent, Exn (last (entry_args ent))))"
proof (induction ts arbitrary: s)
  case Nil
  then show ?case by simp
next
  case (Cons p ts)
  let ?s1 = "s\<lparr>trace := trace s @ [LoadCall p]\<rparr>"
  show ?case
  proof (cases "loader e p")
    case (Inr v)
    let ?s2 = "?s1\<lparr>loaded := (loaded ?s1)(p \<mapsto> v)\<rparr>"
    have p2: "pl ?s2 = Some l0" using Cons.prems(1) by simp
    have r: "run_toload e (p # ts) s = run_toload e ts ?s2"
      and r0: "run_toload e (p # ts) (set_pl None s) = run_toload e ts (set_pl None ?s2)"
      using Inr by simp_all
    from Cons.IH [OF p2 Cons.prems(2) [unfolded r]] show ?thesis
      unfolding r r0 .
  next
    case (Inl m)
    let ?s2 = "?s1\<lparr>pl := Some (l0 @ [load_error p m])\<rparr>"
    have p2: "pl ?s2 = Some (l0 @ [load_error p m])" by simp
    have r: "run_toload e (p # ts) s = run_toload e ts ?s2"
      using Inl Cons.prems(1) by (simp add: exception_def load_error_def)
    from run_toload_grows [OF p2, of e ts] obtain ents' where
      "pl (result_state (run_toload e ts ?s2)) = Some ((l0 @ [load_error p m]) @ ents')" by blast
    with Cons.prems(2) have ent: "ent = load_error p m"
      unfolding r by simp
    then have m: "last (entry_args ent) = m" by (simp add: load_error_def)
    have rep: "trace (set_pl None ?s1) = trace s @ [LoadCall p] \<and>
        hook_call e (LoadCall p) = Some (ent, Exn (last (entry_args ent)))"
      using Inl ent by (simp add: load_error_def)
    obtain evs where "trace (result_state (run_toload e ts ?s2)) = trace ?s2 @ evs"
      using run_toload_trace_grows [of e ts ?s2] by blast
    then have t: "trace (result_state (run_toload e (p # ts) s)) = trace (set_pl None ?s1) @ evs"
      unfolding r by simp
    have "run_toload e (p # ts) (set_pl None s) = Inl (Exn m, set_pl None ?s1)"
      using Inl by (simp add: exception_def)
    with m t rep show ?thesis by (metis set_pl_fields(1))
  qed
qed

lemma run_body_phases:
  obtains
    (notify) x s1 where
      "run_watched e (watched s) [] (s\<lparr>watcher := touch (modified e) (watcher s)\<rparr>) = Inl (x, s1)"
      "run_body e s = Inl (x, s1)"
  | (resolve) ts1 s1 x s2 where
      "run_watched e (watched s) [] (s\<lparr>watcher := touch (modified e) (watcher s)\<rparr>) =
         Inr (ts1, s1)"
      "run_missing e (missing s1) ts1 s1 = Inl (x, s2)"
      "run_body e s = Inl (x, s2)"
  | (reload_raises) ts1 s1 ts2 s2 x s3 where
      "run_watched e (watched s) [] (s\<lparr>watcher := touch (modified e) (watcher s)\<rparr>) =
         Inr (ts1, s1)"
      "run_missing e (missing s1) ts1 s1 = Inr (ts2, s2)"
      "run_toload e ts2 s2 = Inl (x, s3)"
      "run_body e s = Inl (x, s3)"
  | (returns) ts1 s1 ts2 s2 s3 where
      "run_watched e (watched s) [] (s\<lparr>watcher := touch (modified e) (watcher s)\<rparr>) =
         Inr (ts1, s1)"
      "run_missing e (missing s1) ts1 s1 = Inr (ts2, s2)"
      "run_toload e ts2 s2 = Inr s3"
      "run_body e s = Inr (s3\<lparr>clock := clock s3 + duration e\<rparr>)"
proof -
  let ?s0 = "s\<lparr>watcher := touch (modified e) (watcher s)\<rparr>"
  show ?thesis
  proof (cases "run_watched e (watched s) [] ?s0")
    case (Inl r)
    obtain x s1 where "r = (x, s1)" by (cases r)
    with Inl show ?thesis by (intro notify [of x s1]) (simp_all add: run_body_def)
  next
    case (Inr r)
    obtain ts1 s1 where r: "r = (ts1, s1)" by (cases r)
    show ?thesis
    proof (cases "run_missing e (missing s1) ts1 s1")
      case (Inl r2)
      obtain x s2 where "r2 = (x, s2)" by (cases r2)
      with Inl Inr r show ?thesis
        by (intro resolve [of ts1 s1 x s2]) (simp_all add: run_body_def)
    next
      case Inr2: (Inr r2)
      obtain ts2 s2 where r2: "r2 = (ts2, s2)" by (cases r2)
      show ?thesis
      proof (cases "run_toload e ts2 s2")
        case (Inl r3)
        obtain x s3 where "r3 = (x, s3)" by (cases r3)
        with Inl Inr r Inr2 r2 show ?thesis
          by (intro reload_raises [of ts1 s1 ts2 s2 x s3]) (simp_all add: run_body_def)
      next
        case Inr3: (Inr s3)
        with Inr r Inr2 r2 show ?thesis
          by (intro returns [of ts1 s1 ts2 s2 s3]) (simp_all add: run_body_def)
      qed
    qed
  qed
qed

lemma run_watched_pl:
  "pl (result_state1 (run_watched e items ts s)) = pl s"
proof (cases "run_watched e items ts s")
  case (Inl r)
  then show ?thesis using run_watched_frame [of e items ts s _ "snd r" "fst r"] by (cases r) simp
next
  case (Inr r)
  then show ?thesis using run_watched_frame [of e items ts s "fst r" "snd r"] by (cases r) simp
qed

lemma run_watched_trace_grows:
  "\<exists>evs. trace (result_state1 (run_watched e items ts s)) = trace s @ evs"
proof (cases "run_watched e items ts s")
  case (Inl r)
  then show ?thesis using run_watched_trace [of e items ts s _ "snd r" "fst r"]
    by (cases r) auto
next
  case (Inr r)
  then show ?thesis using run_watched_trace [of e items ts s "fst r" "snd r"]
    by (cases r) auto
qed

lemma run_body_grows:
  assumes "pl s = Some l0"
  shows "\<exists>ents. pl (result_state (run_body e s)) = Some (l0 @ ents)"
proof -
  let ?s0 = "s\<lparr>watcher := touch (modified e) (watcher s)\<rparr>"
  have w: "pl (result_state1 (run_watched e (watched s) [] ?s0)) = Some l0"
    using assms by (simp add: run_watched_pl)
  show ?thesis
  proof (cases rule: run_body_phases [of e s])
    case (notify x s1)
    with w show ?thesis by simp
  next
    case (resolve ts1 s1 x s2)
    with w have "pl s1 = Some l0" by simp
    from run_missing_grows [OF this, of e "missing s1" ts1] resolve show ?thesis by simp
  next
    case (reload_raises ts1 s1 ts2 s2 x s3)
    with w have "pl s1 = Some l0" by simp
    from run_missing_grows [OF this, of e "missing s1" ts1] reload_raises
    obtain e1 where e1: "pl s2 = Some (l0 @ e1)" by auto
    from run_toload_grows [OF e1, of e ts2] reload_raises
    obtain e2 where "pl s3 = Some ((l0 @ e1) @ e2)" by auto
    then have "pl (result_state (run_body e s)) = Some (l0 @ (e1 @ e2))"
      using reload_raises by simp
    then show ?thesis by blast
  next
    case (returns ts1 s1 ts2 s2 s3)
    with w have "pl s1 = Some l0" by simp
    from run_missing_grows [OF this, of e "missing s1" ts1] returns
    obtain e1 where e1: "pl s2 = Some (l0 @ e1)" by auto
    from run_toload_grows [OF e1, of e ts2] returns
    obtain e2 where "pl s3 = Some ((l0 @ e1) @ e2)" by auto
    then have "pl (result_state (run_body e s)) = Some (l0 @ (e1 @ e2))"
      using returns by simp
    then show ?thesis by blast
  qed
qed

lemma run_body_trace_grows:
  "\<exists>evs. trace (result_state (run_body e s)) = trace s @ evs"
proof -
  let ?s0 = "s\<lparr>watcher := touch (modified e) (watcher s)\<rparr>"
  obtain evs0 where w: "trace (result_state1 (run_watched e (watched s) [] ?s0)) = trace s @ evs0"
    using run_watched_trace_grows [of e "watched s" "[]" ?s0] by auto
  show ?thesis
  proof (cases rule: run_body_phases [of e s])
    case (notify x s1)
    with w show ?thesis by simp
  next
    case (resolve ts1 s1 x s2)
    with w have "trace s1 = trace s @ evs0" by simp
    moreover from run_missing_trace_grows [of e "missing s1" ts1 s1] resolve
    obtain evs1 where "trace s2 = trace s1 @ evs1" by auto
    ultimately have "trace (result_state (run_body e s)) = trace s @ (evs0 @ evs1)"
      using resolve by simp
    then show ?thesis by blast
  next
    case (reload_raises ts1 s1 ts2 s2 x s3)
    with w have "trace s1 = trace s @ evs0" by simp
    moreover from run_missing_trace_grows [of e "missing s1" ts1 s1] reload_raises
    obtain evs1 where "trace s2 = trace s1 @ evs1" by auto
    moreover from run_toload_trace_grows [of e ts2 s2] reload_raises
    obtain evs2 where "trace s3 = trace s2 @ evs2" by auto
    ultimately have "trace (result_state (run_body e s)) = trace s @ (evs0 @ evs1 @ evs2)"
      using reload_raises by simp
    then show ?thesis by blast
  next
    case (returns ts1 s1 ts2 s2 s3)
    with w have "trace s1 = trace s @ evs0" by simp
    moreover from run_missing_trace_grows [of e "missing s1" ts1 s1] returns
    obtain evs1 where "trace s2 = trace s1 @ evs1" by auto
    moreover from run_toload_trace_grows [of e ts2 s2] returns
    obtain evs2 where "trace s3 = trace s2 @ evs2" by auto
    ultimately have "trace (result_state (run_body e s)) = trace s @ (evs0 @ evs1 @ evs2)"
      using returns by simp
    then show ?thesis by blast
  qed
qed

lemma run_body_set_pl_start:
  "run_body e (set_pl x s) =
     (case map_state1 (set_pl x)
             (run_watched e (watched s) [] (s\<lparr>watcher := touch (modified e) (watcher s)\<rparr>)) of
        Inl r \<Rightarrow> Inl r
      | Inr (ts1, s1) \<Rightarrow>
          (case run_missing e (missing s1) ts1 s1 of
             Inl r \<Rightarrow> Inl r
           | Inr (ts2, s2) \<Rightarrow>
               (case run_toload e ts2 s2 of
                  Inl r \<Rightarrow> Inl r
                | Inr s3 \<Rightarrow> Inr (s3\<lparr>clock := clock s3 + duration e\<rparr>))))"
proof -
  have "(set_pl x s)\<lparr>watcher := touch (modified e) (watcher (set_pl x s))\<rparr> =
      set_pl x (s\<lparr>watcher := touch (modified e) (watcher s)\<rparr>)" by simp
  then show ?thesis
    unfolding run_body_def Let_def by (simp add: run_watched_set_pl)
qed

lemma run_body_quiet:
  assumes "pl s = Some l0" and "pl (result_state (run_body e s)) = Some l0"
  shows "run_body e (set_pl None s) = map_state (set_pl None) (run_body e s)"
proof -
  let ?s0 = "s\<lparr>watcher := touch (modified e) (watcher s)\<rparr>"
  have w: "pl (result_state1 (run_watched e (watched s) [] ?s0)) = Some l0"
    using assms(1) by (simp add: run_watched_pl)
  show ?thesis
  proof (cases rule: run_body_phases [of e s])
    case (notify x s1)
    then show ?thesis by (simp add: run_body_set_pl_start)
  next
    case (resolve ts1 s1 x s2)
    with w have p1: "pl s1 = Some l0" by simp
    have "pl (result_state1 (run_missing e (missing s1) ts1 s1)) = Some l0"
      using assms(2) resolve by simp
    from run_missing_quiet [OF p1 this] resolve show ?thesis
      by (simp add: run_body_set_pl_start)
  next
    case (reload_raises ts1 s1 ts2 s2 x s3)
    with w have p1: "pl s1 = Some l0" by simp
    from run_missing_grows [OF p1, of e "missing s1" ts1] reload_raises
    obtain e1 where e1: "pl s2 = Some (l0 @ e1)" by auto
    from run_toload_grows [OF e1, of e ts2] reload_raises
    obtain e2 where "pl s3 = Some ((l0 @ e1) @ e2)" by auto
    with assms(2) reload_raises have "e1 = []" by simp
    with e1 have p2: "pl s2 = Some l0" by simp
    then have q1: "pl (result_state1 (run_missing e (missing s1) ts1 s1)) = Some l0"
      using reload_raises by simp
    have q2: "pl (result_state (run_toload e ts2 s2)) = Some l0"
      using assms(2) reload_raises by simp
    from run_missing_quiet [OF p1 q1] run_toload_quiet [OF p2 q2] reload_raises show ?thesis
      by (simp add: run_body_set_pl_start)
  next
    case (returns ts1 s1 ts2 s2 s3)
    with w have p1: "pl s1 = Some l0" by simp
    from run_missing_grows [OF p1, of e "missing s1" ts1] returns
    obtain e1 where e1: "pl s2 = Some (l0 @ e1)" by auto
    from run_toload_grows [OF e1, of e ts2] returns
    obtain e2 where "pl s3 = Some ((l0 @ e1) @ e2)" by auto
    with assms(2) returns have "e1 = []" by simp
    with e1 have p2: "pl s2 = Some l0" by simp
    then have q1: "pl (result_state1 (run_missing e (missing s1) ts1 s1)) = Some l0"
      using returns by simp
    have q2: "pl (result_state (run_toload e ts2 s2)) = Some l0"
      using assms(2) returns by simp
    from run_missing_quiet [OF p1 q1] run_toload_quiet [OF p2 q2] returns show ?thesis
      by (simp add: run_body_set_pl_start)
  qed
qed

lemma run_body_escapes:
  assumes "pl s = Some l0" and "pl (result_state (run_body e s)) = Some (l0 @ ent # ents)"
  shows "\<exists>t0 evs. run_body e (set_pl None s) = Inl (Exn (last (entry_args ent)), t0) \<and>
           pl t0 = None \<and> trace (result_state (run_body e s)) = trace t0 @ evs \<and>
           (\<exists>pre ev. trace t0 = pre @ [ev] \<and>
             hook_call e ev = Some (ent, Exn (last (entry_args ent))))"
proof -
  let ?s0 = "s\<lparr>watcher := touch (modified e) (watcher s)\<rparr>"
  have w: "pl (result_state1 (run_watched e (watched s) [] ?s0)) = Some l0"
    using assms(1) by (simp add: run_watched_pl)
  have later: ?thesis
    if rw: "run_watched e (watched s) [] ?s0 = Inr (ts1, s1)"
      and rm: "run_missing e (missing s1) ts1 s1 = Inr (ts2, s2)"
      and st: "pl (result_state (run_toload e ts2 s2)) = Some (l0 @ ent # ents)"
      and tr: "trace (result_state (run_body e s)) = trace (result_state (run_toload e ts2 s2))"
    for ts1 s1 ts2 s2
  proof -
    from w rw have p1: "pl s1 = Some l0" by simp
    from run_missing_grows [OF p1, of e "missing s1" ts1] rm
    obtain e1 where e1: "pl s2 = Some (l0 @ e1)" by auto
    from run_toload_grows [OF e1, of e ts2]
    obtain e2 where e2: "pl (result_state (run_toload e ts2 s2)) = Some ((l0 @ e1) @ e2)"
      by auto
    obtain evs2 where evs2: "trace (result_state (run_toload e ts2 s2)) = trace s2 @ evs2"
      using run_toload_trace_grows [of e ts2 s2] by blast
    show ?thesis
    proof (cases e1)
      case Nil
      with e1 have p2: "pl s2 = Some l0" by simp
      then have q1: "pl (result_state1 (run_missing e (missing s1) ts1 s1)) = Some l0"
        using rm by simp
      from run_toload_escapes [OF p2 st] obtain t0 evs where
        t0: "run_toload e ts2 (set_pl None s2) = Inl (Exn (last (entry_args ent)), t0)"
            "pl t0 = None" "trace (result_state (run_toload e ts2 s2)) = trace t0 @ evs"
            "\<exists>pre ev. trace t0 = pre @ [ev] \<and>
              hook_call e ev = Some (ent, Exn (last (entry_args ent)))"
        by blast
      have "run_body e (set_pl None s) = Inl (Exn (last (entry_args ent)), t0)"
        using run_missing_quiet [OF p1 q1] rw rm t0(1) by (simp add: run_body_set_pl_start)
      with t0 tr show ?thesis by auto
    next
      case (Cons ent' ents')
      with e2 st have "ent' = ent" by simp
      with e1 Cons have "pl (result_state1 (run_missing e (missing s1) ts1 s1)) =
          Some (l0 @ ent # ents')"
        using rm by simp
      from run_missing_escapes [OF p1 this] obtain t0 evs where
        t0: "run_missing e (missing s1) ts1 (set_pl None s1) =
               Inl (Exn (last (entry_args ent)), t0)"
            "pl t0 = None"
            "trace (result_state1 (run_missing e (missing s1) ts1 s1)) = trace t0 @ evs"
            "\<exists>pre ev. trace t0 = pre @ [ev] \<and>
              hook_call e ev = Some (ent, Exn (last (entry_args ent)))"
        by blast
      have "run_body e (set_pl None s) = Inl (Exn (last (entry_args ent)), t0)"
        using rw t0(1) by (simp add: run_body_set_pl_start)
      moreover have "trace (result_state (run_body e s)) = trace t0 @ (evs @ evs2)"
        using tr evs2 t0(3) rm by simp
      ultimately show ?thesis using t0(2) t0(4) by blast
    qed
  qed
  show ?thesis
  proof (cases rule: run_body_phases [of e s])
    case (notify x s1)
    with w assms(2) show ?thesis by simp
  next
    case (resolve ts1 s1 x s2)
    with w have p1: "pl s1 = Some l0" by simp
    have "pl (result_state1 (run_missing e (missing s1) ts1 s1)) = Some (l0 @ ent # ents)"
      using assms(2) resolve by simp
    from run_missing_escapes [OF p1 this] obtain t0 evs where
      t0: "run_missing e (missing s1) ts1 (set_pl None s1) =
             Inl (Exn (last (entry_args ent)), t0)"
          "pl t0 = None"
          "trace (result_state1 (run_missing e (missing s1) ts1 s1)) = trace t0 @ evs"
          "\<exists>pre ev. trace t0 = pre @ [ev] \<and>
            hook_call e ev = Some (ent, Exn (last (entry_args ent)))"
      by blast
    have "run_body e (set_pl None s) = Inl (Exn (last (entry_args ent)), t0)"
      using resolve(1) t0(1) by (simp add: run_body_set_pl_start)
    moreover have "trace (result_state (run_body e s)) = trace t0 @ evs"
      using t0(3) resolve by simp
    ultimately show ?thesis using t0(2) t0(4) by blast
  next
    case (reload_raises ts1 s1 ts2 s2 x s3)
    show ?thesis
      by (rule later [OF reload_raises(1) reload_raises(2)])
         (use assms(2) reload_raises in simp_all)
  next
    case (returns ts1 s1 ts2 s2 s3)
    show ?thesis
      by (rule later [OF returns(1) returns(2)]) (use assms(2) returns in simp_all)
  qed
qed

lemma wait_set_pl: "wait i (set_pl x s) = set_pl x (wait i s)"
  by (simp add: wait_def split: option.splits)

lemma wait_pl_trace: "pl (wait i s) = pl s" "trace (wait i s) = trace s"
  by (simp_all add: wait_def split: option.splits)

lemma is_set_set_pl: "is_set (set_pl x s) = is_set s"
  by (simp add: is_set_def split: option.splits)

lemma run_grows:
  "pl s = Some l0 \<Longrightarrow> \<exists>ents. pl (outcome_state (run es s)) = Some (l0 @ ents)"
proof (induction es arbitrary: s l0)
  case Nil
  then show ?case by (simp split: option.splits)
next
  case (Cons e es)
  show ?case
  proof (cases "interval s = None \<or> is_set s")
    case True
    then show ?thesis using Cons.prems by (auto split: option.splits)
  next
    case False
    then obtain i where i: "interval s = Some i" "\<not> is_set s" by auto
    obtain e1 where e1: "pl (result_state (run_body e s)) = Some (l0 @ e1)"
      using run_body_grows [OF Cons.prems] by blast
    show ?thesis
    proof (cases "run_body e s")
      case (Inl r)
      then show ?thesis using i e1 by (cases r) auto
    next
      case (Inr s1)
      with e1 have "pl (wait i s1) = Some (l0 @ e1)" by (simp add: wait_pl_trace)
      from Cons.IH [OF this] obtain e2 where
        "pl (outcome_state (run es (wait i s1))) = Some ((l0 @ e1) @ e2)" by blast
      then have "pl (outcome_state (run (e # es) s)) = Some (l0 @ (e1 @ e2))"
        using i Inr by simp
      then show ?thesis by blast
    qed
  qed
qed

lemma run_trace_grows:
  "\<exists>evs. trace (outcome_state (run es s)) = trace s @ evs"
proof (induction es arbitrary: s)
  case Nil
  then show ?case by (simp split: option.splits)
next
  case (Cons e es)
  show ?case
  proof (cases "interval s = None \<or> is_set s")
    case True
    then show ?thesis by (auto split: option.splits)
  next
    case False
    then obtain i where i: "interval s = Some i" "\<not> is_set s" by auto
    obtain evs1 where e1: "trace (result_state (run_body e s)) = trace s @ evs1"
      using run_body_trace_grows by blast
    show ?thesis
    proof (cases "run_body e s")
      case (Inl r)
      then show ?thesis using i e1 by (cases r) auto
    next
      case (Inr s1)
      from Cons.IH [of "wait i s1"] obtain evs2 where
        "trace (outcome_state (run es (wait i s1))) = trace (wait i s1) @ evs2" by blast
      then have "trace (outcome_state (run (e # es) s)) = trace s @ (evs1 @ evs2)"
        using i Inr e1 by (simp add: wait_pl_trace)
      then show ?thesis by blast
    qed
  qed
qed

lemma run_quiet:
  "pl s = Some l0 \<Longrightarrow> pl (outcome_state (run es s)) = Some l0 \<Longrightarrow>
   run es (set_pl None s) = map_outcome (set_pl None) (run es s)"
proof (induction es arbitrary: s)
  case Nil
  then show ?case by (simp add: is_set_set_pl split: option.splits)
next
  case (Cons e es)
  show ?case
  proof (cases "interval s = None \<or> is_set s")
    case True
    then show ?thesis by (auto simp: is_set_set_pl split: option.splits)
  next
    case False
    then obtain i where i: "interval s = Some i" "\<not> is_set s" by auto
    obtain e1 where e1: "pl (result_state (run_body e s)) = Some (l0 @ e1)"
      using run_body_grows [OF Cons.prems(1)] by blast
    show ?thesis
    proof (cases "run_body e s")
      case (Inl r)
      obtain x t where r: "r = (x, t)" by (cases r)
      have "pl (result_state (run_body e s)) = Some l0"
        using Cons.prems(2) i Inl r by simp
      from run_body_quiet [OF Cons.prems(1) this] show ?thesis
        using i Inl r by (simp add: is_set_set_pl)
    next
      case (Inr s1)
      with e1 have p1: "pl (wait i s1) = Some (l0 @ e1)" by (simp add: wait_pl_trace)
      from run_grows [OF p1, of es] obtain e2 where
        "pl (outcome_state (run es (wait i s1))) = Some ((l0 @ e1) @ e2)" by blast
      with Cons.prems(2) i Inr have "e1 = []" by simp
      with e1 p1 have q: "pl (result_state (run_body e s)) = Some l0"
        and p1': "pl (wait i s1) = Some l0" by simp_all
      have "pl (outcome_state (run es (wait i s1))) = Some l0"
        using Cons.prems(2) i Inr by simp
      from Cons.IH [OF p1' this] run_body_quiet [OF Cons.prems(1) q] show ?thesis
        using i Inr by (simp add: is_set_set_pl wait_set_pl)
    qed
  qed
qed

lemma run_escapes:
  "pl s = Some l0 \<Longrightarrow> pl (outcome_state (run es s)) = Some (l0 @ ent # ents) \<Longrightarrow>
   \<exists>t0 evs. run es (set_pl None s) = Raised (Exn (last (entry_args ent))) t0 \<and>
     pl t0 = None \<and> trace (outcome_state (run es s)) = trace t0 @ evs \<and>
     (\<exists>pre ev e. e \<in> set es \<and> trace t0 = pre @ [ev] \<and>
       hook_call e ev = Some (ent, Exn (last (entry_args ent))))"
proof (induction es arbitrary: s)
  case Nil
  then show ?case by (simp split: option.splits if_splits)
next
  case (Cons e es)
  show ?case
  proof (cases "interval s = None \<or> is_set s")
    case True
    then show ?thesis using Cons.prems by (auto split: option.splits)
  next
    case False
    then obtain i where i: "interval s = Some i" "\<not> is_set s" by auto
    obtain e1 where e1: "pl (result_state (run_body e s)) = Some (l0 @ e1)"
      using run_body_grows [OF Cons.prems(1)] by blast
    have first: ?thesis
      if q: "pl (result_state (run_body e s)) = Some (l0 @ ent # ents')"
        and tr: "\<exists>evs2. trace (outcome_state (run (e # es) s)) =
                   trace (result_state (run_body e s)) @ evs2"
      for ents'
    proof -
      from run_body_escapes [OF Cons.prems(1) q] obtain t0 evs where
        t0: "run_body e (set_pl None s) = Inl (Exn (last (entry_args ent)), t0)"
            "pl t0 = None" "trace (result_state (run_body e s)) = trace t0 @ evs"
            "\<exists>pre ev. trace t0 = pre @ [ev] \<and>
              hook_call e ev = Some (ent, Exn (last (entry_args ent)))"
        by blast
      from tr obtain evs2 where "trace (outcome_state (run (e # es) s)) =
          trace (result_state (run_body e s)) @ evs2" by blast
      then have "trace (outcome_state (run (e # es) s)) = trace t0 @ (evs @ evs2)"
        using t0(3) by simp
      moreover have "run (e # es) (set_pl None s) = Raised (Exn (last (entry_args ent))) t0"
        using i t0(1) by (simp add: is_set_set_pl)
      moreover have "\<exists>pre ev e'. e' \<in> set (e # es) \<and> trace t0 = pre @ [ev] \<and>
          hook_call e' ev = Some (ent, Exn (last (entry_args ent)))"
        using t0(4) by auto
      ultimately show ?thesis using t0(2) by blast
    qed
    show ?thesis
    proof (cases "run_body e s")
      case (Inl r)
      obtain x t where r: "r = (x, t)" by (cases r)
      have "pl (result_state (run_body e s)) = Some (l0 @ ent # ents)"
        using Cons.prems(2) i Inl r by simp
      moreover have "trace (outcome_state (run (e # es) s)) =
          trace (result_state (run_body e s)) @ []"
        using i Inl r by simp
      ultimately show ?thesis by (intro first) blast+
    next
      case (Inr s1)
      with e1 have p1: "pl (wait i s1) = Some (l0 @ e1)" by (simp add: wait_pl_trace)
      have whole: "run (e # es) s = run es (wait i s1)" using i Inr by simp
      from run_grows [OF p1, of es] obtain e2 where
        e2: "pl (outcome_state (run es (wait i s1))) = Some ((l0 @ e1) @ e2)" by blast
      obtain evs2 where evs2:
        "trace (outcome_state (run es (wait i s1))) = trace (wait i s1) @ evs2"
        using run_trace_grows by blast
      show ?thesis
      proof (cases e1)
        case Nil
        with e1 p1 have q: "pl (result_state (run_body e s)) = Some l0"
          and p1': "pl (wait i s1) = Some l0" by simp_all
        have "pl (outcome_state (run es (wait i s1))) = Some (l0 @ ent # ents)"
          using Cons.prems(2) whole by simp
        from Cons.IH [OF p1' this] obtain t0 evs where
          t0: "run es (set_pl None (wait i s1)) = Raised (Exn (last (entry_args ent))) t0"
              "pl t0 = None" "trace (outcome_state (run es (wait i s1))) = trace t0 @ evs"
              "\<exists>pre ev e. e \<in> set es \<and> trace t0 = pre @ [ev] \<and>
                hook_call e ev = Some (ent, Exn (last (entry_args ent)))"
          by blast
        have "run (e # es) (set_pl None s) = Raised (Exn (last (entry_args ent))) t0"
          using run_body_quiet [OF Cons.prems(1) q] i Inr t0(1)
          by (simp add: is_set_set_pl wait_set_pl)
        moreover have "\<exists>pre ev e'. e' \<in> set (e # es) \<and> trace t0 = pre @ [ev] \<and>
            hook_call e' ev = Some (ent, Exn (last (entry_args ent)))"
          using t0(4) by auto
        ultimately show ?thesis using t0(2) t0(3) whole by auto
      next
        case (Cons ent' ents')
        with e2 Cons.prems(2) whole have "ent' = ent" by simp
        with e1 Cons have "pl (result_state (run_body e s)) = Some (l0 @ ent # ents')" by simp
        moreover have "trace (outcome_state (run (e # es) s)) =
            trace (result_state (run_body e s)) @ evs2"
          using whole evs2 Inr by (simp add: wait_pl_trace)
        ultimately show ?thesis by (intro first) blast+
      qed
    qed
  qed
qed

lemma run_raised_append: "run es s = Raised x t \<Longrightarrow> run (es @ es') s = Raised x t"
proof (induction es arbitrary: s)
  case Nil
  then show ?case by (simp split: option.splits if_splits)
next
  case (Cons e es)
  then show ?case
    by (auto split: option.splits if_splits sum.splits)
qed

text \<open>
  C8: with a logger attached, \<open>exception\<close> passes the message and its arguments to the
  logger under the prefix \<open>config_loader\<close> and returns; with none it raises the
  exception being handled. So take a loader \<open>s\<close> with no logger and the same loader with
  a logger attached, run over the same cycles. If the first entry the logger receives is
  \<open>ent\<close>, the loader with none does not get past the call of the hook that would have
  logged it: right after the failing call of the condition function or of \<open>_load\<close> (the
  last event of its trace), the exception \<open>y\<close> of that call leaves \<open>run\<close>, whatever
  cycles were still to come, and what the loader had done until then is what the one with
  a logger did. If the logger receives nothing, the two runs are the same.
\<close>

theorem exception_hook_policy:
  "(pl s = Some l0 \<longrightarrow>
      exception msg as x s =
        Inr (s\<lparr>pl := Some (l0 @ [\<lparr>entry_prefix = ''config_loader'', entry_msg = msg,
                                   entry_args = as\<rparr>])\<rparr>)) \<and>
   (pl s = None \<longrightarrow> exception msg as x s = Inl (x, s)) \<and>
   (pl s = None \<and>
    pl (outcome_state (run es (set_pl (Some l0) s))) = Some (l0 @ ent # ents) \<longrightarrow>
      (\<exists>e ev y t0 pre evs.
         e \<in> set es \<and> hook_call e ev = Some (ent, y) \<and>
         trace t0 = pre @ [ev] \<and> pl t0 = None \<and>
         trace (outcome_state (run es (set_pl (Some l0) s))) = trace t0 @ evs \<and>
         (\<forall>es'. run (es @ es') s = Raised y t0))) \<and>
   (pl s = None \<and> pl (outcome_state (run es (set_pl (Some l0) s))) = Some l0 \<longrightarrow>
      run es s = map_outcome (set_pl None) (run es (set_pl (Some l0) s)))"
proof (intro conjI impI)
  assume "pl s = Some l0"
  then show "exception msg as x s =
      Inr (s\<lparr>pl := Some (l0 @ [\<lparr>entry_prefix = ''config_loader'', entry_msg = msg,
                                 entry_args = as\<rparr>])\<rparr>)"
    by (simp add: exception_def)
next
  assume "pl s = None"
  then show "exception msg as x s = Inl (x, s)"
    by (simp add: exception_def)
next
  let ?s = "set_pl (Some l0) s"
  assume a: "pl s = None \<and> pl (outcome_state (run es ?s)) = Some (l0 @ ent # ents)"
  then have s: "set_pl None ?s = s" by (simp add: set_pl_same)
  have "pl ?s = Some l0" by simp
  from run_escapes [OF this, of es ent ents] a obtain t0 evs pre ev e where
    t0: "run es (set_pl None ?s) = Raised (Exn (last (entry_args ent))) t0" "pl t0 = None"
        "trace (outcome_state (run es ?s)) = trace t0 @ evs"
        "e \<in> set es" "trace t0 = pre @ [ev]"
        "hook_call e ev = Some (ent, Exn (last (entry_args ent)))"
    by blast
  have "\<forall>es'. run (es @ es') s = Raised (Exn (last (entry_args ent))) t0"
    using run_raised_append [OF t0(1)] unfolding s by simp
  with t0 show "\<exists>e ev y t0 pre evs.
         e \<in> set es \<and> hook_call e ev = Some (ent, y) \<and>
         trace t0 = pre @ [ev] \<and> pl t0 = None \<and>
         trace (outcome_state (run es ?s)) = trace t0 @ evs \<and>
         (\<forall>es'. run (es @ es') s = Raised y t0)"
    by blast
next
  let ?s = "set_pl (Some l0) s"
  assume a: "pl s = None \<and> pl (outcome_state (run es ?s)) = Some l0"
  then have s: "set_pl None ?s = s" by (simp add: set_pl_same)
  have "pl ?s = Some l0" by simp
  from run_quiet [OF this, of es] a show "run es s = map_outcome (set_pl None) (run es ?s)"
    unfolding s by simp
qed

lemma pending_no_sink_eq:
  "pending_no_sink =
     \<lparr>clock = 0, shutdown_at = None, watcher = \<lparr>watching = {''a.json''}, changed = {}\<rparr>,
      pl = None, interval = Some 10, watched = [(''a.json'', [1])],
      missing = [(''colorscheme'', [(3, 4)])], loaded = Map.empty, trace = []\<rparr>"
  by (simp add: pending_no_sink_def register_missing_def register_def set_interval_def
      init_def d0_def watch_def)

lemma pending_no_sink_logged_eq:
  "set_pl (Some []) pending_no_sink =
     \<lparr>clock = 0, shutdown_at = None, watcher = \<lparr>watching = {''a.json''}, changed = {}\<rparr>,
      pl = Some [], interval = Some 10, watched = [(''a.json'', [1])],
      missing = [(''colorscheme'', [(3, 4)])], loaded = Map.empty, trace = []\<rparr>"
  by (simp add: pending_no_sink_eq set_pl_def)

theorem exception_hook_policy_witness:
  "pl (set_pl (Some []) pending_no_sink) = Some [] \<and>
   exception ''msg'' [''arg''] (Exn ''boom'') (set_pl (Some []) pending_no_sink) =
     Inr ((set_pl (Some []) pending_no_sink)
            \<lparr>pl := Some ([] @ [\<lparr>entry_prefix = ''config_loader'', entry_msg = ''msg'',
                                 entry_args = [''arg'']\<rparr>])\<rparr>) \<and>
   pl pending_no_sink = None \<and>
   exception ''msg'' [''arg''] (Exn ''boom'') pending_no_sink =
     Inl (Exn ''boom'', pending_no_sink) \<and>
   pl (outcome_state (run [env_cond_raises, env_cond_raises] (set_pl (Some []) pending_no_sink))) =
     Some ([] @ cond_error ''colorscheme'' ''boom'' # [cond_error ''colorscheme'' ''boom'']) \<and>
   (\<exists>e ev y t0 pre evs.
      e \<in> set [env_cond_raises, env_cond_raises] \<and>
      hook_call e ev = Some (cond_error ''colorscheme'' ''boom'', y) \<and>
      trace t0 = pre @ [ev] \<and> pl t0 = None \<and>
      trace (outcome_state
        (run [env_cond_raises, env_cond_raises] (set_pl (Some []) pending_no_sink))) =
        trace t0 @ evs \<and>
      (\<forall>es'. run ([env_cond_raises, env_cond_raises] @ es') pending_no_sink =
               Raised y t0)) \<and>
   pl (outcome_state (run [env_bad_a] (set_pl (Some []) pending_no_sink))) =
     Some ([] @ load_error ''a.json'' ''bad json'' # []) \<and>
   (\<exists>e ev y t0 pre evs.
      e \<in> set [env_bad_a] \<and>
      hook_call e ev = Some (load_error ''a.json'' ''bad json'', y) \<and>
      trace t0 = pre @ [ev] \<and> pl t0 = None \<and>
      trace (outcome_state (run [env_bad_a] (set_pl (Some []) pending_no_sink))) =
        trace t0 @ evs \<and>
      (\<forall>es'. run ([env_bad_a] @ es') pending_no_sink = Raised y t0)) \<and>
   pl (outcome_state (run [env_slow] (set_pl (Some []) pending_no_sink))) = Some [] \<and>
   run [env_slow] pending_no_sink =
     map_outcome (set_pl None) (run [env_slow] (set_pl (Some []) pending_no_sink))"
proof -
  have h0: "pl (set_pl (Some []) pending_no_sink) = Some []"
    by (simp add: set_pl_def)
  have h1: "pl pending_no_sink = None"
    by (simp add: pending_no_sink_eq)
  have c1: "run_body env_cond_raises (set_pl (Some []) pending_no_sink) =
     Inr \<lparr>clock = 2, shutdown_at = None, watcher = \<lparr>watching = {''a.json''}, changed = {}\<rparr>,
      pl = Some [cond_error ''colorscheme'' ''boom''], interval = Some 10,
      watched = [(''a.json'', [1])],
      missing = [(''colorscheme'', [(3, 4)])], loaded = Map.empty,
      trace = [CondCall 3 ''colorscheme'']\<rparr>"
    unfolding pending_no_sink_logged_eq
    by (simp add: run_body_def env_cond_raises_def touch_def functions_of_def check_def
        exception_def cond_error_def)
  have c2: "pl (result_state (run_body env_cond_raises
     \<lparr>clock = 12, shutdown_at = None, watcher = \<lparr>watching = {''a.json''}, changed = {}\<rparr>,
      pl = Some [cond_error ''colorscheme'' ''boom''], interval = Some 10,
      watched = [(''a.json'', [1])],
      missing = [(''colorscheme'', [(3, 4)])], loaded = Map.empty,
      trace = [CondCall 3 ''colorscheme'']\<rparr>)) =
     Some [cond_error ''colorscheme'' ''boom'', cond_error ''colorscheme'' ''boom'']"
    by (simp add: run_body_def env_cond_raises_def touch_def functions_of_def check_def
        exception_def cond_error_def)
  have h2: "pl (outcome_state
      (run [env_cond_raises, env_cond_raises] (set_pl (Some []) pending_no_sink))) =
     Some ([] @ cond_error ''colorscheme'' ''boom'' # [cond_error ''colorscheme'' ''boom''])"
  proof -
    have "run [env_cond_raises, env_cond_raises] (set_pl (Some []) pending_no_sink) =
        run [env_cond_raises]
     \<lparr>clock = 12, shutdown_at = None, watcher = \<lparr>watching = {''a.json''}, changed = {}\<rparr>,
      pl = Some [cond_error ''colorscheme'' ''boom''], interval = Some 10,
      watched = [(''a.json'', [1])],
      missing = [(''colorscheme'', [(3, 4)])], loaded = Map.empty,
      trace = [CondCall 3 ''colorscheme'']\<rparr>"
      using c1 by (simp add: pending_no_sink_logged_eq is_set_def wait_def)
    moreover have "pl (outcome_state (run [env_cond_raises]
     \<lparr>clock = 12, shutdown_at = None, watcher = \<lparr>watching = {''a.json''}, changed = {}\<rparr>,
      pl = Some [cond_error ''colorscheme'' ''boom''], interval = Some 10,
      watched = [(''a.json'', [1])],
      missing = [(''colorscheme'', [(3, 4)])], loaded = Map.empty,
      trace = [CondCall 3 ''colorscheme'']\<rparr>)) =
     Some [cond_error ''colorscheme'' ''boom'', cond_error ''colorscheme'' ''boom'']"
      using c2 by (auto simp: is_set_def wait_pl_trace split: sum.splits option.splits)
    ultimately show ?thesis by simp
  qed
  have b1: "pl (result_state (run_body env_bad_a (set_pl (Some []) pending_no_sink))) =
      Some [load_error ''a.json'' ''bad json'']"
    unfolding pending_no_sink_logged_eq
    by (simp add: run_body_def env_bad_a_def touch_def functions_of_def check_def
        exception_def load_error_def)
  have h3: "pl (outcome_state (run [env_bad_a] (set_pl (Some []) pending_no_sink))) =
     Some ([] @ load_error ''a.json'' ''bad json'' # [])"
    using b1
    by (auto simp: pending_no_sink_logged_eq is_set_def wait_pl_trace
        split: sum.splits option.splits)
  have q1: "pl (result_state (run_body env_slow (set_pl (Some []) pending_no_sink))) = Some []"
    unfolding pending_no_sink_logged_eq
    by (simp add: run_body_def env_slow_def touch_def functions_of_def check_def)
  have h4: "pl (outcome_state (run [env_slow] (set_pl (Some []) pending_no_sink))) = Some []"
    using q1
    by (auto simp: pending_no_sink_logged_eq is_set_def wait_pl_trace
        split: sum.splits option.splits)
  note t = exception_hook_policy [of "set_pl (Some []) pending_no_sink" "[]" "''msg''"
      "[''arg'']" "Exn ''boom''", THEN conjunct1, rule_format, OF h0]
  note u = exception_hook_policy [of pending_no_sink _ "''msg''" "[''arg'']" "Exn ''boom''",
      THEN conjunct2, THEN conjunct1, rule_format, OF h1]
  note v = exception_hook_policy [of pending_no_sink "[]" _ _ _
      "[env_cond_raises, env_cond_raises]" "cond_error ''colorscheme'' ''boom''"
      "[cond_error ''colorscheme'' ''boom'']",
      THEN conjunct2, THEN conjunct2, THEN conjunct1, rule_format, OF conjI [OF h1 h2]]
  note w = exception_hook_policy [of pending_no_sink "[]" _ _ _
      "[env_bad_a]" "load_error ''a.json'' ''bad json''" "[]",
      THEN conjunct2, THEN conjunct2, THEN conjunct1, rule_format, OF conjI [OF h1 h3]]
  note z = exception_hook_policy [of pending_no_sink "[]" _ _ _
      "[env_slow]", THEN conjunct2, THEN conjunct2, THEN conjunct2, rule_format,
      OF conjI [OF h1 h4]]
  show ?thesis
    by (intro conjI h0 t h1 u h2 v h3 w h4 z)
qed

section \<open>The registries hold no empty set\<close>

lemma set_add_nonempty: "set_add x xs \<noteq> []" "[] \<noteq> set_add x xs"
  by (auto simp: set_add_def)

lemma set_add_distinct: "distinct xs \<Longrightarrow> distinct (set_add x xs)"
  by (simp add: set_add_def)

lemma set_map_default:
  "(q, fs) \<in> set (AList.map_default k v g al) \<Longrightarrow>
   (q, fs) \<in> set al \<or> (q = k \<and> (fs = v \<or> (\<exists>fs0. (k, fs0) \<in> set al \<and> fs = g fs0)))"
  by (induction al) (auto split: if_splits)

lemma pairs_nonempty_iff:
  "distinct (map fst al) \<Longrightarrow> pairs_nonempty al \<longleftrightarrow> (\<forall>(k, ps) \<in> set al. ps \<noteq> [])"
  by (auto simp: pairs_nonempty_def)

lemma pairs_distinct_iff:
  "distinct (map fst al) \<Longrightarrow> pairs_distinct al \<longleftrightarrow> (\<forall>(k, ps) \<in> set al. distinct ps)"
  by (auto simp: pairs_distinct_def)

lemma no_empty_entry_register: "no_empty_entry s \<Longrightarrow> no_empty_entry (register f p s)"
  unfolding no_empty_entry_def register_def
  by (auto dest!: set_map_default simp: set_add_nonempty)

lemma no_empty_entry_register_missing: "no_empty_entry s \<Longrightarrow> no_empty_entry (register_missing c f k s)"
  unfolding no_empty_entry_def register_missing_def
  by (auto dest!: set_map_default simp: set_add_nonempty)

lemma wf_register: "wf s \<Longrightarrow> wf (register f p s)"
  unfolding wf_def register_def
  by (auto dest!: set_map_default simp: set_add_distinct distinct_map_default)

lemma wf_register_missing: "wf s \<Longrightarrow> wf (register_missing c f k s)"
  unfolding wf_def register_missing_def
  by (auto dest!: set_map_default simp: set_add_distinct distinct_map_default)

lemma unregister_functions_entries:
  assumes "distinct (map fst (watched s))"
    and "(p, fs) \<in> set (watched (unregister_functions R s))"
  shows "fs \<noteq> [] \<and> (\<exists>fs0. (p, fs0) \<in> set (watched s) \<and> fs = filter (\<lambda>f. f \<notin> R) fs0)"
proof -
  have d: "distinct (map fst (watched (unregister_functions R s)))"
    unfolding unregister_functions_def
    using assms(1) by (rule unregister_functions_loop_distinct)
  then have "map_of (watched (unregister_functions R s)) p = Some fs"
    using assms(2) by simp
  then show ?thesis
    unfolding unregister_functions_def unregister_functions_loop_watched [OF assms(1)]
    using assms(1)
    by (auto simp: map_of_eq_None_iff [symmetric] split: if_splits option.splits)
qed

lemma unregister_missing_entries:
  assumes "distinct (map fst (missing s))"
    and "(k, ps) \<in> set (missing (unregister_missing R s))"
  shows "ps \<noteq> [] \<and> (\<exists>ps0. (k, ps0) \<in> set (missing s) \<and> ps = filter (\<lambda>f. f \<notin> R) ps0)"
proof -
  have d: "distinct (map fst (missing (unregister_missing R s)))"
    unfolding unregister_missing_def
    using assms(1) by (rule unregister_missing_loop_distinct)
  then have "map_of (missing (unregister_missing R s)) k = Some ps"
    using assms(2) by simp
  then show ?thesis
    unfolding unregister_missing_def unregister_missing_loop_missing [OF assms(1)]
    using assms(1)
    by (auto simp: map_of_eq_None_iff [symmetric] split: if_splits option.splits)
qed

lemma no_empty_entry_unregister_functions:
  assumes "wf s" and "no_empty_entry s"
  shows "no_empty_entry (unregister_functions R s)"
proof -
  have d: "distinct (map fst (watched s))" using assms(1) by (simp add: wf_def)
  have m: "missing (unregister_functions R s) = missing s"
    by (simp add: unregister_functions_def unregister_functions_loop_frame)
  show ?thesis
    unfolding no_empty_entry_def m
    using assms(2) unregister_functions_entries [OF d]
    by (fastforce simp: no_empty_entry_def)
qed

lemma no_empty_entry_unregister_missing:
  assumes "wf s" and "no_empty_entry s"
  shows "no_empty_entry (unregister_missing R s)"
proof -
  have d: "distinct (map fst (missing s))" using assms(1) by (simp add: wf_def)
  have m: "watched (unregister_missing R s) = watched s"
    by (simp add: unregister_missing_def unregister_missing_loop_frame)
  show ?thesis
    unfolding no_empty_entry_def m
    using assms(2) unregister_missing_entries [OF d]
    by (fastforce simp: no_empty_entry_def)
qed

lemma wf_unregister_functions:
  assumes "wf s"
  shows "wf (unregister_functions R s)"
proof -
  have d: "distinct (map fst (watched s))" using assms by (simp add: wf_def)
  have m: "missing (unregister_functions R s) = missing s"
    by (simp add: unregister_functions_def unregister_functions_loop_frame)
  have "distinct (map fst (watched (unregister_functions R s)))"
    unfolding unregister_functions_def using d by (rule unregister_functions_loop_distinct)
  moreover have "\<forall>(p, fs) \<in> set (watched (unregister_functions R s)). distinct fs"
    using assms unregister_functions_entries [OF d] by (fastforce simp: wf_def)
  ultimately show ?thesis
    using assms unfolding wf_def m by simp
qed

lemma wf_unregister_missing:
  assumes "wf s"
  shows "wf (unregister_missing R s)"
proof -
  have d: "distinct (map fst (missing s))" using assms by (simp add: wf_def)
  have m: "watched (unregister_missing R s) = watched s"
    by (simp add: unregister_missing_def unregister_missing_loop_frame)
  have "distinct (map fst (missing (unregister_missing R s)))"
    unfolding unregister_missing_def using d by (rule unregister_missing_loop_distinct)
  moreover have "\<forall>(k, ps) \<in> set (missing (unregister_missing R s)). distinct ps"
    using assms unregister_missing_entries [OF d] by (fastforce simp: wf_def)
  ultimately show ?thesis
    using assms unfolding wf_def m by simp
qed

lemma wf_run_body:
  assumes "run_body e s = Inr s'" and "wf s"
  shows "wf s'"
proof -
  have d: "distinct (map fst (missing s))" using assms(2) by (simp add: wf_def)
  have d': "distinct (map fst (missing s'))"
    using run_body_missing(2) [OF assms(1) d] .
  have "pairs_distinct (missing s')"
    using run_body_pairs_distinct [OF assms(1) wf_pairs_distinct [OF assms(2)]] .
  then have "\<forall>(k, ps) \<in> set (missing s'). distinct ps"
    using pairs_distinct_iff [OF d'] by simp
  then show ?thesis
    using assms(2) d' run_body_frame [OF assms(1)] by (simp add: wf_def)
qed

lemma wf_wait: "wf (wait i s) = wf s"
  by (simp add: wf_def wait_fields)

lemma no_empty_entry_wait: "no_empty_entry (wait i s) = no_empty_entry s"
  by (simp add: no_empty_entry_def wait_fields)

lemma no_empty_entry_run_body_Inr:
  assumes "run_body e s = Inr s'" and "wf s" and "no_empty_entry s"
  shows "no_empty_entry s'"
proof -
  from assms(1) obtain ts1 s1 ts2 s2 s3 where
    p1: "run_watched e (watched s) [] (s\<lparr>watcher := touch (modified e) (watcher s)\<rparr>) = Inr (ts1, s1)"
    and p2: "run_missing e (missing s1) ts1 s1 = Inr (ts2, s2)"
    and p3: "run_toload e ts2 s2 = Inr s3"
    and s': "s' = s3\<lparr>clock := clock s3 + duration e\<rparr>"
    unfolding run_body_Inr by blast
  have m1: "missing s1 = missing s"
    using run_watched_frame [OF disjI1 [OF p1]] by simp
  have m3: "missing s' = missing s2"
    using run_toload_frame [OF disjI1 [OF p3]] s' by simp
  have d: "distinct (map fst (missing s))" using assms(2) by (simp add: wf_def)
  have d': "distinct (map fst (missing s'))"
    using run_body_missing(2) [OF assms(1) d] .
  have "pairs_nonempty (missing s')"
    unfolding m3 using run_missing_pairs_nonempty_Inr [OF p2] no_empty_entry_pairs_nonempty [OF assms(3)] m1
    by simp
  then have "\<forall>(k, ps) \<in> set (missing s'). ps \<noteq> []"
    using pairs_nonempty_iff [OF d'] by simp
  then show ?thesis
    using assms(3) run_body_frame [OF assms(1)] by (simp add: no_empty_entry_def)
qed

lemma no_empty_entry_run_body_Inl:
  assumes "run_body e s = Inl (x, s')" and "wf s" and "no_empty_entry s"
  shows "no_empty_entry s'"
proof -
  let ?s0 = "s\<lparr>watcher := touch (modified e) (watcher s)\<rparr>"
  have d: "distinct (map fst (missing s))" using assms(2) by (simp add: wf_def)
  from assms(1) consider
    (one) "run_watched e (watched s) [] ?s0 = Inl (x, s')"
  | (two) ts1 s1 where "run_watched e (watched s) [] ?s0 = Inr (ts1, s1)"
      "run_missing e (missing s1) ts1 s1 = Inl (x, s')"
  | (three) ts1 s1 ts2 s2 where "run_watched e (watched s) [] ?s0 = Inr (ts1, s1)"
      "run_missing e (missing s1) ts1 s1 = Inr (ts2, s2)" "run_toload e ts2 s2 = Inl (x, s')"
    unfolding run_body_Inl by blast
  then show ?thesis
  proof cases
    case one
    then show ?thesis
      using run_watched_frame [OF disjI2 [OF one]] assms(3) by (simp add: no_empty_entry_def)
  next
    case two
    have f1: "missing s1 = missing s" "watched s1 = watched s"
      using run_watched_frame [OF disjI1 [OF two(1)]] by simp_all
    have d': "distinct (map fst (missing s'))"
      using run_missing_distinct_Inl [OF two(2)] d f1 by simp
    have "pairs_nonempty (missing s')"
      using run_missing_pairs_nonempty_Inl [OF two(2)] wf_pairs_distinct [OF assms(2)]
        no_empty_entry_pairs_nonempty [OF assms(3)] f1 by simp
    then have "\<forall>(k, ps) \<in> set (missing s'). ps \<noteq> []"
      using pairs_nonempty_iff [OF d'] by simp
    then show ?thesis
      using assms(3) run_missing_frame_Inl [OF two(2)] f1 by (simp add: no_empty_entry_def)
  next
    case three
    have f1: "missing s1 = missing s" "watched s1 = watched s"
      using run_watched_frame [OF disjI1 [OF three(1)]] by simp_all
    have f3: "missing s' = missing s2" "watched s' = watched s2"
      using run_toload_frame [OF disjI2 [OF three(3)]] by simp_all
    have d': "distinct (map fst (missing s2))"
      using run_missing_distinct_Inr [OF three(2)] d f1 by simp
    have "pairs_nonempty (missing s2)"
      using run_missing_pairs_nonempty_Inr [OF three(2)] no_empty_entry_pairs_nonempty [OF assms(3)] f1
      by simp
    then have "\<forall>(k, ps) \<in> set (missing s2). ps \<noteq> []"
      using pairs_nonempty_iff [OF d'] by simp
    then show ?thesis
      using assms(3) run_missing_frame_Inr [OF three(2)] f1 f3 by (simp add: no_empty_entry_def)
  qed
qed

lemma no_empty_entry_run:
  "wf s \<Longrightarrow> no_empty_entry s \<Longrightarrow> no_empty_entry (outcome_state (run es s))"
proof (induction es arbitrary: s)
  case Nil
  then show ?case by (simp split: option.splits)
next
  case (Cons e es)
  show ?case
  proof (cases "interval s")
    case None
    then show ?thesis using Cons.prems by simp
  next
    case (Some i)
    show ?thesis
    proof (cases "is_set s")
      case True
      then show ?thesis using Some Cons.prems by simp
    next
      case False
      show ?thesis
      proof (cases "run_body e s")
        case (Inl r)
        obtain x s1 where r: "r = (x, s1)" by (cases r)
        have "no_empty_entry s1" using no_empty_entry_run_body_Inl [OF _ Cons.prems] Inl r by simp
        then show ?thesis using Some False Inl r by simp
      next
        case (Inr s1)
        have "wf (wait i s1)" "no_empty_entry (wait i s1)"
          using wf_run_body [OF Inr Cons.prems(1)] no_empty_entry_run_body_Inr [OF Inr Cons.prems]
          by (simp_all add: wf_wait no_empty_entry_wait)
        from Cons.IH [OF this] show ?thesis using Some False Inr by simp
      qed
    qed
  qed
qed

text \<open>
  C7: in a state where every entry of \<open>self.watched\<close> and of \<open>self.missing\<close> holds a
  non-empty set, \<open>register\<close>, \<open>register_missing\<close>, \<open>unregister_functions\<close>,
  \<open>unregister_missing\<close>, a cycle of the worker loop (whether it ends normally or with an
  exception) and any run of the loop leave a state where this holds again: an entry whose
  set has become empty is not kept.
\<close>

theorem registries_hold_no_empty_set:
  assumes "wf s" and "no_empty_entry s"
  shows "no_empty_entry (register f p s) \<and> no_empty_entry (register_missing c g k s) \<and>
         no_empty_entry (unregister_functions R s) \<and> no_empty_entry (unregister_missing T s) \<and>
         (run_body e s = Inr s' \<longrightarrow> no_empty_entry s') \<and>
         (run_body e s = Inl (x, s'') \<longrightarrow> no_empty_entry s'') \<and>
         no_empty_entry (outcome_state (run es s))"
proof (intro conjI impI)
  show "no_empty_entry (register f p s)" using assms(2) by (rule no_empty_entry_register)
  show "no_empty_entry (register_missing c g k s)" using assms(2) by (rule no_empty_entry_register_missing)
  show "no_empty_entry (unregister_functions R s)" using assms by (rule no_empty_entry_unregister_functions)
  show "no_empty_entry (unregister_missing T s)" using assms by (rule no_empty_entry_unregister_missing)
  show "no_empty_entry s'" if "run_body e s = Inr s'" using that assms by (rule no_empty_entry_run_body_Inr)
  show "no_empty_entry s''" if "run_body e s = Inl (x, s'')" using that assms by (rule no_empty_entry_run_body_Inl)
  show "no_empty_entry (outcome_state (run es s))" using assms by (rule no_empty_entry_run)
qed

lemma run_body_env_found:
  "\<not> isl (run_body env_found two_paths_two_keys) \<and>
   missing (projr (run_body env_found two_paths_two_keys)) = [(''m'', [(5, 6)])] \<and>
   trace (projr (run_body env_found two_paths_two_keys)) =
     [LoadCall ''a.json'', LoadCall ''b.json'', Notify 1 ''a.json'', CondCall 3 ''k'',
      Found ''k'' 3 4 ''/etc/found.json'', CondCall 5 ''m'', LoadCall ''a.json'',
      LoadCall ''/etc/found.json'']"
  by (simp add: two_paths_two_keys_eq run_body_def env_found_def touch_def check_def
      functions_of_def)

lemma run_body_env_cond_raises:
  "isl (run_body env_cond_raises two_paths_two_keys) \<and>
   fst (projl (run_body env_cond_raises two_paths_two_keys)) = Exn ''boom'' \<and>
   missing (snd (projl (run_body env_cond_raises two_paths_two_keys))) =
     [(''k'', [(3, 4)]), (''m'', [(5, 6)])]"
  by (simp add: two_paths_two_keys_eq run_body_def env_cond_raises_def touch_def check_def
      functions_of_def exception_def)

theorem registries_hold_no_empty_set_witness:
  "wf two_paths_two_keys \<and> no_empty_entry two_paths_two_keys \<and>
   no_empty_entry (register 9 ''c.json'' two_paths_two_keys) \<and>
   no_empty_entry (register_missing 7 8 ''k'' two_paths_two_keys) \<and>
   no_empty_entry (unregister_functions {1} two_paths_two_keys) \<and>
   watched (unregister_functions {1} two_paths_two_keys) = [(''b.json'', [2])] \<and>
   no_empty_entry (unregister_missing {(3, 4)} two_paths_two_keys) \<and>
   missing (unregister_missing {(3, 4)} two_paths_two_keys) = [(''m'', [(5, 6)])] \<and>
   run_body env_found two_paths_two_keys = Inr (projr (run_body env_found two_paths_two_keys)) \<and>
   no_empty_entry (projr (run_body env_found two_paths_two_keys)) \<and>
   missing (projr (run_body env_found two_paths_two_keys)) = [(''m'', [(5, 6)])] \<and>
   run_body env_cond_raises two_paths_two_keys =
     Inl (Exn ''boom'', snd (projl (run_body env_cond_raises two_paths_two_keys))) \<and>
   no_empty_entry (snd (projl (run_body env_cond_raises two_paths_two_keys))) \<and>
   no_empty_entry (outcome_state (run [env_found, env_found] two_paths_two_keys))"
proof -
  have h1: "wf two_paths_two_keys"
    by (simp add: wf_def two_paths_two_keys_eq)
  have h2: "no_empty_entry two_paths_two_keys"
    by (simp add: no_empty_entry_def two_paths_two_keys_eq)
  have h3: "run_body env_found two_paths_two_keys =
      Inr (projr (run_body env_found two_paths_two_keys))"
    using run_body_env_found by simp
  have h4: "run_body env_cond_raises two_paths_two_keys =
      Inl (Exn ''boom'', snd (projl (run_body env_cond_raises two_paths_two_keys)))"
    using run_body_env_cond_raises
    by (metis prod.collapse sum.collapse(1))
  have u1: "watched (unregister_functions {1} two_paths_two_keys) = [(''b.json'', [2])]"
    by (simp add: unregister_functions_def two_paths_two_keys_eq functions_of_def)
  have u2: "missing (unregister_missing {(3, 4)} two_paths_two_keys) = [(''m'', [(5, 6)])]"
    by (simp add: unregister_missing_def two_paths_two_keys_eq functions_of_def)
  note A = registries_hold_no_empty_set [OF h1 h2, of 9 "''c.json''" 7 8 "''k''" "{1}" "{(3, 4)}"
      env_found "projr (run_body env_found two_paths_two_keys)" _ _ "[env_found, env_found]"]
  note B = registries_hold_no_empty_set [OF h1 h2, of _ _ _ _ _ _ _
      env_cond_raises _ "Exn ''boom''" "snd (projl (run_body env_cond_raises two_paths_two_keys))"]
  have a: "no_empty_entry (projr (run_body env_found two_paths_two_keys))"
    using A h3 by blast
  have b: "no_empty_entry (snd (projl (run_body env_cond_raises two_paths_two_keys)))"
    using B h4 by blast
  have m: "missing (projr (run_body env_found two_paths_two_keys)) = [(''m'', [(5, 6)])]"
    using run_body_env_found by simp
  from A a b h1 h2 h3 h4 u1 u2 m show ?thesis by blast
qed

section \<open>A raising condition function\<close>

lemma run_watched_returns:
  "\<forall>f p. callback e f p = None \<Longrightarrow> \<exists>ts' s'. run_watched e items ts s = Inr (ts', s')"
proof (induction items arbitrary: ts s)
  case Nil
  then show ?case by simp
next
  case (Cons a items)
  obtain p fs where a: "a = (p, fs)" by (cases a)
  obtain ts1 s1 where "run_watched_functions e p fs ts s = Inr (ts1, s1)"
  proof (cases rule: run_watched_functions_cases [of e p fs ts s])
    case unchanged
    then show ?thesis using that by blast
  next
    case (notified f rest)
    then show ?thesis using that by blast
  next
    case (raised f rest m)
    have "p \<in> changed (watcher s)"
      using raised run_watched_functions_unchanged [of p s e fs ts] by auto
    from run_watched_functions_changed [OF this, of e f rest ts] Cons.prems raised
    show ?thesis by simp
  qed
  then show ?case
    using Cons.IH [OF Cons.prems, of ts1 s1] by (simp add: a)
qed

lemma pair_events_CondCall: "CondCall c k \<in> set (pair_events e k (c, f))"
  by simp

lemma key_events_CondCall:
  "(c, f) \<in> set (functions_of (missing s) k) \<Longrightarrow> CondCall c k \<in> set (key_events e s k)"
  unfolding key_events_def
  by (auto intro!: bexI [of _ "(c, f)"])

lemma key_errors_raises:
  "(c, f) \<in> set (functions_of (missing s) k) \<Longrightarrow> cond e c k = CondRaises m \<Longrightarrow>
   cond_error k m \<in> set (key_errors e s k)"
  unfolding key_errors_def cond_error_def
  by (auto intro!: bexI [of _ "(c, f)"])

lemma run_body_returns:
  assumes "wf s" and "pl s = Some l" and "\<forall>f p. callback e f p = None"
  shows "\<exists>s'. run_body e s = Inr s'"
proof -
  let ?s0 = "s\<lparr>watcher := touch (modified e) (watcher s)\<rparr>"
  obtain ts1 s1 where p1: "run_watched e (watched s) [] ?s0 = Inr (ts1, s1)"
    using run_watched_returns [OF assms(3)] by blast
  have f1: "missing s1 = missing s" "pl s1 = pl s"
    using run_watched_frame [OF disjI1 [OF p1]] by simp_all
  have d: "distinct (map fst (missing s1))" using assms(1) f1 by (simp add: wf_def)
  have "\<forall>k \<in> fst ` set (missing s1). \<forall>pr \<in> set (functions_of (missing s1) k). pair_returns e k pr"
    using assms(3) by (auto split: cond_result.splits option.splits)
  from run_missing_returns [OF _ d this, of ts1] obtain ts2 s2 where
    p2: "run_missing e (missing s1) ts1 s1 = Inr (ts2, s2)"
    using f1 assms(2) by auto
  have "pl s2 \<noteq> None"
    using run_missing_frame_Inr [OF p2] f1 assms(2) by simp
  from run_toload_returns [OF this] obtain s3 where p3: "run_toload e ts2 s2 = Inr s3"
    by blast
  show ?thesis
    using p1 p2 p3 by (simp add: run_body_Inr)
qed

lemma run_body_trace_pl:
  assumes "run_body e s = Inr s'" and "distinct (map fst (missing s))"
  shows "\<exists>evs1 ts2 l3.
     trace s' = trace s @ evs1 @ concat (map (key_events e s) (map fst (missing s))) @
                map LoadCall ts2 \<and>
     pl s' = map_option (\<lambda>l. l @ concat (map (key_errors e s) (map fst (missing s))) @ l3) (pl s)"
proof -
  from assms(1) obtain ts1 s1 ts2 s2 s3 where
    p1: "run_watched e (watched s) [] (s\<lparr>watcher := touch (modified e) (watcher s)\<rparr>) = Inr (ts1, s1)"
    and p2: "run_missing e (missing s1) ts1 s1 = Inr (ts2, s2)"
    and p3: "run_toload e ts2 s2 = Inr s3"
    and s': "s' = s3\<lparr>clock := clock s3 + duration e\<rparr>"
    unfolding run_body_Inr by blast
  have f1: "missing s1 = missing s" "pl s1 = pl s"
    using run_watched_frame [OF disjI1 [OF p1]] by simp_all
  have d: "distinct (map fst (missing s1))" using assms(2) f1 by simp
  obtain evs1 where t1: "trace s1 = trace s @ evs1"
    using run_watched_trace [OF disjI1 [OF p1]] by auto
  have t2: "trace s2 = trace s1 @ concat (map (key_events e s) (map fst (missing s)))"
    using run_missing_trace [OF p2 d] by (simp add: f1 key_events_cong [OF f1(1)])
  have t3: "trace s' = trace s2 @ map LoadCall ts2"
    using run_toload_trace [OF p3] s' by simp
  have l2: "pl s2 = map_option (\<lambda>l. l @ concat (map (key_errors e s) (map fst (missing s)))) (pl s)"
    using run_missing_pl [OF p2 d] by (simp add: f1 key_errors_cong [OF f1(1)])
  have l3: "pl s' = map_option (\<lambda>l. l @ concat (map (load_errors e) ts2)) (pl s2)"
    using run_toload_pl [OF p3] s' by simp
  have "trace s' = trace s @ evs1 @ concat (map (key_events e s) (map fst (missing s))) @
                map LoadCall ts2"
    unfolding t3 t2 t1 by simp
  moreover have "pl s' = map_option (\<lambda>l. l @ concat (map (key_errors e s) (map fst (missing s))) @
      concat (map (load_errors e) ts2)) (pl s)"
    unfolding l3 l2 by (simp add: option.map_comp comp_def)
  ultimately show ?thesis by blast
qed

lemma run_body_functions_of:
  assumes "run_body e s = Inr s'" and "distinct (map fst (missing s))"
  shows "functions_of (missing s') k = remaining e k (functions_of (missing s) k)"
  unfolding functions_of_def run_body_missing(1) [OF assms]
  by (simp add: remaining_def split: option.splits)

subsection \<open>The cycle with the condition function hushed\<close>

lemma hush_fields:
  "callback (hush c k e) = callback e" "loader (hush c k e) = loader e"
  "modified (hush c k e) = modified e" "duration (hush c k e) = duration e"
  by (simp_all add: hush_def)

lemma hush_cond:
  "cond (hush c k e) c' k' =
     (if c' = c \<and> k' = k then
        (case cond e c k of CondRaises m \<Rightarrow> CondReturns None | CondReturns v \<Rightarrow> CondReturns v)
      else cond e c' k')"
  by (simp add: hush_def)

lemma run_watched_functions_hush:
  "run_watched_functions (hush c k e) p fs ts s = run_watched_functions e p fs ts s"
proof (induction fs arbitrary: ts s)
  case Nil
  then show ?case by simp
next
  case (Cons f fs)
  show ?case
    by (simp add: check_def Let_def Cons.IH hush_fields split: option.splits)
qed

lemma run_watched_hush:
  "run_watched (hush c k e) items ts s = run_watched e items ts s"
proof (induction items arbitrary: ts s)
  case Nil
  then show ?case by simp
next
  case (Cons a items)
  obtain p fs where a: "a = (p, fs)" by (cases a)
  show ?case
    by (simp add: a run_watched_functions_hush Cons.IH split: sum.splits)
qed

lemma map_state1_result:
  "result_state1 (map_state1 g r) = g (result_state1 r)"
  by (cases r rule: result_state1.cases) simp_all

lemma run_missing_functions_hush:
  "pl s = Some l \<Longrightarrow>
   \<exists>l1. run_missing_functions (hush c k0 e) k ps ts (set_pl (Some l') s) =
           map_state1 (set_pl (Some l1)) (run_missing_functions e k ps ts s)"
proof (induction ps arbitrary: ts s l l')
  case Nil
  then show ?case by auto
next
  case (Cons a rest)
  obtain c' f where a: "a = (c', f)" by (cases a)
  let ?s1 = "s\<lparr>trace := trace s @ [CondCall c' k]\<rparr>"
  have p1: "pl ?s1 = Some l" using Cons.prems by simp
  show ?case
  proof (cases "cond e c' k")
    case (CondRaises m)
    let ?s2 = "?s1\<lparr>pl := Some (l @ [cond_error k m])\<rparr>"
    have r: "run_missing_functions e k (a # rest) ts s = run_missing_functions e k rest ts ?s2"
      using CondRaises Cons.prems by (simp add: a exception_def cond_error_def)
    have p2: "pl ?s2 = Some (l @ [cond_error k m])" by simp
    show ?thesis
    proof (cases "c' = c \<and> k = k0")
      case True
      have "run_missing_functions (hush c k0 e) k (a # rest) ts (set_pl (Some l') s) =
          run_missing_functions (hush c k0 e) k rest ts (set_pl (Some l') ?s2)"
        using CondRaises True by (simp add: a hush_cond)
      with Cons.IH [OF p2, of ts l'] show ?thesis unfolding r by simp
    next
      case False
      have "run_missing_functions (hush c k0 e) k (a # rest) ts (set_pl (Some l') s) =
          run_missing_functions (hush c k0 e) k rest ts
            (set_pl (Some (l' @ [cond_error k m])) ?s2)"
        using CondRaises False by (auto simp: a hush_cond exception_def cond_error_def)
      with Cons.IH [OF p2, of ts "l' @ [cond_error k m]"] show ?thesis unfolding r by simp
    qed
  next
    case (CondReturns v)
    have h: "cond (hush c k0 e) c' k = CondReturns v"
      using CondReturns by (auto simp: hush_cond)
    show ?thesis
    proof (cases "v = None \<or> v = Some []")
      case True
      then have r: "run_missing_functions e k (a # rest) ts s =
          run_missing_functions e k rest ts ?s1"
        and r0: "run_missing_functions (hush c k0 e) k (a # rest) ts (set_pl (Some l') s) =
          run_missing_functions (hush c k0 e) k rest ts (set_pl (Some l') ?s1)"
        using CondReturns h by (auto simp: a)
      from Cons.IH [OF p1, of ts l'] show ?thesis unfolding r r0 .
    next
      case False
      then obtain p where p: "v = Some p" "p \<noteq> []" by auto
      let ?s2 = "?s1\<lparr>trace := trace ?s1 @ [Found k c' f p]\<rparr>"
      show ?thesis
      proof (cases "callback e f p")
        case None
        let ?s3 = "?s2\<lparr>missing := AList.map_entry k (removeAll (c', f)) (missing ?s2)\<rparr>"
        have p3: "pl ?s3 = Some l" using Cons.prems by simp
        have r: "run_missing_functions e k (a # rest) ts s =
            run_missing_functions e k rest (ts @ [p]) ?s3"
          and r0: "run_missing_functions (hush c k0 e) k (a # rest) ts (set_pl (Some l') s) =
            run_missing_functions (hush c k0 e) k rest (ts @ [p]) (set_pl (Some l') ?s3)"
          using CondReturns h p None by (simp_all add: a hush_fields)
        from Cons.IH [OF p3, of "ts @ [p]" l'] show ?thesis unfolding r r0 .
      next
        case (Some m)
        then have "run_missing_functions e k (a # rest) ts s = Inl (Exn m, ?s2)"
          and "run_missing_functions (hush c k0 e) k (a # rest) ts (set_pl (Some l') s) =
            Inl (Exn m, set_pl (Some l') ?s2)"
          using CondReturns h p by (simp_all add: a hush_fields)
        then show ?thesis by (intro exI [of _ l']) simp
      qed
    qed
  qed
qed

lemma run_missing_hush:
  "pl s = Some l \<Longrightarrow>
   \<exists>l1. run_missing (hush c k0 e) items ts (set_pl (Some l') s) =
           map_state1 (set_pl (Some l1)) (run_missing e items ts s)"
proof (induction items arbitrary: ts s l l')
  case Nil
  then show ?case by auto
next
  case (Cons a items)
  obtain k x where a: "a = (k, x)" by (cases a)
  let ?r = "run_missing_functions e k (functions_of (missing s) k) ts s"
  obtain l1 where l1: "run_missing_functions (hush c k0 e) k (functions_of (missing s) k) ts
      (set_pl (Some l') s) = map_state1 (set_pl (Some l1)) ?r"
    using run_missing_functions_hush [OF Cons.prems] by blast
  obtain e1 where e1: "pl (result_state1 ?r) = Some (l @ e1)"
    using run_missing_functions_grows [OF Cons.prems] by blast
  show ?case
  proof (cases ?r)
    case (Inl r)
    obtain y t where r: "r = (y, t)" by (cases r)
    show ?thesis
      using l1 Inl r by (auto simp: a run_missing_Cons simp del: run_missing.simps)
  next
    case (Inr r)
    obtain ts1 s1 where r: "r = (ts1, s1)" by (cases r)
    have "pl (pop_if_empty k s1) = Some (l @ e1)"
      using e1 Inr r by (simp add: pop_if_empty_fields)
    from Cons.IH [OF this, of ts1 l1] show ?thesis
      using l1 Inr r
      by (simp add: a run_missing_Cons pop_if_empty_set_pl del: run_missing.simps)
  qed
qed

lemma run_toload_hush:
  "pl s = Some l \<Longrightarrow>
   \<exists>l1. run_toload (hush c k0 e) ts (set_pl (Some l') s) =
           map_state (set_pl (Some l1)) (run_toload e ts s)"
proof (induction ts arbitrary: s l l')
  case Nil
  then show ?case by auto
next
  case (Cons p ts)
  let ?s1 = "s\<lparr>trace := trace s @ [LoadCall p]\<rparr>"
  show ?case
  proof (cases "loader e p")
    case (Inr v)
    have "pl (?s1\<lparr>loaded := (loaded ?s1)(p \<mapsto> v)\<rparr>) = Some l" using Cons.prems by simp
    from Cons.IH [OF this, of l'] show ?thesis using Inr by (simp add: hush_fields)
  next
    case (Inl m)
    let ?s2 = "?s1\<lparr>pl := Some (l @ [load_error p m])\<rparr>"
    have p2: "pl ?s2 = Some (l @ [load_error p m])" by simp
    have r: "run_toload e (p # ts) s = run_toload e ts ?s2"
      using Inl Cons.prems by (simp add: exception_def load_error_def)
    have "run_toload (hush c k0 e) (p # ts) (set_pl (Some l') s) =
        run_toload (hush c k0 e) ts (set_pl (Some (l' @ [load_error p m])) ?s2)"
      using Inl by (simp add: exception_def load_error_def hush_fields)
    with Cons.IH [OF p2, of "l' @ [load_error p m]"] show ?thesis unfolding r by simp
  qed
qed

lemma run_body_hush:
  assumes "pl s = Some l"
  shows "\<exists>l1. run_body (hush c k0 e) (set_pl (Some l') s) =
           map_state (set_pl (Some l1)) (run_body e s)"
proof -
  let ?s0 = "s\<lparr>watcher := touch (modified e) (watcher s)\<rparr>"
  have w: "pl (result_state1 (run_watched e (watched s) [] ?s0)) = Some l"
    using assms by (simp add: run_watched_pl)
  note start = run_body_set_pl_start [of "hush c k0 e" "Some l'" s,
      unfolded hush_fields run_watched_hush]
  show ?thesis
  proof (cases rule: run_body_phases [of e s])
    case (notify x s1)
    then have "run_body (hush c k0 e) (set_pl (Some l') s) =
        map_state (set_pl (Some l')) (run_body e s)"
      by (simp add: start)
    then show ?thesis by blast
  next
    case (resolve ts1 s1 x s2)
    with w have p1: "pl s1 = Some l" by simp
    from run_missing_hush [OF p1, of c k0 e "missing s1" ts1 l'] obtain l1 where
      "run_missing (hush c k0 e) (missing s1) ts1 (set_pl (Some l') s1) =
         map_state1 (set_pl (Some l1)) (run_missing e (missing s1) ts1 s1)" by blast
    then have "run_body (hush c k0 e) (set_pl (Some l') s) =
        map_state (set_pl (Some l1)) (run_body e s)"
      using resolve by (simp add: start)
    then show ?thesis by blast
  next
    case (reload_raises ts1 s1 ts2 s2 x s3)
    with w have p1: "pl s1 = Some l" by simp
    from run_missing_hush [OF p1, of c k0 e "missing s1" ts1 l'] obtain l1 where
      l1: "run_missing (hush c k0 e) (missing s1) ts1 (set_pl (Some l') s1) =
         map_state1 (set_pl (Some l1)) (run_missing e (missing s1) ts1 s1)" by blast
    from run_missing_grows [OF p1, of e "missing s1" ts1] reload_raises
    obtain e1 where e1: "pl s2 = Some (l @ e1)" by auto
    from run_toload_hush [OF e1, of c k0 e ts2 l1] obtain l2 where
      "run_toload (hush c k0 e) ts2 (set_pl (Some l1) s2) =
         map_state (set_pl (Some l2)) (run_toload e ts2 s2)" by blast
    then have "run_body (hush c k0 e) (set_pl (Some l') s) =
        map_state (set_pl (Some l2)) (run_body e s)"
      using reload_raises l1 by (simp add: start)
    then show ?thesis by blast
  next
    case (returns ts1 s1 ts2 s2 s3)
    with w have p1: "pl s1 = Some l" by simp
    from run_missing_hush [OF p1, of c k0 e "missing s1" ts1 l'] obtain l1 where
      l1: "run_missing (hush c k0 e) (missing s1) ts1 (set_pl (Some l') s1) =
         map_state1 (set_pl (Some l1)) (run_missing e (missing s1) ts1 s1)" by blast
    from run_missing_grows [OF p1, of e "missing s1" ts1] returns
    obtain e1 where e1: "pl s2 = Some (l @ e1)" by auto
    from run_toload_hush [OF e1, of c k0 e ts2 l1] obtain l2 where
      "run_toload (hush c k0 e) ts2 (set_pl (Some l1) s2) =
         map_state (set_pl (Some l2)) (run_toload e ts2 s2)" by blast
    then have "run_body (hush c k0 e) (set_pl (Some l') s) =
        map_state (set_pl (Some l2)) (run_body e s)"
      using returns l1 by (simp add: start)
    then show ?thesis by blast
  qed
qed

lemma run_hush:
  "pl s = Some l \<Longrightarrow>
   \<exists>l1. run (map (hush c k0) es) (set_pl (Some l') s) = map_outcome (set_pl (Some l1)) (run es s)"
proof (induction es arbitrary: s l l')
  case Nil
  have "run [] (set_pl (Some l') s) = map_outcome (set_pl (Some l')) (run [] s)"
    by (simp add: is_set_set_pl split: option.splits)
  then show ?case by auto
next
  case (Cons e es)
  show ?case
  proof (cases "interval s = None \<or> is_set s")
    case True
    then have "run (map (hush c k0) (e # es)) (set_pl (Some l') s) =
        map_outcome (set_pl (Some l')) (run (e # es) s)"
      by (auto simp: is_set_set_pl split: option.splits)
    then show ?thesis by blast
  next
    case False
    then obtain i where i: "interval s = Some i" "\<not> is_set s" by auto
    obtain l1 where l1: "run_body (hush c k0 e) (set_pl (Some l') s) =
        map_state (set_pl (Some l1)) (run_body e s)"
      using run_body_hush [OF Cons.prems] by blast
    obtain e1 where e1: "pl (result_state (run_body e s)) = Some (l @ e1)"
      using run_body_grows [OF Cons.prems] by blast
    show ?thesis
    proof (cases "run_body e s")
      case (Inl r)
      obtain x t where r: "r = (x, t)" by (cases r)
      have "run (map (hush c k0) (e # es)) (set_pl (Some l') s) =
          map_outcome (set_pl (Some l1)) (run (e # es) s)"
        using i l1 Inl r by (simp add: is_set_set_pl)
      then show ?thesis by blast
    next
      case (Inr s1)
      with e1 have "pl (wait i s1) = Some (l @ e1)" by (simp add: wait_pl_trace)
      from Cons.IH [OF this, of l1] obtain l2 where
        "run (map (hush c k0) es) (set_pl (Some l1) (wait i s1)) =
           map_outcome (set_pl (Some l2)) (run es (wait i s1))" by blast
      then have "run (map (hush c k0) (e # es)) (set_pl (Some l') s) =
          map_outcome (set_pl (Some l2)) (run (e # es) s)"
        using i l1 Inr by (simp add: is_set_set_pl wait_set_pl)
      then show ?thesis by blast
    qed
  qed
qed

lemma map_state_twice: "map_state g (map_state h r) = map_state (g \<circ> h) r"
  by (cases r rule: result_state.cases) simp_all

lemma map_outcome_twice: "map_outcome g (map_outcome h r) = map_outcome (g \<circ> h) r"
  by (cases r) simp_all

lemma set_pl_comp: "set_pl x \<circ> set_pl y = set_pl x"
  by (rule ext) simp

lemma hush_same_cycle:
  assumes "pl s = Some l"
  shows "map_state (set_pl None) (run_body (hush c k e) s) =
         map_state (set_pl None) (run_body e s)"
proof -
  obtain l1 where "run_body (hush c k e) (set_pl (Some l) s) =
      map_state (set_pl (Some l1)) (run_body e s)"
    using run_body_hush [OF assms] by blast
  then show ?thesis
    using assms by (simp add: set_pl_same map_state_twice set_pl_comp)
qed

lemma hush_all_cycles:
  assumes "pl s = Some l"
  shows "map_outcome (set_pl None) (run (map (hush c k) es) s) =
         map_outcome (set_pl None) (run es s)"
proof -
  obtain l1 where "run (map (hush c k) es) (set_pl (Some l) s) =
      map_outcome (set_pl (Some l1)) (run es s)"
    using run_hush [OF assms] by blast
  then show ?thesis
    using assms by (simp add: set_pl_same map_outcome_twice set_pl_comp)
qed

lemma accounted_Nil: "accounted e [] []"
  by (simp add: accounted_def)

lemma accounted_append:
  "accounted e evs1 l1 \<Longrightarrow> accounted e evs2 l2 \<Longrightarrow> accounted e (evs1 @ evs2) (l1 @ l2)"
  by (auto simp: accounted_def)

lemma accounted_notify: "\<forall>ev \<in> set evs. is_notify ev \<Longrightarrow> accounted e evs []"
  by (auto simp: accounted_def)

lemma accounted_loads: "accounted e (map LoadCall ts) ents"
  by (auto simp: accounted_def)

lemma run_missing_functions_accounted:
  "pl s = Some l \<Longrightarrow>
   \<exists>evs ents. trace (result_state1 (run_missing_functions e k ps ts s)) = trace s @ evs \<and>
     pl (result_state1 (run_missing_functions e k ps ts s)) = Some (l @ ents) \<and>
     accounted e evs ents"
proof (induction ps arbitrary: ts s l)
  case Nil
  then show ?case by (simp add: accounted_Nil)
next
  case (Cons a rest)
  obtain c f where a: "a = (c, f)" by (cases a)
  let ?s1 = "s\<lparr>trace := trace s @ [CondCall c k]\<rparr>"
  have step: "\<exists>evs ents.
      trace (result_state1 (run_missing_functions e k rest ts' s')) = trace s @ evs \<and>
      pl (result_state1 (run_missing_functions e k rest ts' s')) = Some (l @ ents) \<and>
      accounted e evs ents"
    if "trace s' = trace s @ evs0" "pl s' = Some (l @ l0)" "accounted e evs0 l0"
    for s' ts' evs0 l0
  proof -
    from Cons.IH [OF that(2), of ts'] obtain evs ents where
      "trace (result_state1 (run_missing_functions e k rest ts' s')) = trace s' @ evs"
      "pl (result_state1 (run_missing_functions e k rest ts' s')) = Some ((l @ l0) @ ents)"
      "accounted e evs ents" by blast
    then have "trace (result_state1 (run_missing_functions e k rest ts' s')) =
        trace s @ (evs0 @ evs) \<and>
      pl (result_state1 (run_missing_functions e k rest ts' s')) = Some (l @ (l0 @ ents)) \<and>
      accounted e (evs0 @ evs) (l0 @ ents)"
      using that by (simp add: accounted_append)
    then show ?thesis by blast
  qed
  show ?case
  proof (cases "cond e c k")
    case (CondRaises m)
    let ?s2 = "?s1\<lparr>pl := Some (l @ [cond_error k m])\<rparr>"
    have r: "run_missing_functions e k (a # rest) ts s = run_missing_functions e k rest ts ?s2"
      using CondRaises Cons.prems by (simp add: a exception_def cond_error_def)
    have "accounted e [CondCall c k] [cond_error k m]"
      using CondRaises by (simp add: accounted_def)
    from step [of ?s2 "[CondCall c k]" "[cond_error k m]" ts, OF _ _ this] show ?thesis
      unfolding r by simp
  next
    case (CondReturns v)
    have a1: "accounted e [CondCall c k] []"
      using CondReturns by (simp add: accounted_def)
    show ?thesis
    proof (cases "v = None \<or> v = Some []")
      case True
      then have r: "run_missing_functions e k (a # rest) ts s =
          run_missing_functions e k rest ts ?s1"
        using CondReturns by (auto simp: a)
      from step [of ?s1 "[CondCall c k]" "[]" ts, OF _ _ a1] Cons.prems show ?thesis
        unfolding r by simp
    next
      case False
      then obtain p where p: "v = Some p" "p \<noteq> []" by auto
      let ?s2 = "?s1\<lparr>trace := trace ?s1 @ [Found k c f p]\<rparr>"
      have a2: "accounted e [CondCall c k, Found k c f p] []"
        using CondReturns p by (simp add: accounted_def)
      show ?thesis
      proof (cases "callback e f p")
        case None
        let ?s3 = "?s2\<lparr>missing := AList.map_entry k (removeAll (c, f)) (missing ?s2)\<rparr>"
        have r: "run_missing_functions e k (a # rest) ts s =
            run_missing_functions e k rest (ts @ [p]) ?s3"
          using CondReturns p None by (simp add: a)
        from step [of ?s3 "[CondCall c k, Found k c f p]" "[]" "ts @ [p]", OF _ _ a2] Cons.prems
        show ?thesis unfolding r by simp
      next
        case (Some m)
        then have "run_missing_functions e k (a # rest) ts s = Inl (Exn m, ?s2)"
          using CondReturns p by (simp add: a)
        then have "trace (result_state1 (run_missing_functions e k (a # rest) ts s)) =
              trace s @ [CondCall c k, Found k c f p] \<and>
            pl (result_state1 (run_missing_functions e k (a # rest) ts s)) = Some (l @ [])"
          using Cons.prems by simp
        with a2 show ?thesis by blast
      qed
    qed
  qed
qed

lemma run_missing_accounted:
  "pl s = Some l \<Longrightarrow>
   \<exists>evs ents. trace (result_state1 (run_missing e items ts s)) = trace s @ evs \<and>
     pl (result_state1 (run_missing e items ts s)) = Some (l @ ents) \<and> accounted e evs ents"
proof (induction items arbitrary: ts s l)
  case Nil
  then show ?case by (simp add: accounted_Nil)
next
  case (Cons a items)
  obtain k x where a: "a = (k, x)" by (cases a)
  let ?r = "run_missing_functions e k (functions_of (missing s) k) ts s"
  obtain evs1 l1 where 1: "trace (result_state1 ?r) = trace s @ evs1"
    "pl (result_state1 ?r) = Some (l @ l1)" "accounted e evs1 l1"
    using run_missing_functions_accounted [OF Cons.prems] by blast
  show ?case
  proof (cases ?r)
    case (Inl r)
    obtain y t where r: "r = (y, t)" by (cases r)
    have "run_missing e (a # items) ts s = ?r"
      using Inl by (simp add: a run_missing_Cons del: run_missing.simps)
    with 1 show ?thesis by metis
  next
    case (Inr r)
    obtain ts1 s1 where r: "r = (ts1, s1)" by (cases r)
    have whole: "run_missing e (a # items) ts s = run_missing e items ts1 (pop_if_empty k s1)"
      using Inr r by (simp add: a run_missing_Cons del: run_missing.simps)
    have p1: "pl (pop_if_empty k s1) = Some (l @ l1)"
      and t1: "trace (pop_if_empty k s1) = trace s @ evs1"
      using 1 Inr r by (simp_all add: pop_if_empty_fields)
    from Cons.IH [OF p1, of ts1] obtain evs2 l2 where 2:
      "trace (result_state1 (run_missing e items ts1 (pop_if_empty k s1))) =
         trace (pop_if_empty k s1) @ evs2"
      "pl (result_state1 (run_missing e items ts1 (pop_if_empty k s1))) = Some ((l @ l1) @ l2)"
      "accounted e evs2 l2" by blast
    have "trace (result_state1 (run_missing e (a # items) ts s)) = trace s @ (evs1 @ evs2) \<and>
      pl (result_state1 (run_missing e (a # items) ts s)) = Some (l @ (l1 @ l2)) \<and>
      accounted e (evs1 @ evs2) (l1 @ l2)"
      unfolding whole using 2 t1 1(3) by (simp add: accounted_append)
    then show ?thesis by blast
  qed
qed

lemma run_toload_loads:
  "pl s = Some l \<Longrightarrow>
   \<exists>ts' ents. trace (result_state (run_toload e ts s)) = trace s @ map LoadCall ts' \<and>
     pl (result_state (run_toload e ts s)) = Some (l @ ents)"
proof (induction ts arbitrary: s l)
  case Nil
  have "trace s = trace s @ map LoadCall []" by simp
  with Nil show ?case by (metis append_Nil2 result_state.simps(2) run_toload.simps(1))
next
  case (Cons p ts)
  let ?s1 = "s\<lparr>trace := trace s @ [LoadCall p]\<rparr>"
  have step: "\<exists>ts' ents.
      trace (result_state (run_toload e ts s')) = trace s @ map LoadCall ts' \<and>
      pl (result_state (run_toload e ts s')) = Some (l @ ents)"
    if "trace s' = trace s @ [LoadCall p]" "pl s' = Some (l @ l0)" for s' l0
  proof -
    from Cons.IH [OF that(2)] obtain ts' ents where
      "trace (result_state (run_toload e ts s')) = trace s' @ map LoadCall ts'"
      "pl (result_state (run_toload e ts s')) = Some ((l @ l0) @ ents)" by blast
    then have "trace (result_state (run_toload e ts s')) = trace s @ map LoadCall (p # ts') \<and>
      pl (result_state (run_toload e ts s')) = Some (l @ (l0 @ ents))"
      using that by simp
    then show ?thesis by blast
  qed
  show ?case
  proof (cases "loader e p")
    case (Inr v)
    let ?s2 = "?s1\<lparr>loaded := (loaded ?s1)(p \<mapsto> v)\<rparr>"
    have "run_toload e (p # ts) s = run_toload e ts ?s2" using Inr by simp
    with step [of ?s2 "[]"] Cons.prems show ?thesis by simp
  next
    case (Inl m)
    let ?s2 = "?s1\<lparr>pl := Some (l @ [load_error p m])\<rparr>"
    have "run_toload e (p # ts) s = run_toload e ts ?s2"
      using Inl Cons.prems by (simp add: exception_def load_error_def)
    with step [of ?s2 "[load_error p m]"] show ?thesis by simp
  qed
qed

lemma run_watched_notifies:
  "\<exists>evs. trace (result_state1 (run_watched e items ts s)) = trace s @ evs \<and>
     (\<forall>ev \<in> set evs. is_notify ev)"
proof (cases "run_watched e items ts s")
  case (Inl r)
  then show ?thesis using run_watched_trace [of e items ts s _ "snd r" "fst r"]
    by (cases r) auto
next
  case (Inr r)
  then show ?thesis using run_watched_trace [of e items ts s "fst r" "snd r"]
    by (cases r) auto
qed

lemma run_body_accounted:
  assumes "pl s = Some l"
  shows "\<exists>evs ents. trace (result_state (run_body e s)) = trace s @ evs \<and>
     pl (result_state (run_body e s)) = Some (l @ ents) \<and> accounted e evs ents"
proof -
  let ?s0 = "s\<lparr>watcher := touch (modified e) (watcher s)\<rparr>"
  have w: "pl (result_state1 (run_watched e (watched s) [] ?s0)) = Some l"
    using assms by (simp add: run_watched_pl)
  obtain evs0 where w0: "trace (result_state1 (run_watched e (watched s) [] ?s0)) = trace s @ evs0"
    and a0: "accounted e evs0 []"
    using run_watched_notifies [of e "watched s" "[]" ?s0] accounted_notify by auto
  show ?thesis
  proof (cases rule: run_body_phases [of e s])
    case (notify x s1)
    with w w0 have "trace (result_state (run_body e s)) = trace s @ evs0 \<and>
      pl (result_state (run_body e s)) = Some (l @ [])" by simp
    with a0 show ?thesis by blast
  next
    case (resolve ts1 s1 x s2)
    with w w0 have p1: "pl s1 = Some l" and t1: "trace s1 = trace s @ evs0" by simp_all
    from run_missing_accounted [OF p1, of e "missing s1" ts1] resolve obtain evs1 l1 where
      "trace s2 = trace s1 @ evs1" "pl s2 = Some (l @ l1)" "accounted e evs1 l1" by auto
    then have "trace (result_state (run_body e s)) = trace s @ (evs0 @ evs1) \<and>
      pl (result_state (run_body e s)) = Some (l @ ([] @ l1)) \<and>
      accounted e (evs0 @ evs1) ([] @ l1)"
      using resolve t1 accounted_append [OF a0] by simp
    then show ?thesis by blast
  next
    case (reload_raises ts1 s1 ts2 s2 x s3)
    with w w0 have p1: "pl s1 = Some l" and t1: "trace s1 = trace s @ evs0" by simp_all
    from run_missing_accounted [OF p1, of e "missing s1" ts1] reload_raises obtain evs1 l1 where
      1: "trace s2 = trace s1 @ evs1" "pl s2 = Some (l @ l1)" "accounted e evs1 l1" by auto
    from run_toload_loads [OF 1(2), of e ts2] reload_raises obtain ts' l2 where
      2: "trace s3 = trace s2 @ map LoadCall ts'" "pl s3 = Some ((l @ l1) @ l2)" by auto
    have "accounted e (evs0 @ evs1 @ map LoadCall ts') ([] @ l1 @ l2)"
      by (intro accounted_append a0 1(3) accounted_loads)
    moreover have "trace (result_state (run_body e s)) =
        trace s @ (evs0 @ evs1 @ map LoadCall ts') \<and>
      pl (result_state (run_body e s)) = Some (l @ ([] @ l1 @ l2))"
      using reload_raises t1 1 2 by simp
    ultimately show ?thesis by blast
  next
    case (returns ts1 s1 ts2 s2 s3)
    with w w0 have p1: "pl s1 = Some l" and t1: "trace s1 = trace s @ evs0" by simp_all
    from run_missing_accounted [OF p1, of e "missing s1" ts1] returns obtain evs1 l1 where
      1: "trace s2 = trace s1 @ evs1" "pl s2 = Some (l @ l1)" "accounted e evs1 l1" by auto
    from run_toload_loads [OF 1(2), of e ts2] returns obtain ts' l2 where
      2: "trace s3 = trace s2 @ map LoadCall ts'" "pl s3 = Some ((l @ l1) @ l2)" by auto
    have "accounted e (evs0 @ evs1 @ map LoadCall ts') ([] @ l1 @ l2)"
      by (intro accounted_append a0 1(3) accounted_loads)
    moreover have "trace (result_state (run_body e s)) =
        trace s @ (evs0 @ evs1 @ map LoadCall ts') \<and>
      pl (result_state (run_body e s)) = Some (l @ ([] @ l1 @ l2))"
      using returns t1 1 2 by simp
    ultimately show ?thesis by blast
  qed
qed

lemma functions_of_delete:
  "functions_of (AList.delete k al) k' = (if k' = k then [] else functions_of al k')"
  by (simp add: functions_of_def delete_conv')

lemma pop_if_empty_keeps:
  "pr \<in> set (functions_of (missing s) k0) \<Longrightarrow>
   pr \<in> set (functions_of (missing (pop_if_empty k s)) k0)"
  by (auto simp: pop_if_empty_def functions_of_delete)

lemma run_missing_functions_keeps:
  "(c, f) \<in> set (functions_of (missing s) k0) \<Longrightarrow> cond e c k0 = CondRaises m \<Longrightarrow>
   (c, f) \<in> set (functions_of (missing (result_state1 (run_missing_functions e k ps ts s))) k0)"
proof (induction ps arbitrary: ts s)
  case Nil
  then show ?case by simp
next
  case (Cons a rest)
  obtain c' f' where a: "a = (c', f')" by (cases a)
  let ?s1 = "s\<lparr>trace := trace s @ [CondCall c' k]\<rparr>"
  have m1: "(c, f) \<in> set (functions_of (missing ?s1) k0)" using Cons.prems(1) by simp
  show ?case
  proof (cases "cond e c' k")
    case (CondRaises m')
    show ?thesis
    proof (cases "pl s")
      case None
      then show ?thesis using CondRaises Cons.prems(1) by (simp add: a exception_def)
    next
      case (Some l)
      let ?s2 = "?s1\<lparr>pl := Some (l @ [cond_error k m'])\<rparr>"
      have "run_missing_functions e k (a # rest) ts s = run_missing_functions e k rest ts ?s2"
        using CondRaises Some by (simp add: a exception_def cond_error_def)
      moreover have "(c, f) \<in> set (functions_of (missing ?s2) k0)" using Cons.prems(1) by simp
      ultimately show ?thesis using Cons.IH [OF _ Cons.prems(2), of ?s2 ts] by simp
    qed
  next
    case (CondReturns v)
    show ?thesis
    proof (cases "v = None \<or> v = Some []")
      case True
      then have "run_missing_functions e k (a # rest) ts s =
          run_missing_functions e k rest ts ?s1"
        using CondReturns by (auto simp: a)
      then show ?thesis using Cons.IH [OF m1 Cons.prems(2), of ts] by simp
    next
      case False
      then obtain p where p: "v = Some p" "p \<noteq> []" by auto
      let ?s2 = "?s1\<lparr>trace := trace ?s1 @ [Found k c' f' p]\<rparr>"
      show ?thesis
      proof (cases "callback e f' p")
        case None
        let ?s3 = "?s2\<lparr>missing := AList.map_entry k (removeAll (c', f')) (missing ?s2)\<rparr>"
        have r: "run_missing_functions e k (a # rest) ts s =
            run_missing_functions e k rest (ts @ [p]) ?s3"
          using CondReturns p None by (simp add: a)
        have "(c, f) \<in> set (functions_of (missing ?s3) k0)"
        proof (cases "k = k0")
          case True
          then have ne: "(c, f) \<noteq> (c', f')"
            using CondReturns Cons.prems(2) by auto
          from Cons.prems(1) obtain v where "map_of (missing s) k0 = Some v" "(c, f) \<in> set v"
            by (cases "map_of (missing s) k0") (auto simp: functions_of_def)
          then show ?thesis using True ne by (simp add: functions_of_map_entry)
        next
          case False
          then show ?thesis using Cons.prems(1) by (simp add: functions_of_map_entry)
        qed
        from Cons.IH [OF this Cons.prems(2), of "ts @ [p]"] show ?thesis unfolding r .
      next
        case (Some mm)
        then have "run_missing_functions e k (a # rest) ts s = Inl (Exn mm, ?s2)"
          using CondReturns p by (simp add: a)
        then show ?thesis using Cons.prems(1) by simp
      qed
    qed
  qed
qed

lemma run_missing_keeps:
  "(c, f) \<in> set (functions_of (missing s) k0) \<Longrightarrow> cond e c k0 = CondRaises m \<Longrightarrow>
   (c, f) \<in> set (functions_of (missing (result_state1 (run_missing e items ts s))) k0)"
proof (induction items arbitrary: ts s)
  case Nil
  then show ?case by simp
next
  case (Cons a items)
  obtain k x where a: "a = (k, x)" by (cases a)
  let ?r = "run_missing_functions e k (functions_of (missing s) k) ts s"
  have 1: "(c, f) \<in> set (functions_of (missing (result_state1 ?r)) k0)"
    using run_missing_functions_keeps [OF Cons.prems] .
  show ?case
  proof (cases ?r)
    case (Inl r)
    obtain y t where r: "r = (y, t)" by (cases r)
    have "run_missing e (a # items) ts s = ?r"
      using Inl by (simp add: a run_missing_Cons del: run_missing.simps)
    with 1 show ?thesis by simp
  next
    case (Inr r)
    obtain ts1 s1 where r: "r = (ts1, s1)" by (cases r)
    have whole: "run_missing e (a # items) ts s = run_missing e items ts1 (pop_if_empty k s1)"
      using Inr r by (simp add: a run_missing_Cons del: run_missing.simps)
    have "(c, f) \<in> set (functions_of (missing (pop_if_empty k s1)) k0)"
      using 1 Inr r by (simp add: pop_if_empty_keeps)
    from Cons.IH [OF this Cons.prems(2), of ts1] show ?thesis unfolding whole .
  qed
qed

lemma run_toload_missing: "missing (result_state (run_toload e ts s)) = missing s"
proof (induction ts arbitrary: s)
  case Nil
  then show ?case by simp
next
  case (Cons p ts)
  show ?case
    by (auto simp: Let_def exception_def Cons.IH split: sum.splits option.splits)
qed

lemma run_watched_missing:
  "missing (result_state1 (run_watched e items ts s)) = missing s"
proof (cases "run_watched e items ts s")
  case (Inl r)
  then show ?thesis using run_watched_frame [of e items ts s _ "snd r" "fst r"] by (cases r) simp
next
  case (Inr r)
  then show ?thesis using run_watched_frame [of e items ts s "fst r" "snd r"] by (cases r) simp
qed

lemma run_body_keeps:
  assumes "(c, f) \<in> set (functions_of (missing s) k0)" and "cond e c k0 = CondRaises m"
  shows "(c, f) \<in> set (functions_of (missing (result_state (run_body e s))) k0)"
proof -
  let ?s0 = "s\<lparr>watcher := touch (modified e) (watcher s)\<rparr>"
  have w: "missing (result_state1 (run_watched e (watched s) [] ?s0)) = missing s"
    by (simp add: run_watched_missing)
  show ?thesis
  proof (cases rule: run_body_phases [of e s])
    case (notify x s1)
    with w assms(1) show ?thesis by simp
  next
    case (resolve ts1 s1 x s2)
    with w assms(1) have "(c, f) \<in> set (functions_of (missing s1) k0)" by simp
    from run_missing_keeps [OF this assms(2), of "missing s1" ts1] resolve show ?thesis by simp
  next
    case (reload_raises ts1 s1 ts2 s2 x s3)
    with w assms(1) have "(c, f) \<in> set (functions_of (missing s1) k0)" by simp
    from run_missing_keeps [OF this assms(2), of "missing s1" ts1] reload_raises
    have "(c, f) \<in> set (functions_of (missing s2) k0)" by simp
    moreover have "missing s3 = missing s2"
      using run_toload_missing [of e ts2 s2] reload_raises by simp
    ultimately show ?thesis using reload_raises by simp
  next
    case (returns ts1 s1 ts2 s2 s3)
    with w assms(1) have "(c, f) \<in> set (functions_of (missing s1) k0)" by simp
    from run_missing_keeps [OF this assms(2), of "missing s1" ts1] returns
    have "(c, f) \<in> set (functions_of (missing s2) k0)" by simp
    moreover have "missing s3 = missing s2"
      using run_toload_missing [of e ts2 s2] returns by simp
    ultimately show ?thesis using returns by simp
  qed
qed

lemma run_watched_functions_Inl_callback:
  "run_watched_functions e p fs ts s = Inl (x, t) \<Longrightarrow>
   \<exists>f mm. callback e f p = Some mm \<and> x = Exn mm"
proof (induction fs arbitrary: ts s)
  case Nil
  then show ?case by simp
next
  case (Cons f fs)
  from Cons.prems show ?case
    by (auto simp: check_def Let_def split: if_splits option.splits dest!: Cons.IH)
qed

lemma run_watched_Inl_callback:
  "run_watched e items ts s = Inl (x, t) \<Longrightarrow>
   \<exists>f p mm. callback e f p = Some mm \<and> x = Exn mm"
proof (induction items arbitrary: ts s)
  case Nil
  then show ?case by simp
next
  case (Cons a items)
  obtain p fs where a: "a = (p, fs)" by (cases a)
  from Cons.prems show ?case
    unfolding a
    by (auto split: sum.splits dest!: Cons.IH run_watched_functions_Inl_callback)
qed

lemma run_missing_functions_Inl_callback:
  "pl s \<noteq> None \<Longrightarrow> run_missing_functions e k ps ts s = Inl (x, t) \<Longrightarrow>
   \<exists>f p mm. callback e f p = Some mm \<and> x = Exn mm"
proof (induction ps arbitrary: ts s)
  case Nil
  then show ?case by simp
next
  case (Cons a rest)
  obtain c f where a: "a = (c, f)" by (cases a)
  let ?s1 = "s\<lparr>trace := trace s @ [CondCall c k]\<rparr>"
  from Cons.prems(1) obtain l where l: "pl s = Some l" by auto
  show ?case
  proof (cases "cond e c k")
    case (CondRaises m)
    let ?s2 = "?s1\<lparr>pl := Some (l @ [cond_error k m])\<rparr>"
    have "run_missing_functions e k (a # rest) ts s = run_missing_functions e k rest ts ?s2"
      using CondRaises l by (simp add: a exception_def cond_error_def)
    with Cons.prems(2) Cons.IH [of ?s2 ts] show ?thesis by simp
  next
    case (CondReturns v)
    show ?thesis
    proof (cases "v = None \<or> v = Some []")
      case True
      then have "run_missing_functions e k (a # rest) ts s =
          run_missing_functions e k rest ts ?s1"
        using CondReturns by (auto simp: a)
      with Cons.prems Cons.IH [of ?s1 ts] show ?thesis by simp
    next
      case False
      then obtain p where p: "v = Some p" "p \<noteq> []" by auto
      let ?s2 = "?s1\<lparr>trace := trace ?s1 @ [Found k c f p]\<rparr>"
      show ?thesis
      proof (cases "callback e f p")
        case None
        let ?s3 = "?s2\<lparr>missing := AList.map_entry k (removeAll (c, f)) (missing ?s2)\<rparr>"
        have "run_missing_functions e k (a # rest) ts s =
            run_missing_functions e k rest (ts @ [p]) ?s3"
          using CondReturns p None by (simp add: a)
        with Cons.prems Cons.IH [of ?s3 "ts @ [p]"] show ?thesis by simp
      next
        case (Some mm)
        then have "run_missing_functions e k (a # rest) ts s = Inl (Exn mm, ?s2)"
          using CondReturns p by (simp add: a)
        with Cons.prems(2) Some show ?thesis by auto
      qed
    qed
  qed
qed

lemma run_missing_Inl_callback:
  "pl s \<noteq> None \<Longrightarrow> run_missing e items ts s = Inl (x, t) \<Longrightarrow>
   \<exists>f p mm. callback e f p = Some mm \<and> x = Exn mm"
proof (induction items arbitrary: ts s)
  case Nil
  then show ?case by simp
next
  case (Cons a items)
  obtain k y where a: "a = (k, y)" by (cases a)
  from Cons.prems(2) [unfolded a run_missing_Cons_Inl] show ?case
  proof
    assume "run_missing_functions e k (functions_of (missing s) k) ts s = Inl (x, t)"
    from run_missing_functions_Inl_callback [OF Cons.prems(1) this] show ?thesis .
  next
    assume "\<exists>ts1 s1. run_missing_functions e k (functions_of (missing s) k) ts s = Inr (ts1, s1) \<and>
       run_missing e items ts1 (pop_if_empty k s1) = Inl (x, t)"
    then obtain ts1 s1 where
      1: "run_missing_functions e k (functions_of (missing s) k) ts s = Inr (ts1, s1)"
      and 2: "run_missing e items ts1 (pop_if_empty k s1) = Inl (x, t)" by blast
    from Cons.prems(1) obtain l where l: "pl s = Some l" by auto
    from run_missing_functions_grows [OF l, of e k "functions_of (missing s) k" ts] 1
    have "pl (pop_if_empty k s1) \<noteq> None" by (auto simp: pop_if_empty_fields)
    from Cons.IH [OF this 2] show ?thesis .
  qed
qed

lemma run_body_Inl_callback:
  assumes "pl s = Some l" and "run_body e s = Inl (x, t)"
  shows "\<exists>f p mm. callback e f p = Some mm \<and> x = Exn mm"
proof -
  let ?s0 = "s\<lparr>watcher := touch (modified e) (watcher s)\<rparr>"
  have w: "pl (result_state1 (run_watched e (watched s) [] ?s0)) = Some l"
    using assms(1) by (simp add: run_watched_pl)
  show ?thesis
  proof (cases rule: run_body_phases [of e s])
    case (notify x' s1)
    with assms(2) have "run_watched e (watched s) [] ?s0 = Inl (x, s1)" by simp
    from run_watched_Inl_callback [OF this] show ?thesis .
  next
    case (resolve ts1 s1 x' s2)
    with w have p1: "pl s1 \<noteq> None" by simp
    from resolve assms(2) have "run_missing e (missing s1) ts1 s1 = Inl (x, s2)" by simp
    from run_missing_Inl_callback [OF p1 this] show ?thesis .
  next
    case (reload_raises ts1 s1 ts2 s2 x' s3)
    with w have p1: "pl s1 = Some l" by simp
    from run_missing_grows [OF p1, of e "missing s1" ts1] reload_raises
    have "pl s2 \<noteq> None" by auto
    from run_toload_returns [OF this, of e ts2] reload_raises show ?thesis by simp
  next
    case (returns ts1 s1 ts2 s2 s3)
    with assms(2) show ?thesis by simp
  qed
qed

lemma origin_append: "origin evs p \<or> origin evs' p \<Longrightarrow> origin (evs @ evs') p"
  by (auto simp: origin_def)

lemma run_watched_functions_origin:
  assumes "run_watched_functions e p fs ts s = Inr (ts', s')"
  shows "\<exists>evs. trace s' = trace s @ evs \<and> (\<forall>q \<in> set ts'. q \<in> set ts \<or> origin evs q)"
proof (cases rule: run_watched_functions_cases [of e p fs ts s])
  case unchanged
  with assms have "trace s' = trace s @ []" "ts' = ts" by simp_all
  then show ?thesis by blast
next
  case (notified f rest)
  with assms have "trace s' = trace s @ [Notify f p]" "ts' = ts @ [p]" by auto
  moreover have "origin [Notify f p] p" by (simp add: origin_def)
  ultimately show ?thesis by auto
next
  case (raised f rest m)
  with assms show ?thesis by simp
qed

lemma run_watched_origin:
  "run_watched e items ts s = Inr (ts', s') \<Longrightarrow>
   \<exists>evs. trace s' = trace s @ evs \<and> (\<forall>q \<in> set ts'. q \<in> set ts \<or> origin evs q)"
proof (induction items arbitrary: ts s)
  case Nil
  then have "trace s' = trace s @ []" "ts' = ts" by simp_all
  then show ?case by blast
next
  case (Cons a items)
  obtain p fs where a: "a = (p, fs)" by (cases a)
  from Cons.prems obtain ts1 s1 where
    1: "run_watched_functions e p fs ts s = Inr (ts1, s1)"
    and 2: "run_watched e items ts1 s1 = Inr (ts', s')"
    unfolding a by (auto split: sum.splits)
  from run_watched_functions_origin [OF 1] obtain evs1 where
    e1: "trace s1 = trace s @ evs1" "\<forall>q \<in> set ts1. q \<in> set ts \<or> origin evs1 q" by blast
  from Cons.IH [OF 2] obtain evs2 where
    e2: "trace s' = trace s1 @ evs2" "\<forall>q \<in> set ts'. q \<in> set ts1 \<or> origin evs2 q" by blast
  have "trace s' = trace s @ (evs1 @ evs2)" using e1 e2 by simp
  moreover have "\<forall>q \<in> set ts'. q \<in> set ts \<or> origin (evs1 @ evs2) q"
    using e1(2) e2(2) origin_append by blast
  ultimately show ?case by blast
qed

lemma pair_paths_origin: "q \<in> set (pair_paths e k pr) \<Longrightarrow> origin (pair_events e k pr) q"
  by (cases pr) (auto simp: origin_def split: cond_result.splits option.splits if_splits)

lemma run_missing_functions_origin:
  assumes "run_missing_functions e k ps ts s = Inr (ts', s')"
  shows "\<exists>evs. trace s' = trace s @ evs \<and> (\<forall>q \<in> set ts'. q \<in> set ts \<or> origin evs q)"
proof -
  let ?evs = "concat (map (pair_events e k) ps)"
  have t: "trace s' = trace s @ ?evs"
    using run_missing_functions_trace [OF assms] .
  have "q \<in> set ts \<or> origin ?evs q" if "q \<in> set ts'" for q
  proof -
    from that run_missing_functions_toload [OF assms]
    have "q \<in> set ts \<or> (\<exists>pr \<in> set ps. q \<in> set (pair_paths e k pr))" by auto
    then show ?thesis
    proof
      assume "q \<in> set ts"
      then show ?thesis ..
    next
      assume "\<exists>pr \<in> set ps. q \<in> set (pair_paths e k pr)"
      then obtain pr where pr: "pr \<in> set ps" "q \<in> set (pair_paths e k pr)" by blast
      from pair_paths_origin [OF pr(2)] pr(1) have "origin ?evs q"
        by (auto simp: origin_def)
      then show ?thesis ..
    qed
  qed
  with t show ?thesis by blast
qed

lemma run_missing_origin:
  "run_missing e items ts s = Inr (ts', s') \<Longrightarrow>
   \<exists>evs. trace s' = trace s @ evs \<and> (\<forall>q \<in> set ts'. q \<in> set ts \<or> origin evs q)"
proof (induction items arbitrary: ts s)
  case Nil
  then have "trace s' = trace s @ []" "ts' = ts" by simp_all
  then show ?case by blast
next
  case (Cons a items)
  obtain k x where a: "a = (k, x)" by (cases a)
  from Cons.prems obtain ts1 s1 where
    1: "run_missing_functions e k (functions_of (missing s) k) ts s = Inr (ts1, s1)"
    and 2: "run_missing e items ts1 (pop_if_empty k s1) = Inr (ts', s')"
    unfolding a run_missing_Cons_Inr by blast
  from run_missing_functions_origin [OF 1] obtain evs1 where
    e1: "trace s1 = trace s @ evs1" "\<forall>q \<in> set ts1. q \<in> set ts \<or> origin evs1 q" by blast
  from Cons.IH [OF 2] obtain evs2 where
    e2: "trace s' = trace (pop_if_empty k s1) @ evs2"
      "\<forall>q \<in> set ts'. q \<in> set ts1 \<or> origin evs2 q" by blast
  have "trace s' = trace s @ (evs1 @ evs2)" using e1 e2 by (simp add: pop_if_empty_fields)
  moreover have "\<forall>q \<in> set ts'. q \<in> set ts \<or> origin (evs1 @ evs2) q"
    using e1(2) e2(2) origin_append by blast
  ultimately show ?case by blast
qed

lemma run_missing_functions_no_load:
  "\<exists>evs. trace (result_state1 (run_missing_functions e k ps ts s)) = trace s @ evs \<and>
     (\<forall>p. LoadCall p \<notin> set evs)"
proof (induction ps arbitrary: ts s)
  case Nil
  then show ?case by simp
next
  case (Cons a rest)
  obtain c f where a: "a = (c, f)" by (cases a)
  have step: "\<exists>evs. trace (result_state1 (run_missing_functions e k rest ts' s')) =
      trace s @ evs \<and> (\<forall>p. LoadCall p \<notin> set evs)"
    if "\<exists>evs0. trace s' = trace s @ evs0 \<and> (\<forall>p. LoadCall p \<notin> set evs0)" for s' ts'
  proof -
    from that obtain evs0 where 0: "trace s' = trace s @ evs0" "\<forall>p. LoadCall p \<notin> set evs0"
      by blast
    from Cons.IH [of ts' s'] obtain evs where
      1: "trace (result_state1 (run_missing_functions e k rest ts' s')) = trace s' @ evs"
      "\<forall>p. LoadCall p \<notin> set evs" by blast
    have "trace (result_state1 (run_missing_functions e k rest ts' s')) = trace s @ (evs0 @ evs)
      \<and> (\<forall>p. LoadCall p \<notin> set (evs0 @ evs))"
      using 0 1 by simp
    then show ?thesis by blast
  qed
  show ?case
    unfolding a
    by (auto simp: Let_def exception_def split: cond_result.splits option.splits intro!: step)
qed

lemma run_missing_no_load:
  "\<exists>evs. trace (result_state1 (run_missing e items ts s)) = trace s @ evs \<and>
     (\<forall>p. LoadCall p \<notin> set evs)"
proof (induction items arbitrary: ts s)
  case Nil
  then show ?case by simp
next
  case (Cons a items)
  obtain k x where a: "a = (k, x)" by (cases a)
  let ?r = "run_missing_functions e k (functions_of (missing s) k) ts s"
  obtain evs1 where 1: "trace (result_state1 ?r) = trace s @ evs1" "\<forall>p. LoadCall p \<notin> set evs1"
    using run_missing_functions_no_load by blast
  show ?case
  proof (cases ?r)
    case (Inl r)
    obtain y t where r: "r = (y, t)" by (cases r)
    have "run_missing e (a # items) ts s = ?r"
      using Inl by (simp add: a run_missing_Cons del: run_missing.simps)
    with 1 show ?thesis by metis
  next
    case (Inr r)
    obtain ts1 s1 where r: "r = (ts1, s1)" by (cases r)
    have whole: "run_missing e (a # items) ts s = run_missing e items ts1 (pop_if_empty k s1)"
      using Inr r by (simp add: a run_missing_Cons del: run_missing.simps)
    from Cons.IH [of ts1 "pop_if_empty k s1"] obtain evs2 where 2:
      "trace (result_state1 (run_missing e items ts1 (pop_if_empty k s1))) =
         trace (pop_if_empty k s1) @ evs2" "\<forall>p. LoadCall p \<notin> set evs2" by blast
    have "trace (result_state1 (run_missing e (a # items) ts s)) = trace s @ (evs1 @ evs2) \<and>
      (\<forall>p. LoadCall p \<notin> set (evs1 @ evs2))"
      unfolding whole using 1 2 Inr r by (simp add: pop_if_empty_fields)
    then show ?thesis by blast
  qed
qed

lemma run_body_loads_origin:
  assumes "pl s = Some l" and "trace (result_state (run_body e s)) = trace s @ evs"
    and "LoadCall p \<in> set evs"
  shows "origin evs p"
proof -
  let ?s0 = "s\<lparr>watcher := touch (modified e) (watcher s)\<rparr>"
  have w: "pl (result_state1 (run_watched e (watched s) [] ?s0)) = Some l"
    using assms(1) by (simp add: run_watched_pl)
  obtain evs0 where w0: "trace (result_state1 (run_watched e (watched s) [] ?s0)) = trace s @ evs0"
    and n0: "\<forall>ev \<in> set evs0. is_notify ev"
    using run_watched_notifies [of e "watched s" "[]" ?s0] by auto
  have nl0: "LoadCall p \<notin> set evs0" using n0 by auto
  show ?thesis
  proof (cases rule: run_body_phases [of e s])
    case (notify x s1)
    with w0 assms(2) have "evs = evs0" by simp
    with nl0 assms(3) show ?thesis by simp
  next
    case (resolve ts1 s1 x s2)
    with w0 have t1: "trace s1 = trace s @ evs0" by simp
    from run_missing_no_load [of e "missing s1" ts1 s1] resolve obtain evs1 where
      "trace s2 = trace s1 @ evs1" "\<forall>p. LoadCall p \<notin> set evs1" by auto
    with t1 resolve assms(2) have "evs = evs0 @ evs1" "LoadCall p \<notin> set evs1" by simp_all
    with nl0 assms(3) show ?thesis by simp
  next
    case (reload_raises ts1 s1 ts2 s2 x s3)
    with w have p1: "pl s1 = Some l" by simp
    from run_missing_grows [OF p1, of e "missing s1" ts1] reload_raises
    have "pl s2 \<noteq> None" by auto
    from run_toload_returns [OF this, of e ts2] reload_raises show ?thesis by simp
  next
    case (returns ts1 s1 ts2 s2 s3)
    from run_watched_origin [OF returns(1)] obtain evs1 where
      1: "trace s1 = trace s @ evs1" "\<forall>q \<in> set ts1. origin evs1 q" by auto
    from run_missing_origin [OF returns(2)] obtain evs2 where
      2: "trace s2 = trace s1 @ evs2" "\<forall>q \<in> set ts2. q \<in> set ts1 \<or> origin evs2 q" by blast
    have 3: "trace s3 = trace s2 @ map LoadCall ts2"
      using run_toload_trace [OF returns(3)] .
    have evs: "evs = evs1 @ evs2 @ map LoadCall ts2"
      using assms(2) returns 1 2 3 by simp
    have "LoadCall p \<notin> set evs1"
      using w0 n0 1(1) returns(1) by auto
    moreover have "LoadCall p \<notin> set evs2"
      using run_missing_no_load [of e "missing s1" ts1 s1] returns(2) 2(1) by auto
    ultimately have "p \<in> set ts2" using assms(3) evs by auto
    with 1(2) 2(2) have "origin evs1 p \<or> origin evs2 p" by blast
    then show ?thesis unfolding evs by (auto simp: origin_def)
  qed
qed

text \<open>
  C3: take a loader with a logger attached, a pair \<open>(c, f)\<close> pending under the key \<open>k\<close>
  and a cycle in which \<open>c(k)\<close> raises \<open>m\<close>; nothing is assumed of the callbacks or of the
  other condition functions. Let \<open>t\<close> be the state in which the cycle ends, \<open>evs\<close> the calls
  made in it and \<open>l'\<close> the entries the logger received in it. Logged: if \<open>c(k)\<close> was called,
  its error is among \<open>l'\<close>. Skipped: no callback was called for a path found by \<open>c\<close> under
  \<open>k\<close>, every reload of the cycle is that of a path whose change was notified or that
  another condition function found, and the pair is still pending in \<open>t\<close>. Isolated: but
  for the log, the cycle, and any run of the loop, is the one in which \<open>c(k)\<close> had quietly
  returned \<open>None\<close> wherever it raises; the only exception that can end the cycle is that
  of a callback; and when the cycle returns, every pair pending when it started has had
  its condition function called, the error of \<open>c(k)\<close> is logged, and the loop goes on to
  the next cycle from a well-formed state with the logger attached and the pair pending.
\<close>

theorem raising_condition_isolated:
  assumes "wf s" and "pl s = Some l"
    and "(c, f) \<in> set (functions_of (missing s) k)" and "cond e c k = CondRaises m"
  shows "\<exists>t evs l'.
     t = result_state (run_body e s) \<and> trace t = trace s @ evs \<and> pl t = Some (l @ l') \<and>
     (CondCall c k \<in> set evs \<longrightarrow> cond_error k m \<in> set l') \<and>
     (\<forall>f' p. Found k c f' p \<notin> set evs) \<and>
     (\<forall>p. LoadCall p \<in> set evs \<longrightarrow>
        (\<exists>f'. Notify f' p \<in> set evs) \<or> (\<exists>k' c' f'. Found k' c' f' p \<in> set evs)) \<and>
     (c, f) \<in> set (functions_of (missing t) k) \<and>
     map_state (set_pl None) (run_body e s) =
       map_state (set_pl None) (run_body (hush c k e) s) \<and>
     (\<forall>es. map_outcome (set_pl None) (run es s) =
        map_outcome (set_pl None) (run (map (hush c k) es) s)) \<and>
     (\<forall>x. run_body e s = Inl (x, t) \<longrightarrow> (\<exists>f' p mm. callback e f' p = Some mm \<and> x = Exn mm)) \<and>
     (run_body e s = Inr t \<longrightarrow>
        (\<forall>k' c' f'. (c', f') \<in> set (functions_of (missing s) k') \<longrightarrow> CondCall c' k' \<in> set evs) \<and>
        cond_error k m \<in> set l' \<and> wf t \<and>
        (\<forall>i es. interval s = Some i \<and> \<not> is_set s \<longrightarrow> run (e # es) s = run es (wait i t)))"
proof -
  let ?t = "result_state (run_body e s)"
  obtain evs l' where t: "trace ?t = trace s @ evs" and p: "pl ?t = Some (l @ l')"
    and acc: "accounted e evs l'"
    using run_body_accounted [OF assms(2)] by blast
  have c1: "CondCall c k \<in> set evs \<longrightarrow> cond_error k m \<in> set l'"
    using acc assms(4) unfolding accounted_def by blast
  have c2: "\<forall>f' p. Found k c f' p \<notin> set evs"
    using acc assms(4) unfolding accounted_def by auto
  have c3: "\<forall>p. LoadCall p \<in> set evs \<longrightarrow>
        (\<exists>f'. Notify f' p \<in> set evs) \<or> (\<exists>k' c' f'. Found k' c' f' p \<in> set evs)"
    using run_body_loads_origin [OF assms(2) t] unfolding origin_def by blast
  have c4: "(c, f) \<in> set (functions_of (missing ?t) k)"
    using run_body_keeps [OF assms(3,4)] .
  have c5: "map_state (set_pl None) (run_body e s) =
       map_state (set_pl None) (run_body (hush c k e) s)"
    using hush_same_cycle [OF assms(2), of c k e] by simp
  have c6: "\<forall>es. map_outcome (set_pl None) (run es s) =
        map_outcome (set_pl None) (run (map (hush c k) es) s)"
    using hush_all_cycles [OF assms(2), of c k] by simp
  have c7: "\<forall>x. run_body e s = Inl (x, ?t) \<longrightarrow>
      (\<exists>f' p mm. callback e f' p = Some mm \<and> x = Exn mm)"
    using run_body_Inl_callback [OF assms(2)] by blast
  have c8: "(\<forall>k' c' f'. (c', f') \<in> set (functions_of (missing s) k') \<longrightarrow>
        CondCall c' k' \<in> set evs) \<and>
      cond_error k m \<in> set l' \<and> wf ?t \<and>
      (\<forall>i es. interval s = Some i \<and> \<not> is_set s \<longrightarrow> run (e # es) s = run es (wait i ?t))"
    if r0: "run_body e s = Inr ?t"
  proof -
    from r0 obtain s' where r: "run_body e s = Inr s'" by blast
    have ts': "?t = s'" using r by simp
    have d: "distinct (map fst (missing s))" using assms(1) by (simp add: wf_def)
    obtain evs1 ts2 l3 where
      t': "trace s' = trace s @ evs1 @ concat (map (key_events e s) (map fst (missing s))) @
                map LoadCall ts2"
      using run_body_trace_pl [OF r d] by blast
    have evs: "evs = evs1 @ concat (map (key_events e s) (map fst (missing s))) @
        map LoadCall ts2"
      using t t' unfolding ts' by simp
    have checked: "CondCall c' k' \<in> set evs"
      if "(c', f') \<in> set (functions_of (missing s) k')" for k' c' f'
    proof -
      have "k' \<in> fst ` set (missing s)" using functions_of_keys [OF that] .
      then show ?thesis unfolding evs using key_events_CondCall [OF that, of e] by auto
    qed
    have "CondCall c k \<in> set evs" using checked [OF assms(3)] .
    with c1 have logged: "cond_error k m \<in> set l'" by simp
    have "wf s'" using wf_run_body [OF r assms(1)] .
    moreover have "\<forall>i es. interval s = Some i \<and> \<not> is_set s \<longrightarrow>
        run (e # es) s = run es (wait i s')"
      using r by simp
    ultimately show ?thesis unfolding ts' using checked logged by blast
  qed
  show ?thesis
    by (rule exI [of _ ?t], rule exI [of _ evs], rule exI [of _ l'])
       (intro conjI refl t p c1 c2 c3 c4 c5 c6 c7 impI c8)
qed

lemma two_keys_logged_eq:
  "two_keys_logged =
     \<lparr>clock = 0, shutdown_at = None,
      watcher = \<lparr>watching = {''b.json'', ''a.json''}, changed = {}\<rparr>,
      pl = Some [], interval = Some 10,
      watched = [(''a.json'', [1]), (''b.json'', [2])],
      missing = [(''k'', [(3, 4)]), (''m'', [(5, 6)])],
      loaded = [''a.json'' \<mapsto> 1, ''b.json'' \<mapsto> 1],
      trace = [LoadCall ''a.json'', LoadCall ''b.json'']\<rparr>"
  by (simp add: two_keys_logged_def set_pl_def two_paths_two_keys_eq)

theorem raising_condition_isolated_witness:
  "wf two_keys_logged \<and> pl two_keys_logged = Some [] \<and>
   (3, 4) \<in> set (functions_of (missing two_keys_logged) ''k'') \<and>
   (5, 6) \<in> set (functions_of (missing two_keys_logged) ''m'') \<and>
   cond env_cond_raises 3 ''k'' = CondRaises ''boom'' \<and>
   (\<exists>t evs l'.
      run_body env_cond_raises two_keys_logged = Inr t \<and>
      trace t = trace two_keys_logged @ evs \<and> pl t = Some l' \<and>
      CondCall 3 ''k'' \<in> set evs \<and> cond_error ''k'' ''boom'' \<in> set l' \<and>
      (\<forall>f' p. Found ''k'' 3 f' p \<notin> set evs) \<and>
      (3, 4) \<in> set (functions_of (missing t) ''k'') \<and>
      CondCall 5 ''m'' \<in> set evs \<and> wf t \<and>
      run [env_cond_raises, env_cond_raises] two_keys_logged =
        run [env_cond_raises] (wait 10 t)) \<and>
   map_state (set_pl None) (run_body env_cond_raises two_keys_logged) =
     map_state (set_pl None) (run_body (hush 3 ''k'' env_cond_raises) two_keys_logged) \<and>
   cond env_cond_cb_raise 3 ''k'' = CondRaises ''boom'' \<and>
   callback env_cond_cb_raise 6 ''/etc/found.json'' = Some ''cb failed'' \<and>
   (\<exists>t evs l'.
      run_body env_cond_cb_raise two_keys_logged = Inl (Exn ''cb failed'', t) \<and>
      trace t = trace two_keys_logged @ evs \<and> pl t = Some l' \<and>
      CondCall 3 ''k'' \<in> set evs \<and> cond_error ''k'' ''boom'' \<in> set l' \<and>
      (\<forall>f' p. Found ''k'' 3 f' p \<notin> set evs) \<and>
      (3, 4) \<in> set (functions_of (missing t) ''k'')) \<and>
   map_state (set_pl None) (run_body env_cond_cb_raise two_keys_logged) =
     map_state (set_pl None) (run_body (hush 3 ''k'' env_cond_cb_raise) two_keys_logged)"
proof -
  have h1: "wf two_keys_logged"
    by (simp add: wf_def two_keys_logged_eq)
  have h2: "pl two_keys_logged = Some []"
    by (simp add: two_keys_logged_eq)
  have m1: "(3, 4) \<in> set (functions_of (missing two_keys_logged) ''k'')"
    by (simp add: two_keys_logged_eq functions_of_def)
  have m2: "(5, 6) \<in> set (functions_of (missing two_keys_logged) ''m'')"
    by (simp add: two_keys_logged_eq functions_of_def)
  have r1: "cond env_cond_raises 3 ''k'' = CondRaises ''boom''"
    by (simp add: env_cond_raises_def)
  have r2: "cond env_cond_cb_raise 3 ''k'' = CondRaises ''boom''"
    and cb: "callback env_cond_cb_raise 6 ''/etc/found.json'' = Some ''cb failed''"
    by (simp_all add: env_cond_cb_raise_def)
  have i: "interval two_keys_logged = Some 10 \<and> \<not> is_set two_keys_logged"
    by (simp add: two_keys_logged_eq is_set_def)
  have ret: "\<exists>s'. run_body env_cond_raises two_keys_logged = Inr s'"
    by (rule run_body_returns [OF h1 h2]) (simp add: env_cond_raises_def)
  have raised: "run_body env_cond_cb_raise two_keys_logged =
      Inl (Exn ''cb failed'',
        \<lparr>clock = 0, shutdown_at = None,
         watcher = \<lparr>watching = {''b.json'', ''a.json''}, changed = {}\<rparr>,
         pl = Some [cond_error ''k'' ''boom''], interval = Some 10,
         watched = [(''a.json'', [1]), (''b.json'', [2])],
         missing = [(''k'', [(3, 4)]), (''m'', [(5, 6)])],
         loaded = [''a.json'' \<mapsto> 1, ''b.json'' \<mapsto> 1],
         trace = [LoadCall ''a.json'', LoadCall ''b.json'', CondCall 3 ''k'', CondCall 5 ''m'',
                  Found ''m'' 5 6 ''/etc/found.json'']\<rparr>)"
    unfolding two_keys_logged_eq
    by (simp add: run_body_def env_cond_cb_raise_def touch_def functions_of_def check_def
        exception_def cond_error_def)
  from raising_condition_isolated [OF h1 h2 m1 r1] obtain t evs l' where
    a: "t = result_state (run_body env_cond_raises two_keys_logged)"
    and b: "trace t = trace two_keys_logged @ evs" "pl t = Some ([] @ l')"
    and c: "\<forall>f' p. Found ''k'' 3 f' p \<notin> set evs"
      "(3, 4) \<in> set (functions_of (missing t) ''k'')"
      "map_state (set_pl None) (run_body env_cond_raises two_keys_logged) =
         map_state (set_pl None) (run_body (hush 3 ''k'' env_cond_raises) two_keys_logged)"
    and d: "run_body env_cond_raises two_keys_logged = Inr t \<longrightarrow>
        (\<forall>k' c' f'. (c', f') \<in> set (functions_of (missing two_keys_logged) k') \<longrightarrow>
           CondCall c' k' \<in> set evs) \<and>
        cond_error ''k'' ''boom'' \<in> set l' \<and> wf t \<and>
        (\<forall>i es. interval two_keys_logged = Some i \<and> \<not> is_set two_keys_logged \<longrightarrow>
           run (env_cond_raises # es) two_keys_logged = run es (wait i t))"
    by blast
  from ret a have rt: "run_body env_cond_raises two_keys_logged = Inr t" by auto
  from d rt m1 m2 i have d': "CondCall 3 ''k'' \<in> set evs" "CondCall 5 ''m'' \<in> set evs"
    "cond_error ''k'' ''boom'' \<in> set l'" "wf t"
    "run [env_cond_raises, env_cond_raises] two_keys_logged = run [env_cond_raises] (wait 10 t)"
    by blast+
  have first: "\<exists>t evs l'.
      run_body env_cond_raises two_keys_logged = Inr t \<and>
      trace t = trace two_keys_logged @ evs \<and> pl t = Some l' \<and>
      CondCall 3 ''k'' \<in> set evs \<and> cond_error ''k'' ''boom'' \<in> set l' \<and>
      (\<forall>f' p. Found ''k'' 3 f' p \<notin> set evs) \<and>
      (3, 4) \<in> set (functions_of (missing t) ''k'') \<and>
      CondCall 5 ''m'' \<in> set evs \<and> wf t \<and>
      run [env_cond_raises, env_cond_raises] two_keys_logged =
        run [env_cond_raises] (wait 10 t)"
    using rt b c(1,2) d' by (intro exI [of _ t] exI [of _ evs] exI [of _ l']) simp
  from raising_condition_isolated [OF h1 h2 m1 r2] obtain t2 evs2 l2 where
    a2: "t2 = result_state (run_body env_cond_cb_raise two_keys_logged)"
    and b2: "trace t2 = trace two_keys_logged @ evs2" "pl t2 = Some ([] @ l2)"
    and c2: "CondCall 3 ''k'' \<in> set evs2 \<longrightarrow> cond_error ''k'' ''boom'' \<in> set l2"
      "\<forall>f' p. Found ''k'' 3 f' p \<notin> set evs2"
      "(3, 4) \<in> set (functions_of (missing t2) ''k'')"
      "map_state (set_pl None) (run_body env_cond_cb_raise two_keys_logged) =
         map_state (set_pl None) (run_body (hush 3 ''k'' env_cond_cb_raise) two_keys_logged)"
    by blast
  have rt2: "run_body env_cond_cb_raise two_keys_logged = Inl (Exn ''cb failed'', t2)"
    unfolding a2 raised by simp
  have "evs2 = [CondCall 3 ''k'', CondCall 5 ''m'', Found ''m'' 5 6 ''/etc/found.json'']"
    using b2(1) unfolding a2 raised by (simp add: two_keys_logged_eq)
  then have called: "CondCall 3 ''k'' \<in> set evs2" by simp
  with c2(1) have logged: "cond_error ''k'' ''boom'' \<in> set l2" by simp
  have second: "\<exists>t evs l'.
      run_body env_cond_cb_raise two_keys_logged = Inl (Exn ''cb failed'', t) \<and>
      trace t = trace two_keys_logged @ evs \<and> pl t = Some l' \<and>
      CondCall 3 ''k'' \<in> set evs \<and> cond_error ''k'' ''boom'' \<in> set l' \<and>
      (\<forall>f' p. Found ''k'' 3 f' p \<notin> set evs) \<and>
      (3, 4) \<in> set (functions_of (missing t) ''k'')"
    using rt2 b2 called logged c2(2,3)
    by (intro exI [of _ t2] exI [of _ evs2] exI [of _ l2]) simp
  show ?thesis
    by (intro conjI h1 h2 m1 m2 r1 first c(3) r2 cb second c2(4))
qed

section \<open>Several callbacks on one path\<close>

text \<open>
  C1 fails on the code: \<open>run\<close> asks the watcher once for every function of a path
  (line 120 is inside the loop of line 119), and the first answer consumes the change.
  With the functions 1 and 2 registered on \<open>theme.json\<close>, in this iteration order, and
  the file changed, a cycle calls function 1 and reloads the file, and never calls
  function 2.
\<close>

theorem second_callback_not_notified:
  "watched two_callbacks = [(''theme.json'', [1, 2])] \<and>
   ''theme.json'' \<in> changed (touch (modified env_theme_changed) (watcher two_callbacks)) \<and>
   \<not> isl (run_body env_theme_changed two_callbacks) \<and>
   trace (projr (run_body env_theme_changed two_callbacks)) =
     [Notify 1 ''theme.json'', LoadCall ''theme.json''] \<and>
   Notify 2 ''theme.json'' \<notin> set (trace (projr (run_body env_theme_changed two_callbacks))) \<and>
   loaded (projr (run_body env_theme_changed two_callbacks)) ''theme.json'' = Some 5"
  by (simp add: two_callbacks_def register_def set_pl_def set_interval_def init_def d0_def
      watch_def set_add_def env_theme_changed_def run_body_def touch_def check_def)

section \<open>Resolution of a missing pair\<close>

lemma falsy_not_resolves: "falsy (cond e c k) \<Longrightarrow> \<not> resolves e k (c, f)"
  by (cases "cond e c k" rule: falsy.cases) auto

lemma not_resolves_found_by: "\<not> resolves e k (c, f) \<Longrightarrow> found_by e k c f = []"
  by (auto simp: found_by_def split: cond_result.splits option.splits)

lemma run_append:
  "run (es1 @ es2) s =
     (case run es1 s of
        Running s1 \<Rightarrow> run es2 s1
      | Stopped s1 \<Rightarrow> Stopped s1
      | Raised x s1 \<Rightarrow> Raised x s1)"
proof (induction es1 arbitrary: s)
  case Nil
  show ?case
    by (cases es2) (simp_all split: option.splits)
next
  case (Cons e es1)
  show ?case
    by (simp add: Cons.IH split: option.splits sum.splits)
qed

lemma run_Cons_Running:
  assumes "run (e # es) s = Running s'"
  obtains i s1 where "interval s = Some i" "\<not> is_set s" "run_body e s = Inr s1"
    "run es (wait i s1) = Running s'"
  using assms by (auto split: option.splits if_splits sum.splits)

lemma run_append_Running:
  assumes "run (es1 @ es2) s = Running s'"
  obtains s1 where "run es1 s = Running s1" "run es2 s1 = Running s'"
  using assms unfolding run_append by (auto split: outcome.splits)

lemma run_Running_wf:
  "run es s = Running s' \<Longrightarrow> wf s \<Longrightarrow> wf s' \<and> interval s' = interval s"
proof (induction es arbitrary: s)
  case Nil
  then show ?case by (auto split: option.splits if_splits)
next
  case (Cons e es)
  from Cons.prems(1) obtain i s1 where
    b: "run_body e s = Inr s1" and r: "run es (wait i s1) = Running s'"
    by (rule run_Cons_Running)
  have "wf (wait i s1)" using wf_run_body [OF b Cons.prems(2)] by (simp add: wf_wait)
  from Cons.IH [OF r this] show ?case
    using run_body_frame [OF b] by (simp add: wait_fields)
qed

lemma run_Running_pending:
  "run es s = Running s' \<Longrightarrow> wf s \<Longrightarrow> \<forall>e \<in> set es. \<not> resolves e k (c, f) \<Longrightarrow>
   (c, f) \<in> set (functions_of (missing s) k) \<Longrightarrow>
   (c, f) \<in> set (functions_of (missing s') k) \<and> found k c f (trace s') = found k c f (trace s)"
proof (induction es arbitrary: s)
  case Nil
  then show ?case by (auto split: option.splits if_splits)
next
  case (Cons e es)
  from Cons.prems(1) obtain i s1 where
    b: "run_body e s = Inr s1" and r: "run es (wait i s1) = Running s'"
    by (rule run_Cons_Running)
  have d: "distinct (map fst (missing s))" using Cons.prems(2) by (simp add: wf_def)
  have n: "\<not> resolves e k (c, f)" using Cons.prems(3) by simp
  have w: "wf (wait i s1)" using wf_run_body [OF b Cons.prems(2)] by (simp add: wf_wait)
  have m: "(c, f) \<in> set (functions_of (missing (wait i s1)) k)"
    using Cons.prems(4) n by (simp add: wait_fields run_body_functions_of [OF b d] remaining_def)
  have t: "found k c f (trace (wait i s1)) = found k c f (trace s)"
    using run_body_found [OF b d wf_pairs_distinct [OF Cons.prems(2)], of k c f]
    by (simp add: wait_fields not_resolves_found_by [OF n])
  from Cons.IH [OF r w _ m] Cons.prems(3) t show ?case by simp
qed

lemma run_Running_gone:
  "run es s = Running s' \<Longrightarrow> wf s \<Longrightarrow> (c, f) \<notin> set (functions_of (missing s) k) \<Longrightarrow>
   (c, f) \<notin> set (functions_of (missing s') k) \<and> found k c f (trace s') = found k c f (trace s)"
proof (induction es arbitrary: s)
  case Nil
  then show ?case by (auto split: option.splits if_splits)
next
  case (Cons e es)
  from Cons.prems(1) obtain i s1 where
    b: "run_body e s = Inr s1" and r: "run es (wait i s1) = Running s'"
    by (rule run_Cons_Running)
  have d: "distinct (map fst (missing s))" using Cons.prems(2) by (simp add: wf_def)
  have w: "wf (wait i s1)" using wf_run_body [OF b Cons.prems(2)] by (simp add: wf_wait)
  have m: "(c, f) \<notin> set (functions_of (missing (wait i s1)) k)"
    using Cons.prems(3) by (simp add: wait_fields run_body_functions_of [OF b d] remaining_def)
  have t: "found k c f (trace (wait i s1)) = found k c f (trace s)"
    using run_body_found [OF b d wf_pairs_distinct [OF Cons.prems(2)], of k c f] Cons.prems(3)
    by (simp add: wait_fields)
  from Cons.IH [OF r w m] t show ?case by simp
qed

lemma register_missing_pending:
  "(c, f) \<in> set (functions_of (missing (register_missing c f k s)) k)"
  by (simp add: register_missing_def functions_of_def map_of_map_default set_add_def
      split: option.splits)

lemma register_missing_fields:
  "trace (register_missing c f k s) = trace s \<and> interval (register_missing c f k s) = interval s"
  by (simp add: register_missing_def)

lemma run_missing_functions_found_other:
  "run_missing_functions e k' ps ts s = Inr (ts', s') \<or>
   run_missing_functions e k' ps ts s = Inl (x, s') \<Longrightarrow>
   k' \<noteq> k \<or> (c, f) \<notin> set ps \<Longrightarrow>
   found k c f (trace s') = found k c f (trace s)"
proof (induction ps arbitrary: ts s)
  case Nil
  then show ?case by auto
next
  case (Cons a rest)
  obtain c' f' where a: "a = (c', f')" by (cases a)
  have n: "k' \<noteq> k \<or> (c, f) \<notin> set rest" using Cons.prems(2) by auto
  have h: "\<not> (k' = k \<and> c' = c \<and> f' = f)" using Cons.prems(2) by (auto simp: a)
  from Cons.prems(1) h show ?case
    unfolding a
    by (auto simp: Let_def exception_def found_def
        split: cond_result.splits option.splits if_splits
        dest!: Cons.IH [OF _ n])
qed

lemma run_missing_functions_subset:
  "run_missing_functions e k ps ts s = Inr (ts', s') \<or>
   run_missing_functions e k ps ts s = Inl (x, s') \<Longrightarrow>
   set (functions_of (missing s') k') \<subseteq> set (functions_of (missing s) k')"
proof (induction ps arbitrary: ts s)
  case Nil
  then show ?case by auto
next
  case (Cons a rest)
  obtain c f where a: "a = (c, f)" by (cases a)
  have r: "set (functions_of (AList.map_entry k (removeAll (c, f)) al) k')
             \<subseteq> set (functions_of al k')" for al :: "(key \<times> (fn \<times> fn) list) list"
    by (cases "map_of al k") (auto simp: functions_of_def map_of_map_entry)
  from Cons.prems show ?case
    unfolding a
    by (auto simp: Let_def exception_def
        split: cond_result.splits option.splits if_splits
        dest!: Cons.IH)
       (blast dest: subsetD [OF r])+
qed

lemma pop_if_empty_subset:
  "set (functions_of (missing (pop_if_empty k s)) k') \<subseteq> set (functions_of (missing s) k')"
  by (auto simp: functions_of_def pop_if_empty_map_of split: option.splits if_splits)

lemma run_missing_gone:
  "run_missing e items ts s = Inr (ts', s') \<or> run_missing e items ts s = Inl (x, s') \<Longrightarrow>
   (c, f) \<notin> set (functions_of (missing s) k) \<Longrightarrow>
   found k c f (trace s') = found k c f (trace s) \<and>
   (c, f) \<notin> set (functions_of (missing s') k)"
proof (induction items arbitrary: ts s)
  case Nil
  then show ?case by auto
next
  case (Cons a items)
  obtain k0 y where a: "a = (k0, y)" by (cases a)
  let ?ps = "functions_of (missing s) k0"
  have n: "k0 \<noteq> k \<or> (c, f) \<notin> set ?ps" using Cons.prems(2) by auto
  from Cons.prems(1) consider
    (here) "run_missing_functions e k0 ?ps ts s = Inl (x, s')"
  | (later) ts1 s1 where "run_missing_functions e k0 ?ps ts s = Inr (ts1, s1)"
      "run_missing e items ts1 (pop_if_empty k0 s1) = Inr (ts', s') \<or>
       run_missing e items ts1 (pop_if_empty k0 s1) = Inl (x, s')"
    unfolding a run_missing_Cons_Inr run_missing_Cons_Inl by blast
  then show ?case
  proof cases
    case here
    show ?thesis
      using run_missing_functions_found_other [OF disjI2 [OF here] n]
        run_missing_functions_subset [OF disjI2 [OF here], of k] Cons.prems(2)
      by auto
  next
    case later
    have t: "found k c f (trace (pop_if_empty k0 s1)) = found k c f (trace s)"
      using run_missing_functions_found_other [OF disjI1 [OF later(1)] n]
      by (simp add: pop_if_empty_fields)
    have g: "(c, f) \<notin> set (functions_of (missing (pop_if_empty k0 s1)) k)"
      using run_missing_functions_subset [OF disjI1 [OF later(1)], of k]
        pop_if_empty_subset [of k0 s1 k] Cons.prems(2)
      by auto
    from Cons.IH [OF later(2) g] t show ?thesis by simp
  qed
qed

lemma run_toload_found:
  "run_toload e ts s = Inr s' \<or> run_toload e ts s = Inl (x, s') \<Longrightarrow>
   found k c f (trace s') = found k c f (trace s)"
proof (induction ts arbitrary: s)
  case Nil
  then show ?case by auto
next
  case (Cons p ts)
  from Cons.prems show ?case
    by (auto simp: Let_def exception_def found_def split: sum.splits option.splits
        dest!: Cons.IH)
qed

lemma run_watched_found:
  assumes "run_watched e items ts s = Inr (ts', s') \<or> run_watched e items ts s = Inl (x, s')"
  shows "found k c f (trace s') = found k c f (trace s)"
proof -
  obtain evs where "trace s' = trace s @ evs" "\<forall>ev \<in> set evs. is_notify ev"
    using run_watched_trace [OF assms] by blast
  then show ?thesis by (simp add: found_def found_notify)
qed

lemma run_body_gone:
  assumes "run_body e s = Inr s' \<or> run_body e s = Inl (x, s')"
    and "(c, f) \<notin> set (functions_of (missing s) k)"
  shows "found k c f (trace s') = found k c f (trace s) \<and>
         (c, f) \<notin> set (functions_of (missing s') k)"
proof -
  let ?s0 = "s\<lparr>watcher := touch (modified e) (watcher s)\<rparr>"
  from assms(1) consider
    (one) "run_watched e (watched s) [] ?s0 = Inl (x, s')"
  | (two) ts1 s1 where "run_watched e (watched s) [] ?s0 = Inr (ts1, s1)"
      "run_missing e (missing s1) ts1 s1 = Inl (x, s')"
  | (three) ts1 s1 ts2 s2 where "run_watched e (watched s) [] ?s0 = Inr (ts1, s1)"
      "run_missing e (missing s1) ts1 s1 = Inr (ts2, s2)" "run_toload e ts2 s2 = Inl (x, s')"
  | (four) ts1 s1 ts2 s2 s3 where "run_watched e (watched s) [] ?s0 = Inr (ts1, s1)"
      "run_missing e (missing s1) ts1 s1 = Inr (ts2, s2)" "run_toload e ts2 s2 = Inr s3"
      "s' = s3\<lparr>clock := clock s3 + duration e\<rparr>"
    unfolding run_body_Inr run_body_Inl by blast
  then show ?thesis
  proof cases
    case one
    show ?thesis
      using run_watched_found [OF disjI2 [OF one], of k c f]
        run_watched_frame [OF disjI2 [OF one]] assms(2) by simp
  next
    case two
    have g1: "(c, f) \<notin> set (functions_of (missing s1) k)"
      using run_watched_frame [OF disjI1 [OF two(1)]] assms(2) by simp
    show ?thesis
      using run_missing_gone [OF disjI2 [OF two(2)] g1]
        run_watched_found [OF disjI1 [OF two(1)], of k c f] by simp
  next
    case three
    have g1: "(c, f) \<notin> set (functions_of (missing s1) k)"
      using run_watched_frame [OF disjI1 [OF three(1)]] assms(2) by simp
    show ?thesis
      using run_missing_gone [OF disjI1 [OF three(2)] g1]
        run_watched_found [OF disjI1 [OF three(1)], of k c f]
        run_toload_found [OF disjI2 [OF three(3)], of k c f]
        run_toload_frame [OF disjI2 [OF three(3)]] by simp
  next
    case four
    have g1: "(c, f) \<notin> set (functions_of (missing s1) k)"
      using run_watched_frame [OF disjI1 [OF four(1)]] assms(2) by simp
    show ?thesis
      using run_missing_gone [OF disjI1 [OF four(2)] g1]
        run_watched_found [OF disjI1 [OF four(1)], of k c f]
        run_toload_found [OF disjI1 [OF four(3)], of k c f]
        run_toload_frame [OF disjI1 [OF four(3)]] four(4) by simp
  qed
qed

lemma run_gone:
  "(c, f) \<notin> set (functions_of (missing s) k) \<Longrightarrow>
   found k c f (trace (outcome_state (run es s))) = found k c f (trace s) \<and>
   (c, f) \<notin> set (functions_of (missing (outcome_state (run es s))) k)"
proof (induction es arbitrary: s)
  case Nil
  then show ?case by (simp split: option.splits)
next
  case (Cons e es)
  show ?case
  proof (cases "interval s")
    case None
    then show ?thesis using Cons.prems by simp
  next
    case (Some i)
    show ?thesis
    proof (cases "is_set s")
      case True
      then show ?thesis using Some Cons.prems by simp
    next
      case False
      show ?thesis
      proof (cases "run_body e s")
        case (Inl r)
        obtain x s1 where r: "r = (x, s1)" by (cases r)
        show ?thesis
          using run_body_gone [OF disjI2 Cons.prems, of e x s1] Inl r Some False by simp
      next
        case (Inr s1)
        have g: "found k c f (trace s1) = found k c f (trace s) \<and>
                 (c, f) \<notin> set (functions_of (missing s1) k)"
          using run_body_gone [OF disjI1 Cons.prems, of e s1] Inr by simp
        then have "(c, f) \<notin> set (functions_of (missing (wait i s1)) k)"
          by (simp add: wait_fields)
        from Cons.IH [OF this] g show ?thesis
          using Some False Inr by (simp add: wait_fields)
      qed
    qed
  qed
qed

lemma three_cycles_eq:
  "three_cycles =
     Running \<lparr>clock = 34, shutdown_at = None, watcher = \<lparr>watching = {}, changed = {}\<rparr>,
       pl = None, interval = Some 10, watched = [], missing = [],
       loaded = [''/etc/found.json'' \<mapsto> 5],
       trace = [CondCall 3 ''colorscheme'', CondCall 3 ''colorscheme'',
                Found ''colorscheme'' 3 4 ''/etc/found.json'', LoadCall ''/etc/found.json'']\<rparr>"
  by (simp add: three_cycles_def with_interval_def register_missing_def set_interval_def init_def
      d0_def env_const_def env_found_idle_def run_body_def touch_def is_set_def wait_def
      functions_of_def)

lemma run_Running_loop:
  "run es s = Running s' \<Longrightarrow> \<exists>i. interval s' = Some i \<and> \<not> is_set s'"
proof (induction es arbitrary: s)
  case Nil
  then show ?case by (auto split: option.splits if_splits)
next
  case (Cons e es)
  from Cons.prems obtain i s1 where "run es (wait i s1) = Running s'"
    by (rule run_Cons_Running)
  from Cons.IH [OF this] show ?case .
qed

text \<open>
  What the loop does for a pair whose callback returns. Let the pair \<open>(cond, cb)\<close> be
  registered under \<open>k\<close>, let the loop run \<open>N - 1\<close> cycles (\<open>es1\<close>) in which
  \<open>cond(k)\<close> returns a falsy value, and let the Nth cycle (\<open>eN\<close>), in which it
  returns the non-empty path \<open>P\<close>, return normally. Then the call of line 134 is made
  for this pair not at all in the first \<open>N - 1\<close> cycles and exactly once in the Nth,
  with \<open>P\<close>; the pair is then removed, and \<open>k\<close> with it if no pair is left; whatever
  the later cycles (\<open>es2\<close>) do, the call is never made again.
\<close>

lemma missing_pair_resolved_when_cycle_returns:
  assumes "wf s0"
    and "\<forall>e \<in> set es1. falsy (cond e c k)"
    and "cond eN c k = CondReturns (Some P)" and "P \<noteq> []"
    and "run es1 (register_missing c f k s0) = Running s1"
    and "run_body eN s1 = Inr s2"
  shows "\<exists>i. interval s1 = Some i \<and>
     run (es1 @ eN # es2) (register_missing c f k s0) = run es2 (wait i s2) \<and>
     found k c f (trace s1) = found k c f (trace s0) \<and>
     found k c f (trace s2) = found k c f (trace s0) @ [Found k c f P] \<and>
     (c, f) \<notin> set (functions_of (missing s2) k) \<and>
     (functions_of (missing s2) k = [] \<longrightarrow> k \<notin> fst ` set (missing s2)) \<and>
     found k c f (trace (outcome_state (run es2 (wait i s2)))) =
       found k c f (trace s0) @ [Found k c f P] \<and>
     (c, f) \<notin> set (functions_of (missing (outcome_state (run es2 (wait i s2)))) k)"
proof -
  let ?s = "register_missing c f k s0"
  have w: "wf ?s" using assms(1) by (rule wf_register_missing)
  obtain i where i: "interval s1 = Some i" and ns: "\<not> is_set s1"
    using run_Running_loop [OF assms(5)] by blast
  have r: "run (es1 @ eN # es2) ?s = run es2 (wait i s2)"
    using assms(5,6) i ns by (simp add: run_append)
  have n: "\<forall>e \<in> set es1. \<not> resolves e k (c, f)"
    using assms(2) falsy_not_resolves by blast
  have w1: "wf s1" using run_Running_wf [OF assms(5) w] by simp
  have p1: "(c, f) \<in> set (functions_of (missing s1) k)"
    and t1: "found k c f (trace s1) = found k c f (trace s0)"
    using run_Running_pending [OF assms(5) w n register_missing_pending]
    by (simp_all add: register_missing_fields)
  have d1: "distinct (map fst (missing s1))" using w1 by (simp add: wf_def)
  have res: "resolves eN k (c, f)" using assms(3,4) by simp
  have fb: "found_by eN k c f = [Found k c f P]"
    using assms(3,4) by (simp add: found_by_def)
  have t2: "found k c f (trace s2) = found k c f (trace s0) @ [Found k c f P]"
    using run_body_found [OF assms(6) d1 wf_pairs_distinct [OF w1], of k c f] p1 t1 fb by simp
  have g2: "(c, f) \<notin> set (functions_of (missing s2) k)"
    using res by (simp add: run_body_functions_of [OF assms(6) d1] remaining_def)
  have k2: "functions_of (missing s2) k = [] \<longrightarrow> k \<notin> fst ` set (missing s2)"
    using run_body_missing(1) [OF assms(6) d1, of k]
    by (auto simp: functions_of_def map_of_eq_None_iff [symmetric] split: option.splits if_splits)
  have g2': "(c, f) \<notin> set (functions_of (missing (wait i s2)) k)"
    using g2 by (simp add: wait_fields)
  have g3: "(c, f) \<notin> set (functions_of (missing (outcome_state (run es2 (wait i s2)))) k)"
    and t3: "found k c f (trace (outcome_state (run es2 (wait i s2)))) =
             found k c f (trace s0) @ [Found k c f P]"
    using run_gone [OF g2', of es2] t2 by (simp_all add: wait_fields)
  show ?thesis
    by (rule exI [of _ i]) (intro conjI i r t1 t2 g2 k2 t3 g3)
qed

lemma after_idle_cycle_eq:
  "after_idle_cycle =
     \<lparr>clock = 10, shutdown_at = None, watcher = \<lparr>watching = {}, changed = {}\<rparr>,
      pl = None, interval = Some 10, watched = [],
      missing = [(''colorscheme'', [(3, 4)])], loaded = Map.empty,
      trace = [CondCall 3 ''colorscheme'']\<rparr>"
  by (simp add: after_idle_cycle_def with_interval_def register_missing_def set_interval_def
      init_def d0_def env_const_def run_body_def touch_def is_set_def wait_def functions_of_def)

lemma run_idle_cycle:
  "run [env_const 0] (register_missing 3 4 ''colorscheme'' with_interval) =
     Running after_idle_cycle"
  unfolding after_idle_cycle_eq
  by (simp add: with_interval_def register_missing_def set_interval_def
      init_def d0_def env_const_def run_body_def touch_def is_set_def wait_def functions_of_def)

lemma after_found_cycle_eq:
  "run_body env_found_idle after_idle_cycle = Inr after_found_cycle \<and>
   missing after_found_cycle = [] \<and>
   trace after_found_cycle =
     [CondCall 3 ''colorscheme'', CondCall 3 ''colorscheme'',
      Found ''colorscheme'' 3 4 ''/etc/found.json'', LoadCall ''/etc/found.json'']"
  by (simp add: after_found_cycle_def after_idle_cycle_eq env_found_idle_def run_body_def
      touch_def functions_of_def)

lemma missing_pair_resolved_example:
  "wf with_interval \<and>
   falsy (cond (env_const 0) 3 ''colorscheme'') \<and>
   cond env_found_idle 3 ''colorscheme'' = CondReturns (Some ''/etc/found.json'') \<and>
   ''/etc/found.json'' \<noteq> [] \<and>
   run [env_const 0] (register_missing 3 4 ''colorscheme'' with_interval) =
     Running after_idle_cycle \<and>
   run_body env_found_idle after_idle_cycle = Inr after_found_cycle \<and>
   found ''colorscheme'' 3 4 (trace after_idle_cycle) = [] \<and>
   found ''colorscheme'' 3 4 (trace after_found_cycle) =
     [Found ''colorscheme'' 3 4 ''/etc/found.json''] \<and>
   missing after_found_cycle = [] \<and>
   found ''colorscheme'' 3 4 (trace (outcome_state three_cycles)) =
     [Found ''colorscheme'' 3 4 ''/etc/found.json''] \<and>
   (3, 4) \<notin> set (functions_of (missing (outcome_state three_cycles)) ''colorscheme'')"
proof -
  have h1: "wf with_interval"
    by (simp add: wf_def with_interval_def set_interval_def init_def)
  have h2: "\<forall>e \<in> set [env_const 0]. falsy (cond e 3 ''colorscheme'')"
    by (simp add: env_const_def)
  have h3: "cond env_found_idle 3 ''colorscheme'' = CondReturns (Some ''/etc/found.json'')"
    by (simp add: env_found_idle_def)
  have h4: "''/etc/found.json'' \<noteq> []" by simp
  note h5 = run_idle_cycle
  have h6: "run_body env_found_idle after_idle_cycle = Inr after_found_cycle"
    using after_found_cycle_eq by simp
  have t0: "found ''colorscheme'' 3 4 (trace with_interval) = []"
    by (simp add: found_def with_interval_def set_interval_def init_def)
  have f: "falsy (cond (env_const 0) 3 ''colorscheme'')"
    using h2 by simp
  from missing_pair_resolved_when_cycle_returns [OF h1 h2 h3 h4 h5 h6, of "[env_found_idle]"]
  obtain i where
    r: "run ([env_const 0] @ env_found_idle # [env_found_idle])
          (register_missing 3 4 ''colorscheme'' with_interval) =
        run [env_found_idle] (wait i after_found_cycle)"
    and a: "found ''colorscheme'' 3 4 (trace after_idle_cycle) =
            found ''colorscheme'' 3 4 (trace with_interval)"
    and b: "found ''colorscheme'' 3 4 (trace after_found_cycle) =
            found ''colorscheme'' 3 4 (trace with_interval) @
            [Found ''colorscheme'' 3 4 ''/etc/found.json'']"
    and c: "found ''colorscheme'' 3 4
              (trace (outcome_state (run [env_found_idle] (wait i after_found_cycle)))) =
            found ''colorscheme'' 3 4 (trace with_interval) @
            [Found ''colorscheme'' 3 4 ''/etc/found.json'']"
    and d: "(3, 4) \<notin> set (functions_of
              (missing (outcome_state (run [env_found_idle] (wait i after_found_cycle))))
              ''colorscheme'')"
    by blast
  have e: "outcome_state three_cycles =
           outcome_state (run [env_found_idle] (wait i after_found_cycle))"
    unfolding three_cycles_def r ..
  have m: "missing after_found_cycle = []"
    using after_found_cycle_eq by simp
  from h1 f h3 h4 h5 h6 a b c d m t0 show ?thesis
    unfolding e by simp
qed

text \<open>
  C2 fails on the code when the callback raises: line 134 is in the \<open>else\<close> branch of
  the \<open>try\<close>, which no handler covers, so the exception of \<open>cb(P)\<close> leaves \<open>run\<close>
  before line 135 removes the pair. With the pair \<open>(3, 4)\<close> registered under
  \<open>colorscheme\<close>, a logger attached, the condition function returning
  \<open>/etc/found.json\<close> in the first cycle and the callback raising, the cycle ends with the
  callback's exception, the pair is still stored, \<open>run\<close> ends there, and a further cycle
  from that state calls the callback for the pair a second time.
\<close>

theorem raising_callback_keeps_pair:
  "cond env_cb_raises 3 ''colorscheme'' = CondReturns (Some ''/etc/found.json'') \<and>
   callback env_cb_raises 4 ''/etc/found.json'' = Some ''cb failed'' \<and>
   missing pending_logged = [(''colorscheme'', [(3, 4)])] \<and>
   pl pending_logged = Some [] \<and>
   run_body env_cb_raises pending_logged = Inl (Exn ''cb failed'', after_cb_raised) \<and>
   trace after_cb_raised =
     [CondCall 3 ''colorscheme'', Found ''colorscheme'' 3 4 ''/etc/found.json''] \<and>
   missing after_cb_raised = [(''colorscheme'', [(3, 4)])] \<and>
   run [env_cb_raises, env_cb_raises] pending_logged = Raised (Exn ''cb failed'') after_cb_raised \<and>
   found ''colorscheme'' 3 4 (trace (snd (projl (run_body env_cb_raises after_cb_raised)))) =
     [Found ''colorscheme'' 3 4 ''/etc/found.json'', Found ''colorscheme'' 3 4 ''/etc/found.json'']"
proof -
  have s: "pending_logged =
     \<lparr>clock = 0, shutdown_at = None, watcher = \<lparr>watching = {}, changed = {}\<rparr>,
      pl = Some [], interval = Some 10, watched = [],
      missing = [(''colorscheme'', [(3, 4)])], loaded = Map.empty, trace = []\<rparr>"
    by (simp add: pending_logged_def register_missing_def set_pl_def set_interval_def init_def
        d0_def)
  have r: "run_body env_cb_raises pending_logged =
     Inl (Exn ''cb failed'',
       \<lparr>clock = 0, shutdown_at = None, watcher = \<lparr>watching = {}, changed = {}\<rparr>,
        pl = Some [], interval = Some 10, watched = [],
        missing = [(''colorscheme'', [(3, 4)])], loaded = Map.empty,
        trace = [CondCall 3 ''colorscheme'', Found ''colorscheme'' 3 4 ''/etc/found.json'']\<rparr>)"
    unfolding s by (simp add: run_body_def env_cb_raises_def touch_def functions_of_def)
  have a: "after_cb_raised =
       \<lparr>clock = 0, shutdown_at = None, watcher = \<lparr>watching = {}, changed = {}\<rparr>,
        pl = Some [], interval = Some 10, watched = [],
        missing = [(''colorscheme'', [(3, 4)])], loaded = Map.empty,
        trace = [CondCall 3 ''colorscheme'', Found ''colorscheme'' 3 4 ''/etc/found.json'']\<rparr>"
    unfolding after_cb_raised_def r by simp
  have r2: "found ''colorscheme'' 3 4 (trace (snd (projl (run_body env_cb_raises after_cb_raised)))) =
     [Found ''colorscheme'' 3 4 ''/etc/found.json'', Found ''colorscheme'' 3 4 ''/etc/found.json'']"
    unfolding a by (simp add: run_body_def env_cb_raises_def touch_def functions_of_def found_def)
  have u: "run [env_cb_raises, env_cb_raises] pending_logged = Raised (Exn ''cb failed'') after_cb_raised"
    unfolding a using r by (simp add: s is_set_def)
  have c1: "cond env_cb_raises 3 ''colorscheme'' = CondReturns (Some ''/etc/found.json'')"
    and c2: "callback env_cb_raises 4 ''/etc/found.json'' = Some ''cb failed''"
    by (simp_all add: env_cb_raises_def)
  have m0: "missing pending_logged = [(''colorscheme'', [(3, 4)])]" and p0: "pl pending_logged = Some []"
    by (simp_all add: s)
  have r': "run_body env_cb_raises pending_logged = Inl (Exn ''cb failed'', after_cb_raised)"
    unfolding a by (rule r)
  have t1: "trace after_cb_raised =
     [CondCall 3 ''colorscheme'', Found ''colorscheme'' 3 4 ''/etc/found.json'']"
    and m1: "missing after_cb_raised = [(''colorscheme'', [(3, 4)])]"
    by (simp_all add: a)
  show ?thesis
    by (intro conjI c1 c2 m0 p0 r' t1 m1 u r2)
qed

end
